(* ===== verification/Prelude.thy ===== *)
theory Prelude
  imports Main "HOL-Library.Word"
begin

text \<open>
  Shared vocabulary of the development: the machine integers of
  \<^verbatim>\<open>src/kernel/main/types.h\<close>, the status codes of \<^verbatim>\<open>src/kernel/main/errno.h\<close>, and the
  generic facts on lists, bits and words that the component theories use.  C pointers are
  natural numbers with 0 as the null pointer; integer arithmetic that can wrap is done on words.
\<close>

unbundle bit_operations_syntax

type_synonym u8 = "8 word"
type_synonym u16 = "16 word"
type_synonym u32 = "32 word"
type_synonym u64 = "64 word"
type_synonym ptr = nat

text \<open>The collections the component theories extend: \<open>model_defs\<close> holds defining equations that
  are unfolded together.\<close>

named_theorems model_defs

section \<open>Status codes (errno.h)\<close>

text \<open>A status is a C \<open>int\<close>: zero or positive on success, the negated code on failure.\<close>

definition ENOSYS :: int where [simp]: "ENOSYS = 1"
definition EPERM :: int where [simp]: "EPERM = 2"
definition EBUSY :: int where [simp]: "EBUSY = 3"
definition ENOENT :: int where [simp]: "ENOENT = 5"
definition ENOTDIR :: int where [simp]: "ENOTDIR = 6"
definition EISDIR :: int where [simp]: "EISDIR = 7"
definition ENOTEMPTY :: int where [simp]: "ENOTEMPTY = 8"
definition ENODEV :: int where [simp]: "ENODEV = 9"
definition ENOFS :: int where [simp]: "ENOFS = 10"
definition ESRCH :: int where [simp]: "ESRCH = 11"
definition ENOSPC :: int where [simp]: "ENOSPC = 12"
definition EXDEV :: int where [simp]: "EXDEV = 13"
definition ERANGE :: int where [simp]: "ERANGE = 15"
definition EBADF :: int where [simp]: "EBADF = 18"
definition ENAMETOOLONG :: int where [simp]: "ENAMETOOLONG = 20"
definition EFAIL :: int where [simp]: "EFAIL = 22"
definition ENOMEM :: int where [simp]: "ENOMEM = 23"
definition EINVAL :: int where [simp]: "EINVAL = 24"
definition EIO :: int where [simp]: "EIO = 26"
definition ENOTSUP :: int where [simp]: "ENOTSUP = 27"
definition EINTR :: int where [simp]: "EINTR = 29"
definition EEXIST :: int where [simp]: "EEXIST = 30"
definition EPIPE :: int where [simp]: "EPIPE = 33"

section \<open>First and last element with a default\<close>

fun hd_or :: "'a list \<Rightarrow> 'a \<Rightarrow> 'a" where
  "hd_or [] d = d"
| "hd_or (x # xs) d = x"

fun last_or :: "'a list \<Rightarrow> 'a \<Rightarrow> 'a" where
  "last_or [] d = d"
| "last_or (x # xs) d = last_or xs x"

lemma hd_or_append [simp]: "hd_or (xs @ ys) d = hd_or xs (hd_or ys d)"
  by (cases xs) auto

lemma last_or_append [simp]: "last_or (xs @ ys) d = last_or ys (last_or xs d)"
  by (induction xs arbitrary: d) auto

lemma last_or_in_set: "last_or xs d \<in> insert d (set xs)"
  by (induction xs arbitrary: d) auto

lemma hd_or_in_set: "hd_or xs d \<in> insert d (set xs)"
  by (cases xs) auto

lemma last_or_neq [simp]: "h \<notin> set xs \<Longrightarrow> h \<noteq> d \<Longrightarrow> last_or xs d \<noteq> h"
  by (induction xs arbitrary: d) auto

lemma hd_or_neq [simp]: "h \<notin> set xs \<Longrightarrow> h \<noteq> d \<Longrightarrow> hd_or xs d \<noteq> h"
  by (cases xs) auto

lemma last_or_last: "xs \<noteq> [] \<Longrightarrow> last_or xs d = last xs"
  by (induction xs arbitrary: d) (auto simp: neq_Nil_conv)

lemma hd_or_hd: "xs \<noteq> [] \<Longrightarrow> hd_or xs d = hd xs"
  by (cases xs) auto

lemma last_or_rev [simp]: "last_or (rev xs) d = hd_or xs d"
  by (cases xs) auto

section \<open>Bits and words\<close>

lemma and_exp_eq_0:
  fixes w :: "'a::len word"
  assumes "j < LENGTH('a)"
  shows "w AND 2 ^ j = 0 \<longleftrightarrow> \<not> bit w j"
proof
  assume "w AND 2 ^ j = 0"
  then have "\<not> bit (w AND 2 ^ j) j" by simp
  with assms show "\<not> bit w j" by (simp add: bit_simps)
next
  assume "\<not> bit w j"
  then show "w AND 2 ^ j = 0" by (intro bit_word_eqI) (auto simp: bit_simps)
qed

lemma bit_or_exp:
  fixes w :: "'a::len word"
  assumes "j < LENGTH('a)"
  shows "bit (w OR 2 ^ j) k \<longleftrightarrow> bit w k \<or> k = j"
  using assms by (auto simp: bit_simps)

lemma bit_and_not_exp:
  fixes w :: "'a::len word"
  assumes "j < LENGTH('a)"
  shows "bit (w AND NOT (2 ^ j)) k \<longleftrightarrow> bit w k \<and> k \<noteq> j"
  using assms by (auto simp: bit_simps dest: bit_imp_le_length)

lemmas mod_64_bits =
  and_exp_eq_0 [where 'a = 64 and j = "n mod 64" for n, simplified]
  bit_or_exp [where 'a = 64 and j = "n mod 64" for n, simplified]
  bit_and_not_exp [where 'a = 64 and j = "n mod 64" for n, simplified]

lemma div_mod_64_inject: "a div 64 = b div 64 \<Longrightarrow> a mod 64 = b mod 64 \<Longrightarrow> a = (b::nat)"
  by (metis div_mult_mod_eq)

lemma unat_u32_less: "unat (w :: u32) < 4294967296"
  by (rule order_less_le_trans [OF unsigned_less]) simp

lemma unat_u64_less: "unat (w :: u64) < 18446744073709551616"
  by (rule order_less_le_trans [OF unsigned_less]) simp

lemma unat_and_page_offset: "unat (x AND 0xFFF :: u64) = unat x mod 4096"
proof -
  have "x AND 0xFFF = take_bit 12 x" by (simp add: take_bit_eq_mask mask_eq_exp_minus_1)
  then show ?thesis by (simp add: take_bit_eq_mod unat_mod)
qed

lemma unat_and_page_mask: "unat (x AND 0xFFFFFFFFFFFFF000 :: u64) = 4096 * (unat x div 4096)"
proof -
  have "x - (x AND 0xFFF) = x AND NOT (x AND 0xFFF)" by (rule disjunctive_diff) (simp add: bit_simps)
  also have "\<dots> = x AND NOT 0xFFF" by (rule bit_word_eqI) (auto simp: bit_simps)
  also have "NOT 0xFFF = (0xFFFFFFFFFFFFF000 :: u64)" by code_simp
  finally have eq: "x AND 0xFFFFFFFFFFFFF000 = x - (x AND 0xFFF)" ..
  have "x AND 0xFFF \<le> x" by (simp add: word_le_nat_alt unat_and_page_offset)
  then have "unat (x AND 0xFFFFFFFFFFFFF000) = unat x - unat x mod 4096"
    by (simp add: eq unat_sub unat_and_page_offset)
  then show ?thesis by (metis minus_mod_eq_mult_div)
qed

lemma page_round_up:
  fixes x :: nat
  shows "(x + 4095) div 4096 = (if x mod 4096 = 0 then x div 4096 else x div 4096 + 1)"
proof (cases "x mod 4096 = 0")
  case True
  then show ?thesis by auto
next
  case False
  have "x + 4095 = 4096 * (x div 4096) + (x mod 4096 + 4095)" by simp
  then have "(x + 4095) div 4096 = x div 4096 + (x mod 4096 + 4095) div 4096"
    by (metis div_mult_self2 add.commute zero_neq_numeral)
  moreover have "(x mod 4096 + 4095) div 4096 = 1"
    using False mod_less_divisor [of 4096 x] by (intro div_nat_eqI) auto
  ultimately show ?thesis using False by simp
qed

lemma unat_push_bit_u64:
  "2 ^ n * unat x < 2 ^ 64 \<Longrightarrow> unat (push_bit n (x :: u64)) = 2 ^ n * unat x"
  unfolding unsigned_push_bit_eq by (simp add: push_bit_eq_mult take_bit_nat_eq_self mult.commute)

lemma unat_or_low:
  fixes c y :: u64
  assumes "unat c mod 2 ^ n = 0" and "unat y < 2 ^ n" and "unat c + unat y < 2 ^ 64"
  shows "unat (c OR y) = unat c + unat y"
proof -
  have "\<not> bit c k \<or> \<not> bit y k" for k
  proof (cases "k < n")
    case True
    have "bit (take_bit n (unat c)) k = (bit c k)" using True by (simp add: bit_take_bit_iff bit_unsigned_iff)
    then show ?thesis using assms(1) by (simp add: take_bit_eq_mod)
  next
    case False
    have "take_bit n (unat y) = unat y" using assms(2) by (simp add: take_bit_nat_eq_self)
    then have "bit (unat y) k \<Longrightarrow> k < n" by (metis bit_take_bit_iff)
    then show ?thesis using False by (auto simp: bit_unsigned_iff)
  qed
  then have "c AND y = 0" by (intro bit_eqI) (simp add: bit_and_iff)
  then have "c OR y = c + y" by (simp add: disjunctive_add_eq_or)
  then show ?thesis using assms(3) by (simp add: unat_word_ariths)
qed

end
