(* ===== verification/Pmm.thy ===== *)
theory Pmm
  imports Prelude
begin

text \<open>
  The physical page allocator of \<^verbatim>\<open>src/kernel/mem/pmm.c\<close>: a bitmap of 64-bit words in which a set
  bit is a free page, a search hint \<open>cur_index\<close> and a counter of free pages.  The predicate
  \<open>page_free\<close> is the abstract view, the set of free pages; the lemmas show how each operation
  changes it and that the hint and the counter stay correct.
\<close>

section \<open>State and macros\<close>

record pmm =
  bitmap :: "u64 list"
  max_index :: u32
  cur_index :: u32
  free_pages :: u32
  num_pages :: u32

definition PAGE_SIZE :: u64 where [simp]: "PAGE_SIZE = 0x1000"
definition ALIGN_TEST :: u64 where [simp]: "ALIGN_TEST = 0xFFF"
definition ALIGN_MASK :: u64 where [simp]: "ALIGN_MASK = 0xFFFFFFFFFFFFF000"

text \<open>The macros \<open>FRAME\<close>, \<open>INDEX\<close>, \<open>OFFSET\<close> and \<open>ADDRESS\<close>; \<open>FRAME\<close> is stored in a 32-bit
  variable by every caller.\<close>

definition FRAME :: "u64 \<Rightarrow> u32" where
  "FRAME a = ucast (a div PAGE_SIZE)"

definition INDEX :: "u32 \<Rightarrow> u32" where
  "INDEX a = a div 64"

definition OFFSET :: "u32 \<Rightarrow> u32" where
  "OFFSET a = a mod 64"

definition ADDRESS :: "nat \<Rightarrow> nat \<Rightarrow> u64" where
  "ADDRESS i j = (of_nat i * 64 + of_nat j) * PAGE_SIZE"

text \<open>\<^verbatim>\<open>__builtin_ctzl\<close>: the number of trailing zero bits (its argument is never zero here).\<close>

definition ctzl :: "u64 \<Rightarrow> nat" where
  "ctzl w = length (takeWhile (\<lambda>j. \<not> bit w j) [0..<64])"

section \<open>Operations\<close>

definition pmm_free_frame :: "pmm \<Rightarrow> u64 \<Rightarrow> pmm" where
  "pmm_free_frame s address =
    (let frame = FRAME address;
         index = INDEX frame;
         offset = OFFSET frame;
         bt = push_bit (unat offset) 1 :: u64
     in if index \<ge> max_index s then s
        else let s = (if cur_index s > index then s\<lparr>cur_index := index\<rparr> else s)
             in if bitmap s ! unat index AND bt = 0
                then s\<lparr>bitmap := (bitmap s)[unat index := bitmap s ! unat index OR bt],
                       free_pages := free_pages s + 1\<rparr>
                else s)"

definition pmm_set_frame :: "pmm \<Rightarrow> u64 \<Rightarrow> pmm" where
  "pmm_set_frame s address =
    (let frame = FRAME address;
         index = INDEX frame;
         offset = OFFSET frame;
         bt = push_bit (unat offset) 1 :: u64
     in if index \<ge> max_index s then s
        else if bitmap s ! unat index AND bt \<noteq> 0
        then s\<lparr>bitmap := (bitmap s)[unat index := bitmap s ! unat index AND NOT bt],
               free_pages := free_pages s - 1\<rparr>
        else s)"

text \<open>The loop of \<open>pmm_alloc_frame\<close>; the 64-bit counter stays below the 32-bit \<open>max_index\<close>, so it
  is a natural number here.\<close>

function pmm_alloc_frame_loop :: "pmm \<Rightarrow> nat \<Rightarrow> u64 \<times> pmm" where
  "pmm_alloc_frame_loop s i =
    (if i < unat (max_index s)
     then if bitmap s ! i \<noteq> 0
          then let j = ctzl (bitmap s ! i);
                   address = ADDRESS i j;
                   s = pmm_set_frame s address
               in (address, s\<lparr>cur_index := of_nat i\<rparr>)
          else pmm_alloc_frame_loop s (Suc i)
     else (0, s))"
  by pat_completeness auto
termination
  by (relation "measure (\<lambda>(s, i). unat (max_index s) - i)") auto

declare pmm_alloc_frame_loop.simps [simp del]

definition pmm_alloc_frame :: "pmm \<Rightarrow> u64 \<times> pmm" where
  "pmm_alloc_frame s = pmm_alloc_frame_loop s (unat (cur_index s))"

text \<open>The loops of \<open>pmm_set_available\<close> and \<open>pmm_set_reserved\<close>.  Both bounds are page aligned, so the
  64-bit loop variable never passes the end and does not wrap; it is a natural number here.\<close>

function pmm_free_range :: "pmm \<Rightarrow> nat \<Rightarrow> nat \<Rightarrow> pmm" where
  "pmm_free_range s addr fin =
    (if addr < fin then pmm_free_range (pmm_free_frame s (of_nat addr)) (addr + 0x1000) fin else s)"
  by pat_completeness auto
termination
  by (relation "measure (\<lambda>(s, addr, fin). fin - addr)") auto

function pmm_set_range :: "pmm \<Rightarrow> nat \<Rightarrow> nat \<Rightarrow> pmm" where
  "pmm_set_range s addr fin =
    (if addr < fin then pmm_set_range (pmm_set_frame s (of_nat addr)) (addr + 0x1000) fin else s)"
  by pat_completeness auto
termination
  by (relation "measure (\<lambda>(s, addr, fin). fin - addr)") auto

declare pmm_free_range.simps [simp del]
declare pmm_set_range.simps [simp del]

definition pmm_set_available :: "pmm \<Rightarrow> u64 \<Rightarrow> u64 \<Rightarrow> pmm" where
  "pmm_set_available s start sz =
    (let fin = start + sz;
         addr = start
     in if sz < 0x100000 then s
        else let fin = fin AND ALIGN_MASK;
                 addr = (if addr AND ALIGN_TEST \<noteq> 0 then (addr AND ALIGN_MASK) + PAGE_SIZE else addr)
             in pmm_free_range s (unat addr) (unat fin))"

definition pmm_set_reserved :: "pmm \<Rightarrow> u64 \<Rightarrow> u64 \<Rightarrow> pmm" where
  "pmm_set_reserved s start sz =
    (let fin = start + sz;
         addr = start AND ALIGN_MASK;
         fin = (if fin AND ALIGN_TEST \<noteq> 0 then (fin AND ALIGN_MASK) + PAGE_SIZE else fin)
     in pmm_set_range s (unat addr) (unat fin))"

text \<open>The double loop of \<open>pmm_alloc_frames\<close> over the bits \<open>j\<close> of the words \<open>i\<close>, flattened to one
  counter \<open>p = 64 i + j\<close> that starts at bit 0 of word \<open>cur_index\<close>.  \<open>None\<close> is the division fault of
  \<^verbatim>\<open>start % align\<close> when the 32-bit product \<^verbatim>\<open>align * PAGE_SIZE\<close> has wrapped to zero.\<close>

function pmm_alloc_frames_loop ::
    "pmm \<Rightarrow> u32 \<Rightarrow> u32 \<Rightarrow> nat \<Rightarrow> u32 \<Rightarrow> u64 \<Rightarrow> (u64 \<times> pmm) option" where
  "pmm_alloc_frames_loop s num align p count start =
    (if p < 64 * unat (max_index s)
     then let i = p div 64; j = p mod 64;
              bt = push_bit j 1 :: u64;
              step = (if bitmap s ! i AND bt \<noteq> 0
                      then let start = (if count = 0 then ADDRESS i j else start)
                           in if align = 0 then None
                              else if start mod ucast align \<noteq> 0 then Some (0, start)
                              else Some (count + 1, start)
                      else Some (0, start))
          in case step of
               None \<Rightarrow> None
             | Some (count, start) \<Rightarrow>
                 if count = num
                 then Some (start, pmm_set_reserved s start (ucast (count * 0x1000 :: u32)))
                 else pmm_alloc_frames_loop s num align (Suc p) count start
     else Some (0, s))"
  by pat_completeness auto
termination
  by (relation "measure (\<lambda>(s, num, align, p, count, start). 64 * unat (max_index s) - p)") auto

declare pmm_alloc_frames_loop.simps [simp del]

definition pmm_alloc_frames :: "pmm \<Rightarrow> u32 \<Rightarrow> u32 \<Rightarrow> (u64 \<times> pmm) option" where
  "pmm_alloc_frames s num align =
    (if num = 0 then Some (0, s)
     else if align = 0 then Some (0, s)
     else pmm_alloc_frames_loop s num (align * 0x1000) (64 * unat (cur_index s)) 0 0)"

definition pmm_free_pages :: "pmm \<Rightarrow> u64" where
  "pmm_free_pages s = ucast (free_pages s)"

definition pmm_usable_pages :: "pmm \<Rightarrow> u64" where
  "pmm_usable_pages s = ucast (num_pages s)"

section \<open>The set of free pages\<close>

definition page_free :: "pmm \<Rightarrow> nat \<Rightarrow> bool" where
  "page_free s f \<longleftrightarrow> f div 64 < unat (max_index s) \<and> bit (bitmap s ! (f div 64)) (f mod 64)"

definition frame_no :: "u64 \<Rightarrow> nat" where
  "frame_no a = unat (FRAME a)"

definition pmm_wf :: "pmm \<Rightarrow> bool" where
  "pmm_wf s \<longleftrightarrow> length (bitmap s) = unat (max_index s) \<and> 64 * unat (max_index s) \<le> 2 ^ 32"

definition pmm_inv :: "pmm \<Rightarrow> bool" where
  "pmm_inv s \<longleftrightarrow> pmm_wf s \<and> (\<forall>f. page_free s f \<longrightarrow> unat (cur_index s) \<le> f div 64) \<and>
     free_pages s = of_nat (card {f. page_free s f})"

lemma unat_INDEX_FRAME: "unat (INDEX (FRAME a)) = frame_no a div 64"
  by (simp add: INDEX_def frame_no_def unat_div)

lemma unat_OFFSET_FRAME: "unat (OFFSET (FRAME a)) = frame_no a mod 64"
  by (simp add: OFFSET_def frame_no_def unat_mod)

lemma index_ge_iff: "max_index s \<le> INDEX (FRAME a) \<longleftrightarrow> unat (max_index s) \<le> frame_no a div 64"
  by (simp add: word_le_nat_alt unat_INDEX_FRAME)

lemma set_frame_fields [simp]:
  "max_index (pmm_set_frame s a) = max_index s"
  "cur_index (pmm_set_frame s a) = cur_index s"
  "num_pages (pmm_set_frame s a) = num_pages s"
  by (simp_all add: pmm_set_frame_def Let_def)

lemma free_frame_fields [simp]:
  "max_index (pmm_free_frame s a) = max_index s"
  "num_pages (pmm_free_frame s a) = num_pages s"
  by (simp_all add: pmm_free_frame_def Let_def)

lemma wf_set_frame [simp]: "pmm_wf (pmm_set_frame s a) = pmm_wf s"
  by (auto simp: pmm_wf_def pmm_set_frame_def Let_def)

lemma wf_free_frame [simp]: "pmm_wf (pmm_free_frame s a) = pmm_wf s"
  by (auto simp: pmm_wf_def pmm_free_frame_def Let_def)

lemma page_free_set_frame:
  assumes "pmm_wf s"
  shows "page_free (pmm_set_frame s a) f \<longleftrightarrow> page_free s f \<and> f \<noteq> frame_no a"
  using assms
  by (auto simp: page_free_def pmm_set_frame_def Let_def index_ge_iff unat_INDEX_FRAME
        unat_OFFSET_FRAME mod_64_bits pmm_wf_def
        nth_list_update not_le dest: div_mod_64_inject split: if_splits)

lemma page_free_free_frame:
  assumes "pmm_wf s"
  shows "page_free (pmm_free_frame s a) f \<longleftrightarrow>
    page_free s f \<or> f = frame_no a \<and> frame_no a div 64 < unat (max_index s)"
  using assms
  by (auto simp: page_free_def pmm_free_frame_def Let_def index_ge_iff unat_INDEX_FRAME
        unat_OFFSET_FRAME mod_64_bits pmm_wf_def
        nth_list_update not_le dest: div_mod_64_inject split: if_splits)

lemma free_pages_set_frame:
  "free_pages (pmm_set_frame s a) = free_pages s - (if page_free s (frame_no a) then 1 else 0)"
  by (auto simp: page_free_def pmm_set_frame_def Let_def index_ge_iff unat_INDEX_FRAME
        unat_OFFSET_FRAME mod_64_bits)

lemma free_pages_free_frame:
  "free_pages (pmm_free_frame s a) = free_pages s +
    (if frame_no a div 64 < unat (max_index s) \<and> \<not> page_free s (frame_no a) then 1 else 0)"
  by (auto simp: page_free_def pmm_free_frame_def Let_def index_ge_iff unat_INDEX_FRAME
        unat_OFFSET_FRAME mod_64_bits)

lemma cur_index_free_frame:
  "unat (cur_index (pmm_free_frame s a)) =
    (if frame_no a div 64 < unat (max_index s) then min (unat (cur_index s)) (frame_no a div 64)
     else unat (cur_index s))"
  by (auto simp: pmm_free_frame_def Let_def index_ge_iff unat_INDEX_FRAME word_less_nat_alt)

lemma finite_page_free [simp]: "finite {f. page_free s f}"
  by (rule finite_subset [of _ "{..<64 * unat (max_index s)}"]) (auto simp: page_free_def)

lemma inv_set_frame:
  assumes "pmm_inv s"
  shows "pmm_inv (pmm_set_frame s a)"
proof -
  have wf: "pmm_wf s" and fp: "free_pages s = of_nat (card {f. page_free s f})"
    using assms by (simp_all add: pmm_inv_def)
  have eq: "{f. page_free (pmm_set_frame s a) f} = {f. page_free s f} - {frame_no a}"
    by (auto simp: page_free_set_frame [OF wf])
  have "free_pages (pmm_set_frame s a) = of_nat (card ({f. page_free s f} - {frame_no a}))"
  proof (cases "page_free s (frame_no a)")
    case True
    then have "card {f. page_free s f} = Suc (card ({f. page_free s f} - {frame_no a}))"
      by (metis card_Suc_Diff1 finite_page_free mem_Collect_eq)
    with True show ?thesis by (simp add: free_pages_set_frame fp del: card_Diff_insert)
  next
    case False
    then show ?thesis by (simp add: free_pages_set_frame fp)
  qed
  with assms eq show ?thesis by (simp add: pmm_inv_def page_free_set_frame [OF wf])
qed

lemma inv_free_frame:
  assumes "pmm_inv s"
  shows "pmm_inv (pmm_free_frame s a)"
proof -
  have wf: "pmm_wf s" and fp: "free_pages s = of_nat (card {f. page_free s f})"
    using assms by (simp_all add: pmm_inv_def)
  have eq: "{f. page_free (pmm_free_frame s a) f} =
      (if frame_no a div 64 < unat (max_index s) then insert (frame_no a) {f. page_free s f}
       else {f. page_free s f})"
    by (auto simp: page_free_free_frame [OF wf])
  have "free_pages (pmm_free_frame s a) = of_nat (card {f. page_free (pmm_free_frame s a) f})"
    unfolding eq by (simp add: free_pages_free_frame fp card_insert_if)
  moreover have "\<forall>f. page_free (pmm_free_frame s a) f \<longrightarrow>
      unat (cur_index (pmm_free_frame s a)) \<le> f div 64"
    using assms by (auto simp: pmm_inv_def page_free_free_frame [OF wf] cur_index_free_frame)
  ultimately show ?thesis using wf by (simp add: pmm_inv_def)
qed

section \<open>Allocating one page\<close>

lemma ctzl_spec:
  assumes "w \<noteq> 0"
  shows "ctzl w < 64 \<and> bit w (ctzl w) \<and> (\<forall>k < ctzl w. \<not> bit w k)"
proof -
  let ?p = "\<lambda>j. \<not> bit w j"
  have "\<exists>j < 64. bit w j"
  proof (rule ccontr)
    assume "\<not> (\<exists>j < 64. bit w j)"
    then have "w = 0" by (intro bit_word_eqI) auto
    with assms show False by simp
  qed
  then have "takeWhile ?p [0..<64] \<noteq> [0..<64]" by (auto simp: takeWhile_eq_all_conv)
  then have lt: "ctzl w < 64"
    by (metis ctzl_def diff_zero length_takeWhile_le length_upt nat_less_le takeWhile_eq_take take_all_iff)
  have "bit w (ctzl w)"
    using nth_length_takeWhile [of ?p "[0..<64]"] lt by (simp add: ctzl_def)
  moreover have "\<not> bit w k" if "k < ctzl w" for k
    using takeWhile_nth [of k ?p "[0..<64]"] nth_mem [of k "takeWhile ?p [0..<64]"] that lt
    by (auto simp: ctzl_def dest: set_takeWhileD)
  ultimately show ?thesis using lt by blast
qed

lemma unat_ADDRESS:
  assumes "64 * i + j < 2 ^ 32"
  shows "unat (ADDRESS i j) = (64 * i + j) * 4096"
proof -
  have "ADDRESS i j = of_nat ((64 * i + j) * 4096)" by (simp add: ADDRESS_def)
  then show ?thesis using assms by (simp only: unat_of_nat) simp
qed

lemma frame_no_ADDRESS:
  assumes "64 * i + j < 2 ^ 32"
  shows "frame_no (ADDRESS i j) = 64 * i + j"
proof -
  have "unat (ADDRESS i j div PAGE_SIZE) = 64 * i + j"
    using unat_ADDRESS [OF assms] by (simp add: unat_div)
  then show ?thesis
    using assms by (simp add: frame_no_def FRAME_def unsigned_ucast_eq take_bit_nat_eq_self)
qed

lemma alloc_frame_loop_cases:
  "(\<forall>k. i \<le> k \<and> k < unat (max_index s) \<longrightarrow> bitmap s ! k = 0) \<and> pmm_alloc_frame_loop s i = (0, s) \<or>
   (\<exists>k. i \<le> k \<and> k < unat (max_index s) \<and> bitmap s ! k \<noteq> 0 \<and>
     (\<forall>k'. i \<le> k' \<and> k' < k \<longrightarrow> bitmap s ! k' = 0) \<and>
     pmm_alloc_frame_loop s i =
       (ADDRESS k (ctzl (bitmap s ! k)),
        (pmm_set_frame s (ADDRESS k (ctzl (bitmap s ! k))))\<lparr>cur_index := of_nat k\<rparr>))"
proof (induction s i rule: pmm_alloc_frame_loop.induct)
  case (1 s i)
  show ?case
  proof (cases "i < unat (max_index s) \<and> bitmap s ! i = 0")
    case True
    then have eq: "pmm_alloc_frame_loop s i = pmm_alloc_frame_loop s (Suc i)"
      by (simp add: pmm_alloc_frame_loop.simps [of s i])
    have le: "i \<le> k \<longleftrightarrow> k = i \<or> Suc i \<le> k" for k by auto
    show ?thesis unfolding eq using "1.IH" True by (auto simp: le)
  next
    case False
    then show ?thesis
      by (auto simp: pmm_alloc_frame_loop.simps [of s i] Let_def intro!: exI [of _ i])
  qed
qed

lemma page_free_iff_word:
  "page_free s (64 * k + j) \<longleftrightarrow> k < unat (max_index s) \<and> bit (bitmap s ! k) j" if "j < 64"
  using that by (simp add: page_free_def)

lemma cur_index_update [simp]:
  "page_free (s\<lparr>cur_index := c\<rparr>) f = page_free s f"
  "pmm_wf (s\<lparr>cur_index := c\<rparr>) = pmm_wf s"
  by (simp_all add: page_free_def pmm_wf_def)

lemma pmm_alloc_frame_lowest:
  assumes inv: "pmm_inv s" and ret: "pmm_alloc_frame s = (a, s')"
  shows "(\<forall>f. \<not> page_free s f) \<and> a = 0 \<and> s' = s \<or>
    (\<exists>f. page_free s f \<and> (\<forall>g. page_free s g \<longrightarrow> f \<le> g) \<and> unat a = f * 4096 \<and>
       (\<forall>g. page_free s' g \<longleftrightarrow> page_free s g \<and> g \<noteq> f) \<and> pmm_inv s')"
proof -
  have wf: "pmm_wf s" and low: "\<And>f. page_free s f \<Longrightarrow> unat (cur_index s) \<le> f div 64"
    using inv by (auto simp: pmm_inv_def)
  from alloc_frame_loop_cases [of "unat (cur_index s)" s] show ?thesis
  proof (elim disjE exE conjE)
    assume "\<forall>k. unat (cur_index s) \<le> k \<and> k < unat (max_index s) \<longrightarrow> bitmap s ! k = 0"
      and "pmm_alloc_frame_loop s (unat (cur_index s)) = (0, s)"
    moreover from this(1) have "\<not> page_free s f" for f
      using low [of f] by (auto simp: page_free_def)
    ultimately show ?thesis using ret by (simp add: pmm_alloc_frame_def)
  next
    fix k
    let ?j = "ctzl (bitmap s ! k)"
    let ?f = "64 * k + ?j"
    assume k: "k < unat (max_index s)" and nz: "bitmap s ! k \<noteq> 0"
      and first: "\<forall>k'. unat (cur_index s) \<le> k' \<and> k' < k \<longrightarrow> bitmap s ! k' = 0"
      and eq: "pmm_alloc_frame_loop s (unat (cur_index s)) =
        (ADDRESS k ?j, (pmm_set_frame s (ADDRESS k ?j))\<lparr>cur_index := of_nat k\<rparr>)"
    note j = ctzl_spec [OF nz]
    have small: "?f < 2 ^ 32" using k j wf by (simp add: pmm_wf_def)
    have free: "page_free s ?f" using k j by (simp add: page_free_iff_word)
    have above: "k \<le> g div 64" if "page_free s g" for g
      using that first low [OF that] by (auto simp: page_free_def not_le[symmetric] dest!: spec [of _ "g div 64"])
    have least: "?f \<le> g" if g: "page_free s g" for g
    proof (cases "g div 64 = k")
      case True
      then have "?j \<le> g mod 64" using g j by (auto simp: page_free_def not_less[symmetric])
      with True show ?thesis by (metis add_left_mono mult_div_mod_eq)
    next
      case False
      with above [OF g] j show ?thesis by linarith
    qed
    have s': "s' = (pmm_set_frame s (ADDRESS k ?j))\<lparr>cur_index := of_nat k\<rparr>" and a: "a = ADDRESS k ?j"
      using ret eq by (auto simp: pmm_alloc_frame_def)
    have "page_free s' g \<longleftrightarrow> page_free s g \<and> g \<noteq> ?f" for g
      using page_free_set_frame [OF wf, of "ADDRESS k ?j" g] frame_no_ADDRESS [OF small]
      by (simp add: s')
    moreover have "pmm_inv s'"
    proof -
      have "unat (of_nat k :: u32) = k"
        using k unat_u32_less [of "max_index s"] by (simp add: unat_of_nat)
      then show ?thesis
        using inv_set_frame [OF inv, of "ADDRESS k ?j"] above page_free_set_frame [OF wf]
        by (simp add: pmm_inv_def s')
    qed
    ultimately show ?thesis
      using free least unat_ADDRESS [OF small] a by blast
  qed
qed

section \<open>Ranges of pages\<close>

lemma frame_no_of_nat: "f < 2 ^ 32 \<Longrightarrow> frame_no (of_nat (4096 * f)) = f"
proof -
  assume f: "f < 2 ^ 32"
  define a where "a = (of_nat (4096 * f) :: u64)"
  have "unat a = 4096 * f" unfolding a_def unat_of_nat using f by simp
  then have "unat (a div PAGE_SIZE) = f" by (simp add: unat_div)
  with f have "frame_no a = f"
    by (simp add: frame_no_def FRAME_def unsigned_ucast_eq take_bit_nat_eq_self)
  then show ?thesis by (simp only: a_def)
qed

lemma set_range_Suc:
  "pmm_set_range s (4096 * f) (4096 * (f + Suc n)) =
    pmm_set_range (pmm_set_frame s (of_nat (4096 * f))) (4096 * Suc f) (4096 * (Suc f + n))"
  by (subst pmm_set_range.simps) (simp add: algebra_simps)

lemma free_range_Suc:
  "pmm_free_range s (4096 * f) (4096 * (f + Suc n)) =
    pmm_free_range (pmm_free_frame s (of_nat (4096 * f))) (4096 * Suc f) (4096 * (Suc f + n))"
  by (subst pmm_free_range.simps) (simp add: algebra_simps)

lemma page_free_set_range:
  assumes "pmm_wf s" and "f + n \<le> 2 ^ 32"
  shows "page_free (pmm_set_range s (4096 * f) (4096 * (f + n))) g \<longleftrightarrow>
    page_free s g \<and> \<not> (f \<le> g \<and> g < f + n)"
  using assms
proof (induction n arbitrary: s f)
  case 0
  then show ?case by (auto simp: pmm_set_range.simps)
next
  case (Suc n)
  define a where "a = (of_nat (4096 * f) :: u64)"
  have a: "frame_no a = f" unfolding a_def using Suc.prems by (intro frame_no_of_nat) simp
  have "page_free (pmm_set_range s (4096 * f) (4096 * (f + Suc n))) g \<longleftrightarrow>
      page_free (pmm_set_frame s a) g \<and> \<not> (Suc f \<le> g \<and> g < Suc f + n)"
    unfolding set_range_Suc a_def using Suc.prems by (intro Suc.IH) simp_all
  also have "page_free (pmm_set_frame s a) g \<longleftrightarrow> page_free s g \<and> g \<noteq> f"
    using page_free_set_frame [OF Suc.prems(1)] a by simp
  finally show ?case by auto
qed

lemma page_free_free_range:
  assumes "pmm_wf s" and "f + n \<le> 2 ^ 32"
  shows "page_free (pmm_free_range s (4096 * f) (4096 * (f + n))) g \<longleftrightarrow>
    page_free s g \<or> f \<le> g \<and> g < f + n \<and> g div 64 < unat (max_index s)"
  using assms
proof (induction n arbitrary: s f)
  case 0
  then show ?case by (auto simp: pmm_free_range.simps)
next
  case (Suc n)
  define a where "a = (of_nat (4096 * f) :: u64)"
  have a: "frame_no a = f" unfolding a_def using Suc.prems by (intro frame_no_of_nat) simp
  have "page_free (pmm_free_range s (4096 * f) (4096 * (f + Suc n))) g \<longleftrightarrow>
      page_free (pmm_free_frame s a) g \<or> Suc f \<le> g \<and> g < Suc f + n \<and>
        g div 64 < unat (max_index (pmm_free_frame s a))"
    unfolding free_range_Suc a_def using Suc.prems by (intro Suc.IH) simp_all
  also have "page_free (pmm_free_frame s a) g \<longleftrightarrow>
      page_free s g \<or> g = f \<and> f div 64 < unat (max_index s)"
    using page_free_free_frame [OF Suc.prems(1)] a by simp
  finally show ?case by auto
qed

lemma inv_set_range: "pmm_inv s \<Longrightarrow> pmm_inv (pmm_set_range s a b)"
proof (induction s a b rule: pmm_set_range.induct)
  case (1 s a b)
  then show ?case by (subst pmm_set_range.simps) (simp add: inv_set_frame)
qed

lemma inv_free_range: "pmm_inv s \<Longrightarrow> pmm_inv (pmm_free_range s a b)"
proof (induction s a b rule: pmm_free_range.induct)
  case (1 s a b)
  then show ?case by (subst pmm_free_range.simps) (simp add: inv_free_frame)
qed

text \<open>The pages touched by a byte range: outward rounding for a reservation, inward rounding for
  memory that becomes available.\<close>

lemma pmm_set_reserved_range:
  assumes "unat start + unat sz + 4096 < 2 ^ 64"
  defines "f \<equiv> unat start div 4096" and "e \<equiv> (unat start + unat sz + 4095) div 4096"
  shows "pmm_set_reserved s start sz = pmm_set_range s (4096 * f) (4096 * (f + (e - f)))"
proof -
  have sum: "unat (start + sz) = unat start + unat sz"
    using assms(1) by (simp add: unat_word_ariths)
  let ?e = "start + sz"
  have "unat (if ?e AND ALIGN_TEST \<noteq> 0 then (?e AND ALIGN_MASK) + PAGE_SIZE else ?e) = 4096 * e"
  proof (cases "?e AND ALIGN_TEST = 0")
    case True
    then have "(unat start + unat sz) mod 4096 = 0"
      using unat_and_page_offset [of ?e] sum by simp
    then show ?thesis using True sum by (auto simp: e_def)
  next
    case False
    then have nz: "(unat start + unat sz) mod 4096 \<noteq> 0"
      using unat_and_page_offset [of ?e] sum by (metis ALIGN_TEST_def unat_eq_0)
    have "unat ((?e AND ALIGN_MASK) + PAGE_SIZE) = 4096 * ((unat start + unat sz) div 4096) + 4096"
      using assms(1) unat_and_page_mask [of ?e] sum
      by (simp add: unat_word_ariths)
    also have "\<dots> = 4096 * e" using nz unfolding e_def page_round_up by simp
    finally show ?thesis using False by simp
  qed
  moreover have "f \<le> e" unfolding f_def e_def by (rule div_le_mono) simp
  ultimately show ?thesis
    unfolding pmm_set_reserved_def Let_def
    by (simp add: unat_and_page_mask f_def)
qed

lemma pmm_set_available_range:
  assumes "unat start + unat sz + 4096 < 2 ^ 64" and "0x100000 \<le> sz"
  defines "f \<equiv> (unat start + 4095) div 4096" and "e \<equiv> (unat start + unat sz) div 4096"
  shows "pmm_set_available s start sz = pmm_free_range s (4096 * f) (4096 * (f + (e - f)))"
proof -
  have sum: "unat (start + sz) = unat start + unat sz"
    using assms(1) by (simp add: unat_word_ariths)
  have "unat (if start AND ALIGN_TEST \<noteq> 0 then (start AND ALIGN_MASK) + PAGE_SIZE else start) = 4096 * f"
  proof (cases "start AND ALIGN_TEST = 0")
    case True
    then have "unat start mod 4096 = 0" using unat_and_page_offset [of start] by simp
    then show ?thesis using True by (auto simp: f_def)
  next
    case False
    then have nz: "unat start mod 4096 \<noteq> 0"
      using unat_and_page_offset [of start] by (metis ALIGN_TEST_def unat_eq_0)
    have "unat ((start AND ALIGN_MASK) + PAGE_SIZE) = 4096 * (unat start div 4096) + 4096"
      using assms(1) unat_and_page_mask [of start] by (simp add: unat_word_ariths)
    also have "\<dots> = 4096 * f" using nz unfolding f_def page_round_up by simp
    finally show ?thesis using False by simp
  qed
  moreover have "unat sz \<ge> 0x100000" using assms(2) by (simp add: word_le_nat_alt)
  then have "f \<le> e" unfolding f_def e_def by (intro div_le_mono) simp
  ultimately show ?thesis
    using assms(2) unat_and_page_mask [of "start + sz"] sum
    unfolding pmm_set_available_def Let_def by (simp add: e_def not_less)
qed

section \<open>Allocating consecutive pages\<close>

text \<open>A run that \<open>pmm_alloc_frames\<close> may return: it starts at or after page \<open>lo\<close> on a multiple of
  \<open>align\<close>, and all its \<open>num\<close> pages are free.\<close>

definition free_run :: "pmm \<Rightarrow> nat \<Rightarrow> u32 \<Rightarrow> u32 \<Rightarrow> nat \<Rightarrow> bool" where
  "free_run s lo num align q \<longleftrightarrow>
    lo \<le> q \<and> q mod unat align = 0 \<and> (\<forall>g. q \<le> g \<and> g < q + unat num \<longrightarrow> page_free s g)"

lemma ADDRESS_split: "ADDRESS (p div 64) (p mod 64) = of_nat (4096 * p)"
proof -
  have "ADDRESS i j = of_nat (4096 * (64 * i + j))" for i j
    by (simp add: ADDRESS_def algebra_simps)
  from this [of "p div 64" "p mod 64"] show ?thesis by (simp only: mult_div_mod_eq)
qed

lemma start_mod_align:
  assumes "p < 2 ^ 32" and "unat align < 2 ^ 20"
  shows "(of_nat (4096 * p) :: u64) mod ucast (align * 0x1000 :: u32) = 0 \<longleftrightarrow> p mod unat align = 0"
proof -
  have "unat (align * 0x1000 :: u32) = 4096 * unat align"
    using assms(2) by (simp add: unat_word_ariths)
  then have a: "unat (ucast (align * 0x1000 :: u32) :: u64) = 4096 * unat align"
    using assms(2) by (simp add: unsigned_ucast_eq take_bit_nat_eq_self)
  have p: "unat (of_nat (4096 * p) :: u64) = 4096 * p" unfolding unat_of_nat using assms(1) by simp
  have "unat ((of_nat (4096 * p) :: u64) mod ucast (align * 0x1000 :: u32)) = 4096 * (p mod unat align)"
    by (simp only: unat_mod a p mult_mod_right)
  then show ?thesis by (metis mult_eq_0_iff unat_eq_zero zero_neq_numeral)
qed

lemma page_free_bit:
  assumes "p < 64 * unat (max_index s)"
  shows "bitmap s ! (p div 64) AND push_bit (p mod 64) 1 \<noteq> 0 \<longleftrightarrow> page_free s p"
  using assms by (simp add: page_free_def mod_64_bits less_mult_imp_div_less mult.commute)

lemma alloc_frames_loop_spec:
  assumes "pmm_wf s" and "0 < unat num" and "0 < unat align" and "unat align < 2 ^ 20"
    and "lo \<le> p - unat count" and "unat count \<le> p" and "unat count < unat num"
    and "count \<noteq> 0 \<Longrightarrow> start = of_nat (4096 * (p - unat count)) \<and> (p - unat count) mod unat align = 0 \<and>
      (\<forall>g. p - unat count \<le> g \<and> g < p \<longrightarrow> page_free s g)"
    and "\<forall>q. free_run s lo num align q \<longrightarrow> p - unat count \<le> q"
  shows "(\<forall>q. \<not> free_run s lo num align q) \<and>
      pmm_alloc_frames_loop s num (align * 0x1000) p count start = Some (0, s) \<or>
    (\<exists>q. free_run s lo num align q \<and> (\<forall>q'. free_run s lo num align q' \<longrightarrow> q \<le> q') \<and>
      pmm_alloc_frames_loop s num (align * 0x1000) p count start =
        Some (of_nat (4096 * q), pmm_set_reserved s (of_nat (4096 * q)) (ucast (num * 0x1000 :: u32))))"
  using assms(5-9)
proof (induction "64 * unat (max_index s) - p" arbitrary: p count start rule: less_induct)
  case less
  let ?al = "align * 0x1000 :: u32"
  let ?f = "p - unat count"
  have al: "?al \<noteq> 0"
  proof -
    have "unat ?al = unat align * 4096" using assms(4) by (simp add: unat_word_ariths)
    then show ?thesis using assms(3) by (metis mult_is_0 neq0_conv unat_0 zero_neq_numeral)
  qed
  show ?case
  proof (cases "p < 64 * unat (max_index s)")
    case False
    have "\<not> free_run s lo num align q" for q
    proof
      assume run: "free_run s lo num align q"
      then have "?f \<le> q" using less.prems(5) by blast
      then have "p \<le> q + unat num - 1" using less.prems(2,3) by linarith
      moreover have "page_free s (q + unat num - 1)"
        using run assms(2) by (auto simp: free_run_def)
      ultimately show False using False by (auto simp: page_free_def)
    qed
    then show ?thesis using False by (simp add: pmm_alloc_frames_loop.simps [of s])
  next
    case True
    have p32: "p < 2 ^ 32" using True assms(1) by (simp add: pmm_wf_def)
    let ?st = "if count = 0 then ADDRESS (p div 64) (p mod 64) else start"
    have st: "?st = of_nat (4096 * ?f)" using less.prems(4) by (auto simp: ADDRESS_split)
    have f32: "?f < 2 ^ 32" using p32 by simp
    have mod: "?st mod ucast ?al = 0 \<longleftrightarrow> ?f mod unat align = 0"
      unfolding st by (rule start_mod_align [OF f32 assms(4)])
    have step: "pmm_alloc_frames_loop s num ?al p count start =
      (if page_free s p \<and> ?f mod unat align = 0
       then if count + 1 = num
            then Some (?st, pmm_set_reserved s ?st (ucast ((count + 1) * 0x1000 :: u32)))
            else pmm_alloc_frames_loop s num ?al (Suc p) (count + 1) ?st
       else pmm_alloc_frames_loop s num ?al (Suc p) 0 (if page_free s p then ?st else start))"
      using assms(2) True al mod page_free_bit [OF True]
      by (subst pmm_alloc_frames_loop.simps) (auto simp: Let_def)
    have c1: "unat (count + 1) = unat count + 1"
      using less.prems(3) unat_u32_less [of num] by (simp add: unat_word_ariths)
    have smaller: "64 * unat (max_index s) - Suc p < 64 * unat (max_index s) - p" using True by simp
    show ?thesis
    proof (cases "page_free s p \<and> ?f mod unat align = 0")
      case good: True
      have run: "page_free s g" if "?f \<le> g" "g < Suc p" for g
        using that good less.prems(4) by (cases "count = 0"; cases "g = p") auto
      show ?thesis
      proof (cases "count + 1 = num")
        case True
        then have "?f + unat num = Suc p" using c1 less.prems(2) by auto
        then have "free_run s lo num align ?f"
          using run good less.prems(1) by (simp add: free_run_def)
        then show ?thesis using step good True less.prems(5) unfolding st by auto
      next
        case False
        have eq: "Suc p - unat (count + 1) = ?f" using c1 by simp
        have "unat (count + 1) < unat num"
          using False less.prems(3) c1 word_unat_eq_iff [of "count + 1" num] by simp
        then show ?thesis
          unfolding step using good False run less.prems st c1 eq
          by (simp only: if_True if_False simp_thms)
            (rule less.hyps [OF smaller], simp_all add: eq)
      qed
    next
      case bad: False
      have "Suc p \<le> q" if "free_run s lo num align q" for q
      proof (rule ccontr)
        assume "\<not> Suc p \<le> q"
        moreover have "?f \<le> q" using that less.prems(5) by blast
        ultimately have "page_free s p"
          using that less.prems(2,3) by (auto simp: free_run_def)
        with bad less.prems(4) have "count = 0" by blast
        with bad \<open>page_free s p\<close> have "p mod unat align \<noteq> 0" by simp
        note \<open>count = 0\<close> this
        moreover have "q = p" using calculation \<open>?f \<le> q\<close> \<open>\<not> Suc p \<le> q\<close> by simp
        ultimately show False using that by (simp add: free_run_def)
      qed
      then show ?thesis
        unfolding step using bad less.prems assms(2)
        by (simp only: if_False) (rule less.hyps [OF smaller], auto)
    qed
  qed
qed

lemma inv_set_reserved: "pmm_inv s \<Longrightarrow> pmm_inv (pmm_set_reserved s a n)"
  by (simp add: pmm_set_reserved_def Let_def inv_set_range)

lemma inv_set_available: "pmm_inv s \<Longrightarrow> pmm_inv (pmm_set_available s a n)"
  by (simp add: pmm_set_available_def Let_def inv_free_range)

lemma inv_alloc_frame: "pmm_inv s \<Longrightarrow> pmm_inv (snd (pmm_alloc_frame s))"
  using pmm_alloc_frame_lowest [of s] by (cases "pmm_alloc_frame s") auto

lemma inv_alloc_frames_loop:
  "pmm_inv s \<Longrightarrow> pmm_alloc_frames_loop s num al p count start = Some (a, s') \<Longrightarrow> pmm_inv s'"
proof (induction "64 * unat (max_index s) - p" arbitrary: p count start rule: less_induct)
  case less
  show ?case
  proof (cases "p < 64 * unat (max_index s)")
    case True
    then have "64 * unat (max_index s) - Suc p < 64 * unat (max_index s) - p" by simp
    with less True show ?thesis
      by (subst (asm) (2) pmm_alloc_frames_loop.simps)
        (auto simp: Let_def inv_set_reserved split: if_splits option.splits)
  next
    case False
    with less.prems show ?thesis by (simp add: pmm_alloc_frames_loop.simps)
  qed
qed

lemma inv_alloc_frames:
  "pmm_inv s \<Longrightarrow> pmm_alloc_frames s num align = Some (a, s') \<Longrightarrow> pmm_inv s'"
  by (auto simp: pmm_alloc_frames_def dest: inv_alloc_frames_loop split: if_splits)

lemma alloc_frames_cases:
  assumes inv: "pmm_inv s" and "0 < num" and "0 < align" and "align < 0x100000"
  shows "(\<forall>q. \<not> free_run s 0 num align q) \<and> pmm_alloc_frames s num align = Some (0, s) \<or>
    (\<exists>q. free_run s 0 num align q \<and> (\<forall>q'. free_run s 0 num align q' \<longrightarrow> q \<le> q') \<and>
      pmm_alloc_frames s num align =
        Some (of_nat (4096 * q), pmm_set_reserved s (of_nat (4096 * q)) (ucast (num * 0x1000 :: u32))))"
proof -
  let ?lo = "64 * unat (cur_index s)"
  have pos: "0 < unat num" "0 < unat align" "unat align < 2 ^ 20"
    using assms by (auto simp: word_less_nat_alt)
  have run: "free_run s 0 num align q \<longleftrightarrow> free_run s ?lo num align q" for q
  proof -
    have "?lo \<le> q" if "free_run s 0 num align q"
    proof -
      have "page_free s q" using that pos by (auto simp: free_run_def)
      then have "unat (cur_index s) \<le> q div 64" using inv by (simp add: pmm_inv_def)
      then have "64 * unat (cur_index s) \<le> 64 * (q div 64)" by simp
      also have "\<dots> \<le> q" by simp
      finally show ?thesis .
    qed
    then show ?thesis by (auto simp: free_run_def)
  qed
  have "pmm_alloc_frames s num align = pmm_alloc_frames_loop s num (align * 0x1000) ?lo 0 0"
    using assms by (auto simp: pmm_alloc_frames_def)
  then show ?thesis
    using alloc_frames_loop_spec [of s num align ?lo ?lo 0 0] inv pos
    unfolding run by (simp add: pmm_inv_def free_run_def)
qed

lemma set_reserved_pages:
  assumes "pmm_wf s" and "q + n \<le> 2 ^ 32" and "n < 0x100000" and "unat num = n"
  shows "page_free (pmm_set_reserved s (of_nat (4096 * q)) (ucast (num * 0x1000 :: u32))) g \<longleftrightarrow>
    page_free s g \<and> \<not> (q \<le> g \<and> g < q + n)"
proof -
  have q: "unat (of_nat (4096 * q) :: u64) = 4096 * q" unfolding unat_of_nat using assms(2) by simp
  have "unat (num * 0x1000 :: u32) = 4096 * n"
    using assms(3,4) by (simp add: unat_word_ariths)
  then have n: "unat (ucast (num * 0x1000 :: u32) :: u64) = 4096 * n"
    using assms(3) by (simp add: unsigned_ucast_eq take_bit_nat_eq_self)
  have "(4096 * q + 4096 * n + 4095) div 4096 = q + n" by simp
  then have "pmm_set_reserved s (of_nat (4096 * q)) (ucast (num * 0x1000 :: u32)) =
      pmm_set_range s (4096 * q) (4096 * (q + n))"
    using pmm_set_reserved_range [of "of_nat (4096 * q)" "ucast (num * 0x1000 :: u32)" s, unfolded q n]
      assms(2) by simp
  then show ?thesis using page_free_set_range [OF assms(1,2)] by simp
qed

section \<open>The initial state\<close>

text \<open>The state \<open>pmm_init\<close> sets up before any memory is reported: \<open>max_index\<close> words, all zero.\<close>

definition pmm_reset :: "u32 \<Rightarrow> pmm" where
  "pmm_reset n = \<lparr>bitmap = replicate (unat n) 0, max_index = n, cur_index = 0, free_pages = 0,
    num_pages = 0\<rparr>"

lemma page_free_reset [simp]: "\<not> page_free (pmm_reset n) f"
  by (simp add: page_free_def pmm_reset_def)

lemma max_index_reset [simp]: "max_index (pmm_reset n) = n"
  by (simp add: pmm_reset_def)

lemma wf_reset: "64 * unat n \<le> 2 ^ 32 \<Longrightarrow> pmm_wf (pmm_reset n)"
  by (simp add: pmm_wf_def pmm_reset_def)

lemma inv_reset: "64 * unat n \<le> 2 ^ 32 \<Longrightarrow> pmm_inv (pmm_reset n)"
  by (simp add: pmm_inv_def wf_reset) (simp add: pmm_reset_def)

lemma one_page:
  "pmm_inv (pmm_free_frame (pmm_reset 2) 0x5000)"
  "page_free (pmm_free_frame (pmm_reset 2) 0x5000) f \<longleftrightarrow> f = 5"
proof -
  have "pmm_inv (pmm_reset 2)" by (rule inv_reset) simp
  then show "pmm_inv (pmm_free_frame (pmm_reset 2) 0x5000)" by (rule inv_free_frame)
  have "pmm_wf (pmm_reset 2)" by (rule wf_reset) simp
  then show "page_free (pmm_free_frame (pmm_reset 2) 0x5000) f \<longleftrightarrow> f = 5"
    by (simp add: page_free_free_frame) (simp add: frame_no_def FRAME_def pmm_reset_def)
qed

section \<open>The interface of a page allocator\<close>

text \<open>Taking \<open>n\<close> pages in a row, as the paging code and the heap do.\<close>

fun take_pages :: "('s \<Rightarrow> u64 \<times> 's) \<Rightarrow> nat \<Rightarrow> 's \<Rightarrow> u64 list \<times> 's" where
  "take_pages alloc 0 s = ([], s)"
| "take_pages alloc (Suc n) s =
    (case alloc s of (a, s') \<Rightarrow> case take_pages alloc n s' of (as, s'') \<Rightarrow> (a # as, s''))"

locale page_source =
  fixes invar :: "'s \<Rightarrow> bool" and pages :: "'s \<Rightarrow> nat set"
    and alloc :: "'s \<Rightarrow> u64 \<times> 's" and release :: "'s \<Rightarrow> u64 \<Rightarrow> 's"
  assumes pages_finite: "invar s \<Longrightarrow> finite (pages s)"
    and pages_bound: "invar s \<Longrightarrow> f \<in> pages s \<Longrightarrow> f < 2 ^ 32"
    and alloc_none: "invar s \<Longrightarrow> pages s = {} \<Longrightarrow> alloc s = (0, s)"
    and alloc_some: "invar s \<Longrightarrow> pages s \<noteq> {} \<Longrightarrow> alloc s = (a, s') \<Longrightarrow>
      \<exists>f \<in> pages s. unat a = 4096 * f \<and> pages s' = pages s - {f} \<and> invar s'"
    and release_taken: "invar s \<Longrightarrow> f \<in> pages s \<Longrightarrow> alloc s = (a, s') \<Longrightarrow> unat a = 4096 * f \<Longrightarrow>
      pages (release s' a) = pages s \<and> invar (release s' a)"
begin

lemma take_pages_distinct:
  "invar s \<Longrightarrow> n \<le> card (pages s) \<Longrightarrow> take_pages alloc n s = (as, s') \<Longrightarrow>
    distinct as \<and> length as = n \<and> invar s' \<and>
    (\<exists>fs. as = map (\<lambda>f. of_nat (4096 * f)) fs \<and> set fs \<subseteq> pages s \<and> pages s' = pages s - set fs)"
proof (induction n arbitrary: s as)
  case 0
  then show ?case by simp
next
  case (Suc n)
  obtain a s1 where a: "alloc s = (a, s1)" by fastforce
  obtain bs where bs: "take_pages alloc n s1 = (bs, s')" and as: "as = a # bs"
    using Suc.prems(3) a by (auto split: prod.splits)
  from Suc.prems have "pages s \<noteq> {}" by auto
  from alloc_some [OF Suc.prems(1) this a] obtain f where
    f: "f \<in> pages s" "unat a = 4096 * f" "pages s1 = pages s - {f}" and inv1: "invar s1" by blast
  have "n \<le> card (pages s1)" using Suc.prems(1,2) f pages_finite by simp
  from Suc.IH [OF inv1 this bs] obtain fs where
    fs: "distinct bs" "length bs = n" "invar s'" "bs = map (\<lambda>f. of_nat (4096 * f)) fs"
      "set fs \<subseteq> pages s1" "pages s' = pages s1 - set fs" by blast
  have "a = of_nat (4096 * f)" using f(2) by (metis of_nat_unat ucast_id)
  moreover have "a \<notin> set bs"
  proof
    assume "a \<in> set bs"
    then obtain g where g: "g \<in> set fs" "a = of_nat (4096 * g)" using fs(4) by auto
    then have "g < 2 ^ 32" using fs(5) pages_bound [OF inv1] by blast
    then have "unat a = 4096 * g" unfolding g(2) unat_of_nat by simp
    with f(2,3) fs(5) g(1) show False by auto
  qed
  ultimately show ?case
    using fs f as by (intro conjI exI [of _ "f # fs"]) auto
qed

end

interpretation pm: page_source pmm_inv "\<lambda>s. {f. page_free s f}" pmm_alloc_frame pmm_free_frame
proof (unfold_locales, goal_cases)
  case (1 s) show ?case by simp
next
  case (2 s f)
  then have "f div 64 < unat (max_index s)" and "64 * unat (max_index s) \<le> 2 ^ 32"
    by (auto simp: page_free_def pmm_inv_def pmm_wf_def)
  then have "64 * (f div 64) + 64 \<le> 2 ^ 32" by linarith
  moreover have "f < 64 * (f div 64) + 64"
    by (metis add.commute add_less_cancel_right div_mod_decomp mod_less_divisor mult.commute zero_less_numeral)
  ultimately show ?case by linarith
next
  case (3 s) then show ?case using pmm_alloc_frame_lowest [of s] by (cases "pmm_alloc_frame s") auto
next
  case (4 s a s') then show ?case using pmm_alloc_frame_lowest [of s a s'] by (auto simp: mult.commute)
next
  case (5 s f a s')
  then have wf: "pmm_wf s'" and inv: "pmm_inv s'"
    using inv_alloc_frame [of s] by (auto simp: pmm_inv_def)
  from pmm_alloc_frame_lowest [OF 5(1,3)] 5(2,4) have pf: "\<And>g. page_free s' g \<longleftrightarrow> page_free s g \<and> g \<noteq> f"
    by auto
  have mx: "max_index s' = max_index s"
    using alloc_frame_loop_cases [of "unat (cur_index s)" s] 5(3) by (auto simp: pmm_alloc_frame_def)
  have "f < 2 ^ 32"
    using 5(1,2) by (auto simp: page_free_def pmm_inv_def pmm_wf_def)
  moreover have "a = of_nat (4096 * f)" using 5(4) by (metis of_nat_unat ucast_id)
  ultimately have "frame_no a = f" using frame_no_of_nat by blast
  with pf mx 5(2) show ?case
    using page_free_free_frame [OF wf, of a] inv_free_frame [OF inv] by (auto simp: page_free_def)
qed

section \<open>Properties\<close>

text \<open>C21. Invariant: every operation of the page allocator keeps the bitmap well formed, the search
  hint at or below the first word with a free page, and the counter equal to the number of free
  pages.\<close>

theorem pmm_ops_keep_inv:
  assumes "pmm_inv s"
  shows "pmm_inv (pmm_free_frame s a) \<and> pmm_inv (pmm_set_frame s a) \<and>
    pmm_inv (pmm_set_available s a n) \<and> pmm_inv (pmm_set_reserved s a n) \<and>
    pmm_inv (snd (pmm_alloc_frame s)) \<and>
    (case pmm_alloc_frames s num align of None \<Rightarrow> True | Some (r, s') \<Rightarrow> pmm_inv s')"
  using assms by (auto simp: inv_free_frame inv_set_frame inv_set_available inv_set_reserved
      inv_alloc_frame split: option.splits dest: inv_alloc_frames)

theorem pmm_ops_keep_inv_witness:
  "pmm_inv (pmm_reset 2) \<and> pmm_inv (pmm_free_frame (pmm_reset 2) 0x5000)"
  using pmm_ops_keep_inv [of "pmm_reset 2"] inv_reset [of 2] by simp

text \<open>C22. A single page: \<open>pmm_alloc_frame\<close> returns the address of the lowest free page and removes
  exactly that page from the free set; it returns 0 and changes nothing when no page is free.\<close>

theorem pmm_alloc_frame_correct:
  assumes "pmm_inv s"
  shows "case pmm_alloc_frame s of (a, s') \<Rightarrow>
    if \<exists>f. page_free s f
    then \<exists>f. page_free s f \<and> (\<forall>g. page_free s g \<longrightarrow> f \<le> g) \<and> unat a = f * 4096 \<and>
           (\<forall>g. page_free s' g \<longleftrightarrow> page_free s g \<and> g \<noteq> f)
    else a = 0 \<and> s' = s"
  using pmm_alloc_frame_lowest [OF assms] by (auto split: prod.splits)

theorem pmm_alloc_frame_correct_witness:
  "pmm_inv (pmm_free_frame (pmm_reset 2) 0x5000) \<and>
   (case pmm_alloc_frame (pmm_free_frame (pmm_reset 2) 0x5000) of (a, s') \<Rightarrow>
      a = 0x5000 \<and> (\<forall>g. \<not> page_free s' g))"
proof -
  have "unat a = 5 * 4096 \<Longrightarrow> a = 0x5000" for a :: u64
    by (rule word_unat_eq_iff [THEN iffD2]) simp
  then show ?thesis
    using pmm_alloc_frame_correct [OF one_page(1)] one_page(1) by (auto simp: one_page(2) split: prod.splits)
qed

text \<open>C12. Several pages: \<open>pmm_alloc_frames\<close> never faults for alignments below \<open>2 ^ 20\<close> pages, finds the
  lowest suitably aligned run of free pages whenever one exists, and, for fewer than \<open>2 ^ 20\<close> pages,
  removes exactly that run from the free set.\<close>

theorem pmm_alloc_frames_first_fit:
  assumes "pmm_inv s" and "0 < num" and "num < 0x100000" and "0 < align" and "align < 0x100000"
  shows "\<exists>a s'. pmm_alloc_frames s num align = Some (a, s') \<and>
    (if \<exists>q. free_run s 0 num align q
     then \<exists>q. free_run s 0 num align q \<and> (\<forall>q'. free_run s 0 num align q' \<longrightarrow> q \<le> q') \<and>
            a = of_nat (4096 * q) \<and>
            (\<forall>g. page_free s' g \<longleftrightarrow> page_free s g \<and> \<not> (q \<le> g \<and> g < q + unat num))
     else a = 0 \<and> s' = s)"
proof -
  have wf: "pmm_wf s" using assms(1) by (simp add: pmm_inv_def)
  have n: "unat num < 0x100000" "0 < unat num"
    using assms(2,3) by (simp_all add: word_less_nat_alt)
  have end_page: "q + unat num \<le> 2 ^ 32" if "free_run s 0 num align q" for q
  proof -
    have "page_free s (q + unat num - 1)" using that n by (auto simp: free_run_def)
    then have "q + unat num - 1 < 2 ^ 32" using pm.pages_bound [OF assms(1)] by blast
    then show ?thesis by linarith
  qed
  from alloc_frames_cases [OF assms(1,2,4,5)] show ?thesis
    using set_reserved_pages [OF wf end_page n(1) refl] by fastforce
qed

theorem pmm_alloc_frames_first_fit_witness:
  "pmm_inv (pmm_free_frame (pmm_reset 2) 0x5000) \<and>
   (\<exists>a s'. pmm_alloc_frames (pmm_free_frame (pmm_reset 2) 0x5000) 1 5 = Some (a, s') \<and> a = 0x5000)"
proof -
  have run: "free_run (pmm_free_frame (pmm_reset 2) 0x5000) 0 1 5 q \<longleftrightarrow> q = 5" for q
    by (auto simp: free_run_def one_page(2))
  show ?thesis
    using one_page(1) pmm_alloc_frames_first_fit [OF one_page(1), of 1 5] by (auto simp: run)
qed

text \<open>C25. Distinct pages: as long as enough pages are free, any number of successive calls of
  \<open>pmm_alloc_frame\<close> return pairwise distinct page addresses that were all free before, and exactly
  those pages leave the free set.\<close>

theorem pmm_alloc_frame_distinct:
  assumes "pmm_inv s" and "n \<le> card {f. page_free s f}"
  shows "case take_pages pmm_alloc_frame n s of (as, s') \<Rightarrow> distinct as \<and> length as = n \<and>
    (\<exists>fs. as = map (\<lambda>f. of_nat (4096 * f)) fs \<and> (\<forall>f \<in> set fs. page_free s f) \<and>
       (\<forall>g. page_free s' g \<longleftrightarrow> page_free s g \<and> g \<notin> set fs))"
proof (cases "take_pages pmm_alloc_frame n s")
  case (Pair as s')
  from pm.take_pages_distinct [OF assms this] show ?thesis
    unfolding Pair by (auto simp: set_eq_iff)
qed

theorem pmm_alloc_frame_distinct_witness:
  "1 \<le> card {f. page_free (pmm_free_frame (pmm_reset 2) 0x5000) f} \<and>
   (case take_pages pmm_alloc_frame 1 (pmm_free_frame (pmm_reset 2) 0x5000) of (as, s') \<Rightarrow> length as = 1)"
proof -
  have c: "1 \<le> card {f. page_free (pmm_free_frame (pmm_reset 2) 0x5000) f}"
    by (simp add: one_page(2))
  show ?thesis using c pmm_alloc_frame_distinct [OF one_page(1) c] by (auto split: prod.splits)
qed

text \<open>C26. The size limit of \<open>pmm_alloc_frames\<close>: for a request of exactly \<open>2 ^ 20\<close> pages the 32-bit
  product \<^verbatim>\<open>count * PAGE_SIZE\<close> wraps to zero, so the address of the lowest free run of that many pages is
  returned but no page of it is marked as used, and the next request gets the same pages.\<close>

theorem pmm_alloc_frames_wraps:
  assumes "pmm_inv s" and "free_run s 0 0x100000 1 q"
    and "\<forall>q'. free_run s 0 0x100000 1 q' \<longrightarrow> q \<le> q'"
  shows "pmm_alloc_frames s 0x100000 1 = Some (of_nat (4096 * q), s) \<and>
    (\<forall>g. q \<le> g \<and> g < q + 0x100000 \<longrightarrow> page_free s g)"
proof -
  have z: "pmm_set_reserved s (of_nat (4096 * q)) (ucast (0x100000 * 0x1000 :: u32)) = s"
    if "q < 2 ^ 32" for q
  proof -
    have u: "unat (of_nat (4096 * q) :: u64) = 4096 * q" unfolding unat_of_nat using that by simp
    then have "pmm_set_reserved s (of_nat (4096 * q)) 0 = pmm_set_range s (4096 * q) (4096 * (q + 0))"
      using pmm_set_reserved_range [of "of_nat (4096 * q)" 0 s] that by (simp add: u del: of_nat_mult)
    then show ?thesis by (simp add: pmm_set_range.simps)
  qed
  have q32: "q < 2 ^ 32" if "free_run s 0 0x100000 1 q" for q
  proof -
    have "page_free s q" using that by (simp add: free_run_def)
    then show ?thesis using pm.pages_bound [OF assms(1)] by simp
  qed
  have "\<forall>g. q \<le> g \<and> g < q + 0x100000 \<longrightarrow> page_free s g" using assms(2) by (simp add: free_run_def)
  moreover from alloc_frames_cases [OF assms(1), of "0x100000" 1]
  obtain p where "free_run s 0 0x100000 1 p" "\<forall>q'. free_run s 0 0x100000 1 q' \<longrightarrow> p \<le> q'"
    "pmm_alloc_frames s 0x100000 1 = Some (of_nat (4096 * p), s)"
    using assms(2) z q32 by auto
  moreover from calculation(2,3) have "p = q" using assms(2,3) by (simp add: order.antisym)
  ultimately show ?thesis by simp
qed

theorem pmm_alloc_frames_wraps_witness:
  "pmm_alloc_frames (pmm_set_available (pmm_reset 0x8000) 0x100000 0x100000000) 0x100000 1 =
     Some (0x100000, pmm_set_available (pmm_reset 0x8000) 0x100000 0x100000000)"
proof -
  let ?s = "pmm_set_available (pmm_reset 0x8000) 0x100000 0x100000000"
  have i: "pmm_inv ?s" by (rule inv_set_available, rule inv_reset) simp
  have wf: "pmm_wf (pmm_reset 0x8000)" by (rule wf_reset) simp
  have "?s = pmm_free_range (pmm_reset 0x8000) (4096 * 256) (4096 * (256 + 0x100000))"
    by (subst pmm_set_available_range) simp_all
  then have free: "page_free ?s g \<longleftrightarrow> 256 \<le> g \<and> g < 256 + 0x100000" for g
    using page_free_free_range [OF wf, of 256 "0x100000" g] less_mult_imp_div_less [of g "0x8000" 64]
    by (auto simp: page_free_reset)
  then have run: "free_run ?s 0 0x100000 1 256" by (simp add: free_run_def)
  have low: "256 \<le> q" if "free_run ?s 0 0x100000 1 q" for q
    using that free [of q] by (simp add: free_run_def)
  show ?thesis using pmm_alloc_frames_wraps [OF i run] low by simp
qed

end
