(* ===== verification/Lists.thy ===== *)
theory Lists
  imports Prelude
begin

text \<open>
  The intrusive doubly linked lists of \<^verbatim>\<open>src/kernel/main/lists.c\<close>.  Every object on a list
  embeds a \<open>link_t\<close> at the list's \<open>offset\<close>; the links live in a store from addresses to
  \<open>link_t\<close> values that several lists may share.  Each operation runs under the list's spinlock,
  so it is one atomic update of the header and the store.  The predicate \<open>dll\<close> relates a header
  and a store to the sequence of objects on the list, and the lemmas show that every operation
  implements the corresponding operation on sequences and writes only links of the list.
\<close>

section \<open>Data\<close>

record link_t =
  lk_prev :: ptr
  lk_next :: ptr

record list_t =
  ls_length :: u32
  ls_offset :: nat
  ls_head :: ptr
  ls_tail :: ptr

type_synonym links = "ptr \<Rightarrow> link_t"

definition set_prev :: "links \<Rightarrow> ptr \<Rightarrow> ptr \<Rightarrow> links" where
  "set_prev m a v = m(a := (m a)\<lparr>lk_prev := v\<rparr>)"

definition set_next :: "links \<Rightarrow> ptr \<Rightarrow> ptr \<Rightarrow> links" where
  "set_next m a v = m(a := (m a)\<lparr>lk_next := v\<rparr>)"

section \<open>Operations\<close>

definition list_init :: "nat \<Rightarrow> list_t" where
  "list_init off = \<lparr>ls_length = 0, ls_offset = off, ls_head = 0, ls_tail = 0\<rparr>"

definition list_insert :: "list_t \<Rightarrow> links \<Rightarrow> ptr \<Rightarrow> list_t \<times> links" where
  "list_insert l m item =
    (let link = item + ls_offset l;
         m = set_next m link (ls_head l);
         m = set_prev m link 0;
         l = l\<lparr>ls_head := item, ls_length := ls_length l + 1\<rparr>;
         l = (if ls_tail l = 0 then l\<lparr>ls_tail := item\<rparr> else l);
         m = (if lk_next (m link) \<noteq> 0
              then set_prev m (lk_next (m link) + ls_offset l) item else m)
     in (l, m))"

definition list_insert_after :: "list_t \<Rightarrow> links \<Rightarrow> ptr \<Rightarrow> ptr \<Rightarrow> list_t \<times> links" where
  "list_insert_after l m pos item =
    (let link = item + ls_offset l;
         prv = pos + ls_offset l;
         m = set_prev m link pos;
         m = set_next m link (lk_next (m prv));
         m = set_next m prv item;
         l = l\<lparr>ls_length := ls_length l + 1\<rparr>;
         l = (if ls_tail l = pos then l\<lparr>ls_tail := item\<rparr> else l);
         m = (if lk_next (m link) \<noteq> 0
              then set_prev m (lk_next (m link) + ls_offset l) item else m)
     in (l, m))"

definition list_insert_before :: "list_t \<Rightarrow> links \<Rightarrow> ptr \<Rightarrow> ptr \<Rightarrow> list_t \<times> links" where
  "list_insert_before l m pos item =
    (let link = item + ls_offset l;
         nxt = pos + ls_offset l;
         m = set_prev m link (lk_prev (m nxt));
         m = set_next m link pos;
         m = set_prev m nxt item;
         l = l\<lparr>ls_length := ls_length l + 1\<rparr>;
         l = (if ls_head l = pos then l\<lparr>ls_head := item\<rparr> else l);
         m = (if lk_prev (m link) \<noteq> 0
              then set_next m (lk_prev (m link) + ls_offset l) item else m)
     in (l, m))"

definition list_append :: "list_t \<Rightarrow> links \<Rightarrow> ptr \<Rightarrow> list_t \<times> links" where
  "list_append l m item =
    (let link = item + ls_offset l;
         m = set_prev m link (ls_tail l);
         m = set_next m link 0;
         l = l\<lparr>ls_tail := item, ls_length := ls_length l + 1\<rparr>;
         l = (if ls_head l = 0 then l\<lparr>ls_head := item\<rparr> else l);
         m = (if lk_prev (m link) \<noteq> 0
              then set_next m (lk_prev (m link) + ls_offset l) item else m)
     in (l, m))"

definition list_remove :: "list_t \<Rightarrow> links \<Rightarrow> ptr \<Rightarrow> bool \<times> list_t \<times> links" where
  "list_remove l m item =
    (let link = item + ls_offset l;
         (status, l) = (if ls_head l = item then (True, l\<lparr>ls_head := lk_next (m link)\<rparr>)
                        else (False, l));
         (status, l) = (if ls_tail l = item then (True, l\<lparr>ls_tail := lk_prev (m link)\<rparr>)
                        else (status, l));
         (status, m) = (if lk_prev (m link) \<noteq> 0
                        then (True, set_next m (lk_prev (m link) + ls_offset l) (lk_next (m link)))
                        else (status, m));
         (status, m) = (if lk_next (m link) \<noteq> 0
                        then (True, set_prev m (lk_next (m link) + ls_offset l) (lk_prev (m link)))
                        else (status, m))
     in if status
        then (status, l\<lparr>ls_length := ls_length l - 1\<rparr>, set_next (set_prev m link 0) link 0)
        else (status, l, m))"

definition list_pop :: "list_t \<Rightarrow> links \<Rightarrow> ptr \<times> list_t \<times> links" where
  "list_pop l m =
    (let item = ls_head l
     in if item \<noteq> 0
        then let link = item + ls_offset l;
                 l = l\<lparr>ls_head := lk_next (m link)\<rparr>;
                 (l, m) = (if lk_next (m link) \<noteq> 0
                           then (l, set_prev m (lk_next (m link) + ls_offset l) 0)
                           else (l\<lparr>ls_tail := 0\<rparr>, m));
                 m = set_prev m link 0;
                 m = set_next m link 0;
                 l = l\<lparr>ls_length := ls_length l - 1\<rparr>
             in (item, l, m)
        else (item, l, m))"

definition list_head :: "list_t \<Rightarrow> ptr" where
  "list_head l = ls_head l"

definition list_iterate :: "list_t \<Rightarrow> links \<Rightarrow> ptr \<Rightarrow> ptr" where
  "list_iterate l m item =
    (if item = 0 then ls_head l else lk_next (m (item + ls_offset l)))"

definition list_iterate_reverse :: "list_t \<Rightarrow> links \<Rightarrow> ptr \<Rightarrow> ptr" where
  "list_iterate_reverse l m item =
    (if item = 0 then ls_tail l else lk_prev (m (item + ls_offset l)))"

section \<open>The sequence a header and a store represent\<close>

fun chain :: "links \<Rightarrow> nat \<Rightarrow> ptr \<Rightarrow> ptr list \<Rightarrow> ptr \<Rightarrow> bool" where
  "chain m off p [] n = True"
| "chain m off p (x # xs) n =
    (x \<noteq> 0 \<and> lk_prev (m (x + off)) = p \<and> lk_next (m (x + off)) = hd_or xs n \<and> chain m off x xs n)"

definition dll :: "list_t \<Rightarrow> links \<Rightarrow> ptr list \<Rightarrow> bool" where
  "dll l m xs \<longleftrightarrow> distinct xs \<and> chain m (ls_offset l) 0 xs 0 \<and> ls_head l = hd_or xs 0 \<and>
     ls_tail l = last_or xs 0 \<and> ls_length l = of_nat (length xs)"

lemma set_prev_sel [simp]:
  "lk_prev (set_prev m a v b) = (if a = b then v else lk_prev (m b))"
  "lk_next (set_prev m a v b) = lk_next (m b)"
  by (auto simp: set_prev_def)

lemma set_next_sel [simp]:
  "lk_next (set_next m a v b) = (if a = b then v else lk_next (m b))"
  "lk_prev (set_next m a v b) = lk_prev (m b)"
  by (auto simp: set_next_def)

lemma set_link_other:
  "a \<noteq> b \<Longrightarrow> set_prev m a v b = m b"
  "a \<noteq> b \<Longrightarrow> set_next m a v b = m b"
  by (auto simp: set_prev_def set_next_def)

lemma chain_append [simp]:
  "chain m off p (xs @ ys) n \<longleftrightarrow> chain m off p xs (hd_or ys n) \<and> chain m off (last_or xs p) ys n"
  by (induction xs arbitrary: p) auto

lemma chain_set_other [simp]:
  "a \<notin> set xs \<Longrightarrow> chain (set_prev m (a + off) v) off p xs n = chain m off p xs n"
  "a \<notin> set xs \<Longrightarrow> chain (set_next m (a + off) v) off p xs n = chain m off p xs n"
  by (induction xs arbitrary: p) auto

lemma chain_nonnull: "chain m off p xs n \<Longrightarrow> 0 \<notin> set xs"
  by (induction xs arbitrary: p) auto

lemma chain_frame:
  "(\<And>x. x \<in> set xs \<Longrightarrow> m' (x + off) = m (x + off)) \<Longrightarrow> chain m' off p xs n = chain m off p xs n"
  by (induction xs arbitrary: p) auto

lemma dll_empty_iff: "dll l m xs \<Longrightarrow> ls_head l = 0 \<longleftrightarrow> xs = []"
  by (cases xs) (auto simp: dll_def)

lemma dll_tail_iff: "dll l m xs \<Longrightarrow> ls_tail l = 0 \<longleftrightarrow> xs = []"
  by (cases xs rule: rev_cases) (auto simp: dll_def)

lemma dll_frame:
  assumes "dll l m xs" and "\<And>x. x \<in> set xs \<Longrightarrow> m' (x + ls_offset l) = m (x + ls_offset l)"
  shows "dll l m' xs"
  using assms(1) chain_frame [of xs m' "ls_offset l" m 0 0] assms(2) by (auto simp: dll_def)

lemma dll_init: "dll (list_init off) m []"
  by (simp add: dll_def list_init_def)

lemma dll_insert:
  assumes "dll l m xs" and "x \<notin> set xs" and "x \<noteq> 0" and "list_insert l m x = (l', m')"
  shows "dll l' m' (x # xs)"
  using assms dll_tail_iff [OF assms(1)]
  by (cases xs) (auto simp: dll_def list_insert_def Let_def)

lemma dll_append:
  assumes "dll l m xs" and "x \<notin> set xs" and "x \<noteq> 0" and "list_append l m x = (l', m')"
  shows "dll l' m' (xs @ [x])"
  using assms dll_empty_iff [OF assms(1)]
  by (cases xs rule: rev_cases) (auto simp: dll_def list_append_def Let_def)

lemma dll_insert_after:
  assumes "dll l m (xs @ h # ys)" and "x \<notin> set (xs @ h # ys)" and "x \<noteq> 0"
    and "list_insert_after l m h x = (l', m')"
  shows "dll l' m' (xs @ h # x # ys)"
  using assms
  by (cases ys) (auto simp: dll_def list_insert_after_def Let_def)

lemma dll_insert_before:
  assumes "dll l m (xs @ h # ys)" and "x \<notin> set (xs @ h # ys)" and "x \<noteq> 0"
    and "list_insert_before l m h x = (l', m')"
  shows "dll l' m' (xs @ x # h # ys)"
  using assms
  by (cases xs rule: rev_cases) (auto simp: dll_def list_insert_before_def Let_def)

lemma dll_pop_empty:
  assumes "dll l m []"
  shows "list_pop l m = (0, l, m)"
  using assms by (simp add: dll_def list_pop_def)

lemma dll_pop:
  assumes "dll l m (x # xs)" and "list_pop l m = (r, l', m')"
  shows "r = x \<and> dll l' m' xs \<and> m' (x + ls_offset l) = \<lparr>lk_prev = 0, lk_next = 0\<rparr>"
  using assms
  by (cases xs) (auto simp: dll_def list_pop_def Let_def)

lemma dll_remove:
  assumes "dll l m (xs @ x # ys)" and "list_remove l m x = (ok, l', m')"
  shows "ok \<and> dll l' m' (xs @ ys) \<and> m' (x + ls_offset l) = \<lparr>lk_prev = 0, lk_next = 0\<rparr>"
proof -
  show ?thesis
    using assms
    by (cases xs rule: rev_cases; cases ys)
      (auto simp: dll_def list_remove_def Let_def)
qed

lemma dll_remove_absent:
  assumes "dll l m xs" and "x \<notin> set xs" and "x \<noteq> 0"
    and "lk_prev (m (x + ls_offset l)) = 0" and "lk_next (m (x + ls_offset l)) = 0"
  shows "list_remove l m x = (False, l, m)"
  using assms by (simp add: dll_def list_remove_def Let_def)

lemma dll_iterate:
  assumes "dll l m xs" and "i < length xs"
  shows "list_iterate l m (if i = 0 then 0 else xs ! (i - 1)) = xs ! i"
proof -
  obtain ys zs where xs: "xs = ys @ xs ! i # zs" and "length ys = i"
    using id_take_nth_drop [OF assms(2)] assms(2) by (metis length_take min.absorb4)
  show ?thesis
  proof (cases ys rule: rev_cases)
    case Nil
    with assms(1) xs \<open>length ys = i\<close> show ?thesis
      by (cases xs) (auto simp: dll_def list_iterate_def)
  next
    case (snoc us u)
    then have "xs = us @ u # xs ! i # zs" and "xs ! (i - 1) = u" and "i \<noteq> 0"
      using xs \<open>length ys = i\<close> by (auto, metis append.assoc append_Cons nth_append_length)
    moreover have "chain m (ls_offset l) 0 (us @ u # xs ! i # zs) 0"
      using assms(1) calculation(1) by (simp add: dll_def)
    then have "u \<noteq> 0 \<and> lk_next (m (u + ls_offset l)) = xs ! i" by simp
    ultimately show ?thesis by (simp add: list_iterate_def)
  qed
qed

lemma dll_iterate_end:
  assumes "dll l m xs"
  shows "list_iterate l m (last_or xs 0) = 0"
  using assms by (cases xs rule: rev_cases) (auto simp: dll_def list_iterate_def)

lemma dll_iterate_reverse:
  assumes "dll l m (xs @ x # ys)"
  shows "list_iterate_reverse l m (hd_or ys 0) = x \<and>
    list_iterate_reverse l m x = last_or xs 0"
  using assms by (cases ys) (auto simp: dll_def list_iterate_reverse_def)

section \<open>Only the links of the list are written\<close>

lemma dll_writes:
  assumes "dll l m xs" and "a \<notin> (\<lambda>y. y + ls_offset l) ` insert x (set xs)"
  shows "list_insert l m x = (l1, m1) \<Longrightarrow> m1 a = m a"
    and "list_append l m x = (l1, m1) \<Longrightarrow> m1 a = m a"
    and "list_pop l m = (r, l1, m1) \<Longrightarrow> m1 a = m a"
    and "x \<in> set xs \<Longrightarrow> list_remove l m x = (ok, l1, m1) \<Longrightarrow> m1 a = m a"
proof -
  note d = assms(1)[unfolded dll_def]
  show "list_insert l m x = (l1, m1) \<Longrightarrow> m1 a = m a"
    using d assms(2)
    by (cases xs) (auto simp: list_insert_def Let_def set_link_other split: if_splits)
  show "list_append l m x = (l1, m1) \<Longrightarrow> m1 a = m a"
    using d assms(2)
    by (cases xs rule: rev_cases)
      (auto simp: list_append_def Let_def set_link_other split: if_splits)
  show "list_pop l m = (r, l1, m1) \<Longrightarrow> m1 a = m a"
    using d assms(2)
    by (cases xs; cases "tl xs")
      (auto simp: list_pop_def Let_def set_link_other split: if_splits prod.splits)
  assume "x \<in> set xs" and r: "list_remove l m x = (ok, l1, m1)"
  then obtain ys zs where "xs = ys @ x # zs" by (auto dest: split_list)
  with d assms(2) r show "m1 a = m a"
    by (cases ys rule: rev_cases; cases zs)
      (auto simp: list_remove_def Let_def set_link_other split: if_splits prod.splits)
qed

section \<open>The interface the rest of the kernel relies on\<close>

text \<open>The loop \<^verbatim>\<open>while(item = list_iterate(list, item), item)\<close>, with a bound on the number of
  rounds, and the loop that pops a list until it is empty.\<close>

fun walk :: "('s \<Rightarrow> ptr \<Rightarrow> ptr) \<Rightarrow> 's \<Rightarrow> nat \<Rightarrow> ptr \<Rightarrow> ptr list option" where
  "walk nxt s 0 item = None"
| "walk nxt s (Suc n) item =
    (if nxt s item = 0 then Some []
     else map_option ((#) (nxt s item)) (walk nxt s n (nxt s item)))"

fun drain :: "('s \<Rightarrow> ptr \<times> 's) \<Rightarrow> nat \<Rightarrow> 's \<Rightarrow> (ptr list \<times> 's) option" where
  "drain pop 0 s = None"
| "drain pop (Suc n) s =
    (case pop s of (x, s') \<Rightarrow>
       if x = 0 then Some ([], s') else map_option (apfst ((#) x)) (drain pop n s'))"

locale seq_list =
  fixes repr :: "'s \<Rightarrow> ptr list \<Rightarrow> bool"
    and push_front :: "'s \<Rightarrow> ptr \<Rightarrow> 's"
    and push_back :: "'s \<Rightarrow> ptr \<Rightarrow> 's"
    and pop_front :: "'s \<Rightarrow> ptr \<times> 's"
    and unlink :: "'s \<Rightarrow> ptr \<Rightarrow> bool \<times> 's"
    and iter :: "'s \<Rightarrow> ptr \<Rightarrow> ptr"
  assumes repr_wf: "repr s xs \<Longrightarrow> distinct xs \<and> 0 \<notin> set xs"
    and push_front: "repr s xs \<Longrightarrow> x \<notin> set xs \<Longrightarrow> x \<noteq> 0 \<Longrightarrow> repr (push_front s x) (x # xs)"
    and push_back: "repr s xs \<Longrightarrow> x \<notin> set xs \<Longrightarrow> x \<noteq> 0 \<Longrightarrow> repr (push_back s x) (xs @ [x])"
    and pop_nil: "repr s [] \<Longrightarrow> pop_front s = (0, s)"
    and pop_cons: "repr s (x # xs) \<Longrightarrow> fst (pop_front s) = x \<and> repr (snd (pop_front s)) xs"
    and unlink: "repr s (xs @ x # ys) \<Longrightarrow> fst (unlink s x) \<and> repr (snd (unlink s x)) (xs @ ys)"
    and iter_nth: "repr s xs \<Longrightarrow> i < length xs \<Longrightarrow> iter s (if i = 0 then 0 else xs ! (i - 1)) = xs ! i"
    and iter_end: "repr s xs \<Longrightarrow> iter s (last_or xs 0) = 0"
begin

lemma push_back_all:
  "repr s xs \<Longrightarrow> distinct (xs @ ys) \<Longrightarrow> 0 \<notin> set ys \<Longrightarrow> repr (foldl push_back s ys) (xs @ ys)"
proof (induction ys arbitrary: s xs)
  case Nil
  then show ?case by simp
next
  case (Cons y ys)
  then have "repr (push_back s y) (xs @ [y])" by (auto intro: push_back)
  from Cons.IH [OF this] Cons.prems show ?case by auto
qed

lemma drain_all:
  "repr s xs \<Longrightarrow> length xs < n \<Longrightarrow> \<exists>s'. drain pop_front n s = Some (xs, s') \<and> repr s' []"
proof (induction xs arbitrary: s n)
  case Nil
  then show ?case by (cases n) (auto simp: pop_nil)
next
  case (Cons x xs)
  from Cons.prems repr_wf have "x \<noteq> 0" by fastforce
  from pop_cons [OF Cons.prems(1)] obtain s1 where p: "pop_front s = (x, s1)" and s1: "repr s1 xs"
    by (metis prod.collapse)
  from Cons.prems(2) obtain k where n: "n = Suc k" and "length xs < k" by (cases n) auto
  from Cons.IH [OF s1 this(2)] show ?case by (auto simp: n p \<open>x \<noteq> 0\<close>)
qed

lemma fifo:
  assumes "repr s []" and "distinct ys" and "0 \<notin> set ys" and "length ys < n"
  shows "\<exists>s'. drain pop_front n (foldl push_back s ys) = Some (ys, s') \<and> repr s' []"
  using drain_all [of "foldl push_back s ys" ys n] push_back_all [OF assms(1), of ys] assms
  by simp

lemma walk_suffix:
  assumes "repr s xs" and "i \<le> length xs" and "length xs - i < n"
  shows "walk iter s n (if i = 0 then 0 else xs ! (i - 1)) = Some (drop i xs)"
  using assms(2,3)
proof (induction n arbitrary: i)
  case 0
  then show ?case by simp
next
  case (Suc n)
  show ?case
  proof (cases "i < length xs")
    case True
    with repr_wf [OF assms(1)] have "xs ! i \<noteq> 0" by (metis nth_mem)
    moreover have "walk iter s n (xs ! i) = Some (drop (Suc i) xs)"
      using Suc.IH [of "Suc i"] Suc.prems True by simp
    ultimately show ?thesis
      using iter_nth [OF assms(1) True] True by (simp add: Cons_nth_drop_Suc)
  next
    case False
    with Suc.prems have "i = length xs" by simp
    then have "(if i = 0 then 0 else xs ! (i - 1)) = last_or xs 0"
      by (cases xs rule: rev_cases) (auto simp: nth_append)
    with iter_end [OF assms(1)] \<open>i = length xs\<close> show ?thesis by simp
  qed
qed

lemma walk_all:
  assumes "repr s xs" and "length xs < n"
  shows "walk iter s n 0 = Some xs"
  using walk_suffix [OF assms(1), of 0 n] assms(2) by simp

end

interpretation kl: seq_list
  "\<lambda>(l, m) xs. dll l m xs"
  "\<lambda>(l, m). list_insert l m" "\<lambda>(l, m). list_append l m"
  "\<lambda>(l, m). list_pop l m" "\<lambda>(l, m). list_remove l m" "\<lambda>(l, m). list_iterate l m"
proof (unfold_locales, goal_cases)
  case (1 s xs) then show ?case by (auto simp: dll_def dest: chain_nonnull)
next
  case (2 s xs x) then show ?case by (auto split: prod.splits intro: dll_insert)
next
  case (3 s xs x) then show ?case by (auto split: prod.splits intro: dll_append)
next
  case (4 s) then show ?case by (auto simp: dll_pop_empty)
next
  case (5 s x xs)
  then show ?case by (cases s; cases "list_pop (fst s) (snd s)") (auto dest: dll_pop)
next
  case (6 s xs x ys)
  then show ?case by (cases s; cases "list_remove (fst s) (snd s) x") (auto dest: dll_remove)
next
  case (7 s xs i) then show ?case using dll_iterate by fastforce
next
  case (8 s xs) then show ?case by (auto simp: dll_iterate_end)
qed

lemma walk_reverse:
  assumes "dll l m (xs @ ys)" and "length xs < n"
  shows "walk (\<lambda>(l, m). list_iterate_reverse l m) (l, m) n (hd_or ys 0) = Some (rev xs)"
  using assms
proof (induction xs arbitrary: ys n rule: rev_induct)
  case Nil
  then have "list_iterate_reverse l m (hd_or ys 0) = 0"
    by (cases ys) (auto simp: dll_def list_iterate_reverse_def)
  then show ?case using Nil.prems(2) by (cases n) simp_all
next
  case (snoc x xs)
  then obtain k where n: "n = Suc k" by (cases n) auto
  have "list_iterate_reverse l m (hd_or ys 0) = x" "x \<noteq> 0"
    using dll_iterate_reverse [of l m xs x ys] snoc.prems(1) by (auto simp: dll_def dest: chain_nonnull)
  then show ?case using snoc.IH [of "x # ys" k] snoc.prems n by simp
qed

section \<open>Properties\<close>

text \<open>C11. Refinement: on a header and store that represent a sequence \<open>zs\<close>, empty or not, insertion and
  appending put an object that is not in it at the front and at the back, and \<open>list_pop\<close> takes the first
  element out, or returns null and changes nothing when there is none.  For every element \<open>h\<close> of the
  sequence the two positional insertions put the object after and before \<open>h\<close> and \<open>list_remove\<close> takes \<open>h\<close>
  out.  An object taken out has both links cleared.  Removing an object that is not in the list and whose
  links are clear reports failure and changes nothing.\<close>

theorem list_ops_refine:
  assumes "dll l m zs" and "x \<notin> set zs" and "x \<noteq> 0"
  shows "(case list_insert l m x of (l', m') \<Rightarrow> dll l' m' (x # zs)) \<and>
    (case list_append l m x of (l', m') \<Rightarrow> dll l' m' (zs @ [x])) \<and>
    (if zs = [] then list_pop l m = (0, l, m)
     else case list_pop l m of (r, l', m') \<Rightarrow> r = hd zs \<and> dll l' m' (tl zs) \<and>
       m' (r + ls_offset l) = \<lparr>lk_prev = 0, lk_next = 0\<rparr>) \<and>
    (\<forall>xs h ys. zs = xs @ h # ys \<longrightarrow>
       (case list_insert_after l m h x of (l', m') \<Rightarrow> dll l' m' (xs @ h # x # ys)) \<and>
       (case list_insert_before l m h x of (l', m') \<Rightarrow> dll l' m' (xs @ x # h # ys)) \<and>
       (case list_remove l m h of (ok, l', m') \<Rightarrow> ok \<and> dll l' m' (xs @ ys) \<and>
          m' (h + ls_offset l) = \<lparr>lk_prev = 0, lk_next = 0\<rparr>)) \<and>
    (m (x + ls_offset l) = \<lparr>lk_prev = 0, lk_next = 0\<rparr> \<longrightarrow> list_remove l m x = (False, l, m))"
proof (intro conjI)
  show "if zs = [] then list_pop l m = (0, l, m)
     else case list_pop l m of (r, l', m') \<Rightarrow> r = hd zs \<and> dll l' m' (tl zs) \<and>
       m' (r + ls_offset l) = \<lparr>lk_prev = 0, lk_next = 0\<rparr>"
    using assms(1) by (cases zs) (auto dest: dll_pop dll_pop_empty split: prod.splits)
  show "m (x + ls_offset l) = \<lparr>lk_prev = 0, lk_next = 0\<rparr> \<longrightarrow> list_remove l m x = (False, l, m)"
    using dll_remove_absent [OF assms] by simp
  show "\<forall>xs h ys. zs = xs @ h # ys \<longrightarrow>
       (case list_insert_after l m h x of (l', m') \<Rightarrow> dll l' m' (xs @ h # x # ys)) \<and>
       (case list_insert_before l m h x of (l', m') \<Rightarrow> dll l' m' (xs @ x # h # ys)) \<and>
       (case list_remove l m h of (ok, l', m') \<Rightarrow> ok \<and> dll l' m' (xs @ ys) \<and>
          m' (h + ls_offset l) = \<lparr>lk_prev = 0, lk_next = 0\<rparr>)"
    using assms by (auto dest: dll_insert_after dll_insert_before dll_remove split: prod.splits)
qed (use assms in \<open>auto dest: dll_insert dll_append split: prod.splits\<close>)

theorem list_ops_refine_witness:
  "dll \<lparr>ls_length = 2, ls_offset = 16, ls_head = 100, ls_tail = 200\<rparr>
      ((\<lambda>_. \<lparr>lk_prev = 0, lk_next = 0\<rparr>)(116 := \<lparr>lk_prev = 0, lk_next = 200\<rparr>,
        216 := \<lparr>lk_prev = 100, lk_next = 0\<rparr>)) ([100] @ 200 # []) \<and>
   (case list_append \<lparr>ls_length = 2, ls_offset = 16, ls_head = 100, ls_tail = 200\<rparr>
      ((\<lambda>_. \<lparr>lk_prev = 0, lk_next = 0\<rparr>)(116 := \<lparr>lk_prev = 0, lk_next = 200\<rparr>,
        216 := \<lparr>lk_prev = 100, lk_next = 0\<rparr>)) 300 of (l', m') \<Rightarrow> dll l' m' [100, 200, 300]) \<and>
   (case list_append (list_init 16) (\<lambda>_. \<lparr>lk_prev = 0, lk_next = 0\<rparr>) 300 of (l', m') \<Rightarrow> dll l' m' [300])"
proof -
  let ?l = "\<lparr>ls_length = 2, ls_offset = 16, ls_head = 100, ls_tail = 200\<rparr>"
  let ?m = "(\<lambda>_. \<lparr>lk_prev = 0, lk_next = 0\<rparr>)(116 := \<lparr>lk_prev = 0, lk_next = 200\<rparr>,
        216 := \<lparr>lk_prev = 100, lk_next = 0\<rparr>) :: links"
  have d: "dll ?l ?m ([100] @ 200 # [])" by (simp add: dll_def)
  show ?thesis using d list_ops_refine [OF d, of 300] list_ops_refine [OF dll_init, of 300 16] by simp
qed

text \<open>C23. First in, first out, on the linked representation: appending the objects \<open>ys\<close> one after
  another to a fresh list and then popping until the list reports empty terminates and returns
  exactly \<open>ys\<close> in order.\<close>

theorem list_append_pop_fifo:
  assumes "distinct ys" and "0 \<notin> set ys" and "length ys < n"
  shows "\<exists>l' m'. drain (\<lambda>(l, m). list_pop l m) n
      (foldl (\<lambda>(l, m). list_append l m) (list_init off, m) ys) = Some (ys, l', m') \<and> dll l' m' []"
  using kl.fifo [of "(list_init off, m)" ys n] assms by (simp add: dll_init)

theorem list_append_pop_fifo_witness:
  "distinct [8, 24, 40 :: ptr] \<and> (\<exists>l' m'. drain (\<lambda>(l, m). list_pop l m) 4
      (foldl (\<lambda>(l, m). list_append l m) (list_init 0, \<lambda>_. \<lparr>lk_prev = 0, lk_next = 0\<rparr>) [8, 24, 40])
      = Some ([8, 24, 40], l', m') \<and> dll l' m' [])"
  using list_append_pop_fifo [of "[8, 24, 40]" 4 0] by simp

text \<open>C24. Traversal: the loop over \<open>list_iterate\<close> visits every object of the list exactly once, in
  order, and stops; the loop over \<open>list_iterate_reverse\<close> visits them exactly once in the opposite order, and
  stops.\<close>

theorem list_iterate_visits_all:
  assumes "dll l m xs" and "length xs < n"
  shows "walk (\<lambda>(l, m). list_iterate l m) (l, m) n 0 = Some xs \<and>
    walk (\<lambda>(l, m). list_iterate_reverse l m) (l, m) n 0 = Some (rev xs)"
proof
  show "walk (\<lambda>(l, m). list_iterate l m) (l, m) n 0 = Some xs"
    using kl.walk_all [of "(l, m)" xs n] assms by simp
  show "walk (\<lambda>(l, m). list_iterate_reverse l m) (l, m) n 0 = Some (rev xs)"
    using walk_reverse [of l m xs "[]" n] assms by simp
qed

theorem list_iterate_visits_all_witness:
  "walk (\<lambda>(l, m). list_iterate_reverse l m) (\<lparr>ls_length = 2, ls_offset = 16, ls_head = 100, ls_tail = 200\<rparr>,
      (\<lambda>_. \<lparr>lk_prev = 0, lk_next = 0\<rparr>)(116 := \<lparr>lk_prev = 0, lk_next = 200\<rparr>,
        216 := \<lparr>lk_prev = 100, lk_next = 0\<rparr>)) 3 0 = Some [200, 100]"
proof -
  let ?l = "\<lparr>ls_length = 2, ls_offset = 16, ls_head = 100, ls_tail = 200\<rparr>"
  let ?m = "(\<lambda>_. \<lparr>lk_prev = 0, lk_next = 0\<rparr>)(116 := \<lparr>lk_prev = 0, lk_next = 200\<rparr>,
        216 := \<lparr>lk_prev = 100, lk_next = 0\<rparr>) :: links"
  have "dll ?l ?m [100, 200]" by (simp add: dll_def)
  from list_iterate_visits_all [OF this, of 3] show ?thesis by simp
qed

text \<open>Isolation: two lists that embed their links at the same offset and share no object do not
  disturb each other, although they share the link store (as the run queues of a core do).\<close>

lemma list_ops_isolated:
  assumes "dll l m xs" and "dll k m ys" and "ls_offset k = ls_offset l"
    and "set xs \<inter> set ys = {}" and "x \<notin> set ys"
  shows "dll k (snd (list_insert l m x)) ys" and "dll k (snd (list_append l m x)) ys"
    and "dll k (snd (snd (list_pop l m))) ys"
    and "x \<in> set xs \<Longrightarrow> dll k (snd (snd (list_remove l m x))) ys"
proof -
  have out: "y + ls_offset k \<notin> (\<lambda>y. y + ls_offset l) ` insert x (set xs)" if "y \<in> set ys" for y
    using that assms(3-5) by auto
  show "dll k (snd (list_insert l m x)) ys"
    by (rule dll_frame [OF assms(2)]) (metis dll_writes(1) [OF assms(1) out] prod.collapse)
  show "dll k (snd (list_append l m x)) ys"
    by (rule dll_frame [OF assms(2)]) (metis dll_writes(2) [OF assms(1) out] prod.collapse)
  show "dll k (snd (snd (list_pop l m))) ys"
    by (rule dll_frame [OF assms(2)]) (metis dll_writes(3) [OF assms(1) out] prod.collapse)
  show "dll k (snd (snd (list_remove l m x))) ys" if "x \<in> set xs"
    by (rule dll_frame [OF assms(2)]) (metis dll_writes(4) [OF assms(1) out that] prod.collapse)
qed

end
