(* ===== verification/Cint.thy ===== *)
theory Cint
  imports Prelude
begin

text \<open>
  The C type \<open>int\<close>, for code that stores wider integers into one or computes with one: a conversion keeps
  the low 32 bits as a signed number, as the compiler does; an operation whose result does not fit is
  undefined and has the result \<open>None\<close> where a model uses \<open>int_ok\<close>.
\<close>

text \<open>The conversion of a wider integer to \<open>int\<close>, and the result of an \<open>int\<close> operation if it does not overflow.\<close>

definition c_int :: "int \<Rightarrow> int" where
  "c_int x = signed_take_bit 31 x"

definition int_ok :: "int \<Rightarrow> int option" where
  "int_ok x = (if - (2 ^ 31) \<le> x \<and> x < 2 ^ 31 then Some x else None)"

lemma c_int_id: "- (2 ^ 31) \<le> x \<Longrightarrow> x < 2 ^ 31 \<Longrightarrow> c_int x = x"
  by (simp add: c_int_def signed_take_bit_int_eq_self_iff)

lemma c_int_nonneg: "0 \<le> x \<Longrightarrow> x < 2147483648 \<Longrightarrow> c_int x = x"
  by (rule c_int_id) simp_all

lemma int_ok_id: "- (2 ^ 31) \<le> x \<Longrightarrow> x < 2 ^ 31 \<Longrightarrow> int_ok x = Some x"
  by (simp add: int_ok_def)

end
