(* ===== verification/Environ.thy ===== *)
theory Environ
  imports Prelude "HOL-Library.Monad_Syntax"
begin

text \<open>
  The environment of a process, \<^verbatim>\<open>src/libc/stdlib/_stdlib.c\<close>, \<^verbatim>\<open>getenv.c\<close>, \<^verbatim>\<open>setenv.c\<close>, \<^verbatim>\<open>putenv.c\<close> and
  \<^verbatim>\<open>unsetenv.c\<close>: an array of strings that ends with a null pointer and grows on demand, and an array that says
  which strings were allocated by the library.  The strings themselves are values.  Whether an allocation
  succeeds is a parameter; an access outside of an array or through the null pointer is \<open>None\<close>.
\<close>

section \<open>State\<close>

text \<open>\<open>own\<close> is the array \<open>state\<close> of the source, nothing before it is allocated; \<open>released\<close> records the
  strings that were given to \<open>free\<close>.\<close>

record env_t =
  environ :: "string option list"
  own :: "bool list option"
  cap :: nat
  cnt :: nat
  released :: "string list"

text \<open>The results of the two calls of \<open>calloc\<close>.\<close>

type_synonym allocs = "bool \<times> bool"

definition strchr_eq :: "string \<Rightarrow> nat option" where
  "strchr_eq s = (if CHR ''='' \<in> set s then Some (length (takeWhile (\<lambda>c. c \<noteq> CHR ''='') s)) else None)"

section \<open>Operations\<close>

primrec count_env :: "string option list \<Rightarrow> nat option" where
  "count_env [] = None"
| "count_env (x # xs) = (case x of None \<Rightarrow> Some 0 | Some _ \<Rightarrow> map_option Suc (count_env xs))"

definition init_environ :: "env_t \<Rightarrow> allocs \<Rightarrow> (int \<times> env_t) option" where
  "init_environ e a = do {
     n \<leftarrow> count_env (drop (cnt e) (environ e));
     let c = cnt e + n;
     let e = e\<lparr>cnt := c, cap := 10 + 2 * c\<rparr>;
     if \<not> fst a then Some (-1, e)
     else if \<not> snd a then Some (-1, e\<lparr>own := None\<rparr>)
     else Some (0, e\<lparr>own := Some (replicate (cap e + 1) False),
                     environ := take c (environ e) @ replicate (cap e + 1 - c) None\<rparr>)
   }"

definition resize_environ :: "env_t \<Rightarrow> allocs \<Rightarrow> (int \<times> env_t) option" where
  "resize_environ e a =
    (let e = e\<lparr>cap := 2 * cnt e\<rparr>
     in if \<not> fst a then Some (-1, e)
        else if \<not> snd a then Some (-1, e)
        else do {
          st \<leftarrow> own e;
          if cnt e > length (environ e) \<or> cnt e > length st then None
          else Some (0, e\<lparr>environ := take (cnt e) (environ e) @ replicate (cap e + 1 - cnt e) None,
                          own := Some (take (cnt e) st @ replicate (cap e + 1 - cnt e) False)\<rparr>)
        })"

text \<open>Does the entry \<open>str\<close> have the name \<open>name\<close>, of which the first \<open>nlen\<close> characters count?\<close>

definition env_match :: "string \<Rightarrow> nat \<Rightarrow> string \<Rightarrow> bool" where
  "env_match name nlen str =
    (case strchr_eq str of None \<Rightarrow> False | Some elen \<Rightarrow> nlen = elen \<and> take nlen str = take nlen name)"

primrec find_env :: "string \<Rightarrow> nat \<Rightarrow> nat \<Rightarrow> string option list \<Rightarrow> int option" where
  "find_env name nlen n [] = None"
| "find_env name nlen n (x # xs) =
    (case x of None \<Rightarrow> Some (-1)
     | Some str \<Rightarrow> if env_match name nlen str then Some (int n) else find_env name nlen (n + 1) xs)"

definition libc_getenv :: "env_t \<Rightarrow> string \<Rightarrow> int option" where
  "libc_getenv e name =
    (let nlen = (case strchr_eq name of Some p \<Rightarrow> p | None \<Rightarrow> length name)
     in find_env name nlen 0 (environ e))"

definition release_env :: "env_t \<Rightarrow> bool list \<Rightarrow> nat \<Rightarrow> env_t" where
  "release_env e st p =
    (if st ! p then case environ e ! p of Some s \<Rightarrow> e\<lparr>released := s # released e\<rparr> | None \<Rightarrow> e else e)"

definition libc_putenv :: "env_t \<Rightarrow> string \<Rightarrow> bool \<Rightarrow> int \<Rightarrow> allocs \<Rightarrow> (int \<times> env_t) option" where
  "libc_putenv e str allocated pos a = do {
     (st, e) \<leftarrow> (if cap e = 0 then init_environ e a else if cap e = cnt e then resize_environ e a else Some (0, e));
     if st < 0 then Some (-1, e)
     else do {
       let p = (if pos < 0 then cnt e else nat pos);
       let e = (if pos < 0 then e\<lparr>cnt := cnt e + 1\<rparr> else e);
       os \<leftarrow> own e;
       if p \<ge> length os \<or> p \<ge> length (environ e) then None
       else let e = release_env e os p
            in Some (0, e\<lparr>environ := (environ e)[p := Some str], own := Some (os[p := allocated])\<rparr>)
     }
   }"

definition libc_unsetenv :: "env_t \<Rightarrow> string \<Rightarrow> allocs \<Rightarrow> (int \<times> env_t) option" where
  "libc_unsetenv e name a = do {
     (st, e) \<leftarrow> (if cap e = 0 then init_environ e a else Some (0, e));
     if st < 0 then Some (-1, e)
     else do {
       pos \<leftarrow> libc_getenv e name;
       if pos < 0 then Some (0, e)
       else do {
         os \<leftarrow> own e;
         let p = nat pos;
         if cnt e \<ge> length os \<or> cnt e \<ge> length (environ e) then None
         else let e = release_env e os p
              in Some (0, e\<lparr>environ := take p (environ e) @ take (cnt e - p) (drop (p + 1) (environ e)) @ drop (cnt e) (environ e),
                              own := Some (take p os @ take (cnt e - p) (drop (p + 1) os) @ drop (cnt e) os),
                              cnt := cnt e - 1\<rparr>)
       }
     }
   }"

definition getenv :: "env_t \<Rightarrow> string \<Rightarrow> string option option" where
  "getenv e name = do {
     pos \<leftarrow> libc_getenv e name;
     if pos < 0 then Some None
     else do {
       str \<leftarrow> environ e ! nat pos;
       Some (Some (case strchr_eq str of Some d \<Rightarrow> drop (d + 1) str | None \<Rightarrow> str))
     }
   }"

text \<open>The flag \<open>mem\<close> tells whether \<open>malloc\<close> succeeds.  A null pointer as name is \<open>None\<close>; -1 stands for the
  errors EINVAL and ENOMEM.\<close>

definition setenv :: "env_t \<Rightarrow> string option \<Rightarrow> string \<Rightarrow> bool \<Rightarrow> bool \<Rightarrow> allocs \<Rightarrow> (int \<times> env_t) option" where
  "setenv e name val overwrite mem a =
    (case name of None \<Rightarrow> Some (-1, e)
     | Some nm \<Rightarrow>
       if nm = [] then Some (-1, e)
       else if strchr_eq nm \<noteq> None then Some (-1, e)
       else do {
         pos \<leftarrow> libc_getenv e nm;
         if \<not> overwrite \<and> pos \<ge> 0 then Some (0, e)
         else if \<not> mem then Some (-1, e)
         else libc_putenv e (nm @ ''='' @ val) True pos a
       })"

definition putenv :: "env_t \<Rightarrow> string \<Rightarrow> allocs \<Rightarrow> (int \<times> env_t) option" where
  "putenv e str a =
    (if strchr_eq str = None then Some (-1, e)
     else do {
       pos \<leftarrow> libc_getenv e str;
       libc_putenv e str False pos a
     })"

definition unsetenv :: "env_t \<Rightarrow> string option \<Rightarrow> allocs \<Rightarrow> (int \<times> env_t) option" where
  "unsetenv e name a =
    (case name of None \<Rightarrow> Some (-1, e)
     | Some nm \<Rightarrow>
       if nm = [] then Some (-1, e)
       else if strchr_eq nm \<noteq> None then Some (-1, e)
       else libc_unsetenv e nm a)"

section \<open>The variables of an environment\<close>

text \<open>The environment holds the strings \<open>xs\<close>, in order.\<close>

definition env_ok :: "env_t \<Rightarrow> string list \<Rightarrow> bool" where
  "env_ok e xs \<longleftrightarrow>
    (if cap e = 0 then cnt e = 0 \<and> environ e = map Some xs @ [None]
     else cnt e = length xs \<and> cnt e \<le> cap e \<and> environ e = map Some xs @ replicate (cap e + 1 - cnt e) None \<and>
       (\<exists>os. length os = cnt e \<and> own e = Some (os @ replicate (cap e + 1 - cnt e) False)))"

definition env_key :: "string \<Rightarrow> string" where
  "env_key s = takeWhile (\<lambda>c. c \<noteq> CHR ''='') s"

lemma env_match_key: "env_match name (length name) str \<longleftrightarrow> CHR ''='' \<in> set str \<and> env_key str = name"
proof -
  have t: "take (length (env_key str)) str = env_key str" unfolding env_key_def by (metis takeWhile_eq_take)
  have e: "env_match name (length name) str \<longleftrightarrow> CHR ''='' \<in> set str \<and> length name = length (env_key str) \<and> take (length name) str = name"
    by (simp add: env_match_def strchr_eq_def env_key_def)
  show ?thesis unfolding e using t by metis
qed

lemma env_environ: "env_ok e xs \<Longrightarrow> \<exists>r. environ e = map Some xs @ None # r"
  unfolding env_ok_def by (cases "cap e = 0") (auto simp: Suc_diff_le)


text \<open>The first entry with a name.\<close>

fun first_env :: "(string \<Rightarrow> bool) \<Rightarrow> string list \<Rightarrow> nat option" where
  "first_env P [] = None"
| "first_env P (x # xs) = (if P x then Some 0 else map_option Suc (first_env P xs))"


lemma first_env_None: "first_env P xs = None \<longleftrightarrow> (\<forall>x \<in> set xs. \<not> P x)"
  by (induction xs) auto

lemma find_env_spec:
  "find_env name nlen n (map Some xs @ None # r) =
    Some (case first_env (env_match name nlen) xs of None \<Rightarrow> -1 | Some i \<Rightarrow> int (n + i))"
  by (induction xs arbitrary: n) (auto split: option.splits)


lemma libc_getenv_spec:
  assumes "env_ok e xs" "strchr_eq name = None"
  shows "libc_getenv e name = Some (case first_env (env_match name (length name)) xs of None \<Rightarrow> -1 | Some i \<Rightarrow> int i)"
proof -
  obtain r where "environ e = map Some xs @ None # r" using env_environ [OF assms(1)] by blast
  then show ?thesis using assms(2) by (simp add: libc_getenv_def find_env_spec split: option.split)
qed





section \<open>Setting a variable\<close>



lemma env_entry:
  assumes "CHR ''='' \<notin> set name"
  shows "env_match nm (length nm) (name @ ''='' @ val) \<longleftrightarrow> nm = name"
proof -
  have "env_key (name @ ''='' @ val) = name"
    unfolding env_key_def using assms by (subst takeWhile_append2) auto
  then show ?thesis unfolding env_match_key by auto
qed



section \<open>Failed growth\<close>

lemma find_env_overrun: "\<forall>x \<in> set xs. \<not> env_match name nlen x \<Longrightarrow> find_env name nlen n (map Some xs) = None"
  by (induction xs arbitrary: n) auto

text \<open>When a full environment cannot grow, its capacity is already doubled: the next variable overwrites the
  null pointer at the end of the array, and looking for a name that is not there runs over its end.\<close>

lemma resize_failure_overruns:
  assumes ok: "env_ok e xs" and full: "cap e \<noteq> 0" "cap e = cnt e"
    and name: "name \<noteq> []" "CHR ''='' \<notin> set name" "\<forall>x \<in> set xs. env_key x \<noteq> name"
    and nm: "CHR ''='' \<notin> set nm" "nm \<noteq> name" "\<forall>x \<in> set xs. env_key x \<noteq> nm"
  shows "\<exists>e1 e2. setenv e (Some name) val True True (False, b) = Some (-1, e1) \<and>
    setenv e1 (Some name) val True True (True, True) = Some (0, e2) \<and> getenv e2 nm = None"
proof -
  let ?s = "name @ ''='' @ val"
  let ?e1 = "e\<lparr>cap := 2 * cnt e\<rparr>"
  obtain os where e: "cnt e = length xs" "environ e = map Some xs @ [None]" "length os = length xs" "own e = Some (os @ [False])"
    using ok full by (auto simp: env_ok_def)
  have n: "strchr_eq name = None" "strchr_eq nm = None" using name(2) nm(1) by (simp_all add: strchr_eq_def)
  have "first_env (env_match name (length name)) xs = None"
    using name(3) by (simp add: first_env_None env_match_key)
  then have g: "libc_getenv e name = Some (-1)" using libc_getenv_spec [OF ok n(1)] by simp
  then have g1: "libc_getenv ?e1 name = Some (-1)" by (simp add: libc_getenv_def)
  have 1: "setenv e (Some name) val True True (False, b) = Some (-1, ?e1)"
    using g name n full by (simp add: setenv_def libc_putenv_def resize_environ_def)
  let ?e2 = "?e1\<lparr>cnt := Suc (length xs), environ := map Some xs @ [Some ?s], own := Some (os @ [True])\<rparr>"
  have 2: "setenv ?e1 (Some name) val True True (True, True) = Some (0, ?e2)"
    using g1 name n full e by (simp add: setenv_def libc_putenv_def release_env_def Let_def list_update_append nth_append)
  have "\<forall>x \<in> set (xs @ [?s]). \<not> env_match nm (length nm) x"
    using nm env_entry [OF name(2), of nm val] by (auto simp: env_match_key)
  from find_env_overrun [OF this, of 0] have "getenv ?e2 nm = None" using n(2) by (simp add: getenv_def libc_getenv_def)
  then show ?thesis using 1 2 by blast
qed

end
