(* ===== verification/LibcString.thy ===== *)
theory LibcString
  imports Prelude "HOL-Library.Monad_Syntax" "HOL-Library.List_Lexorder"
begin

text \<open>
  The memory and string functions of \<^verbatim>\<open>src/libc/string\<close> and the character classes of
  \<^verbatim>\<open>src/libc/ctype\<close>.  Memory is a function from addresses to bytes.  A loop that walks to a zero byte
  is a partial function whose value \<open>None\<close> stands for a run that never ends; a loop counted by a length is
  primitive recursive.  Pointer arguments and results are addresses, 0 is the null pointer.
\<close>

type_synonym memory = "nat \<Rightarrow> u8"

section \<open>Character classes (ctype)\<close>

definition isalnum :: "int \<Rightarrow> bool" where
  "isalnum c \<longleftrightarrow> (c \<ge> 0x30 \<and> c \<le> 0x39) \<or> (c \<ge> 0x41 \<and> c \<le> 0x5A) \<or> (c \<ge> 0x61 \<and> c \<le> 0x7A)"

definition isalpha :: "int \<Rightarrow> bool" where
  "isalpha c \<longleftrightarrow> (c \<ge> 0x41 \<and> c \<le> 0x5A) \<or> (c \<ge> 0x61 \<and> c \<le> 0x7A)"

definition isblank :: "int \<Rightarrow> bool" where
  "isblank c \<longleftrightarrow> c = 0x09 \<or> c = 0x20"

definition iscntrl :: "int \<Rightarrow> bool" where
  "iscntrl c \<longleftrightarrow> (c \<ge> 0 \<and> c \<le> 0x1F) \<or> c = 0x7F"

definition isdigit :: "int \<Rightarrow> bool" where
  "isdigit c \<longleftrightarrow> c \<ge> 0x30 \<and> c \<le> 0x39"

definition isspace :: "int \<Rightarrow> bool" where
  "isspace c \<longleftrightarrow> (c \<ge> 0x09 \<and> c \<le> 0x0D) \<or> c = 0x20"

definition isgraph :: "int \<Rightarrow> bool" where
  "isgraph c \<longleftrightarrow> \<not> iscntrl c \<and> \<not> isspace c"

definition islower :: "int \<Rightarrow> bool" where
  "islower c \<longleftrightarrow> c \<ge> 0x61 \<and> c \<le> 0x7A"

definition isprint :: "int \<Rightarrow> bool" where
  "isprint c \<longleftrightarrow> \<not> iscntrl c \<or> isspace c"

definition ispunct :: "int \<Rightarrow> bool" where
  "ispunct c \<longleftrightarrow> (c \<ge> 0x21 \<and> c \<le> 0x2F) \<or> (c \<ge> 0x3A \<and> c \<le> 0x40) \<or>
     (c \<ge> 0x5B \<and> c \<le> 0x60) \<or> (c \<ge> 0x7B \<and> c \<le> 0x7E)"

definition isupper :: "int \<Rightarrow> bool" where
  "isupper c \<longleftrightarrow> c \<ge> 0x41 \<and> c \<le> 0x5A"

definition isxdigit :: "int \<Rightarrow> bool" where
  "isxdigit c \<longleftrightarrow> (c \<ge> 0x30 \<and> c \<le> 0x39) \<or> (c \<ge> 0x41 \<and> c \<le> 0x46) \<or> (c \<ge> 0x61 \<and> c \<le> 0x66)"

definition tolower :: "int \<Rightarrow> int" where
  "tolower c = (if c \<ge> 0x41 \<and> c \<le> 0x5A then c + 32 else c)"

definition toupper :: "int \<Rightarrow> int" where
  "toupper c = (if c \<ge> 0x61 \<and> c \<le> 0x7A then c - 32 else c)"

text \<open>The conversions applied to an \<open>unsigned char\<close> and stored back into one.\<close>

definition lower8 :: "u8 \<Rightarrow> u8" where
  "lower8 b = word_of_int (tolower (uint b))"

definition upper8 :: "u8 \<Rightarrow> u8" where
  "upper8 b = word_of_int (toupper (uint b))"

section \<open>Memory blocks\<close>

primrec memset :: "memory \<Rightarrow> nat \<Rightarrow> u8 \<Rightarrow> nat \<Rightarrow> memory" where
  "memset m dp v 0 = m"
| "memset m dp v (Suc len) = memset (m(dp := v)) (dp + 1) v len"

primrec memcpy :: "memory \<Rightarrow> nat \<Rightarrow> nat \<Rightarrow> nat \<Rightarrow> memory" where
  "memcpy m dp sp 0 = m"
| "memcpy m dp sp (Suc len) = memcpy (m(dp := m sp)) (dp + 1) (sp + 1) len"

text \<open>The backward loop of \<open>memmove\<close>, with the pointers one past the bytes still to copy.\<close>

primrec memmove_down :: "memory \<Rightarrow> nat \<Rightarrow> nat \<Rightarrow> nat \<Rightarrow> memory" where
  "memmove_down m p1 p2 0 = m"
| "memmove_down m p1 p2 (Suc len) = memmove_down (m(p1 - 1 := m (p2 - 1))) (p1 - 1) (p2 - 1) len"

definition memmove :: "memory \<Rightarrow> nat \<Rightarrow> nat \<Rightarrow> nat \<Rightarrow> memory" where
  "memmove m dest src len =
    (if src < dest \<and> dest < src + len then memmove_down m (dest + len) (src + len) len
     else memcpy m dest src len)"

primrec memcmp :: "memory \<Rightarrow> nat \<Rightarrow> nat \<Rightarrow> nat \<Rightarrow> int" where
  "memcmp m p1 p2 0 = 0"
| "memcmp m p1 p2 (Suc len) =
    (if m p1 \<noteq> m p2 then (if m p1 < m p2 then -1 else 1) else memcmp m (p1 + 1) (p2 + 1) len)"

primrec memchr :: "memory \<Rightarrow> nat \<Rightarrow> u8 \<Rightarrow> nat \<Rightarrow> nat" where
  "memchr m p v 0 = 0"
| "memchr m p v (Suc len) = (if m p = v then p else memchr m (p + 1) v len)"

section \<open>Length, copying, concatenation\<close>

partial_function (option) strlen_loop :: "memory \<Rightarrow> nat \<Rightarrow> nat \<Rightarrow> nat option" where
  "strlen_loop m str len = (if m str \<noteq> 0 then strlen_loop m (str + 1) (len + 1) else Some len)"

definition strlen :: "memory \<Rightarrow> nat \<Rightarrow> nat option" where
  "strlen m str = strlen_loop m str 0"

partial_function (option) strcpy :: "memory \<Rightarrow> nat \<Rightarrow> nat \<Rightarrow> memory option" where
  "strcpy m dest src =
    (if m src \<noteq> 0 then strcpy (m(dest := m src)) (dest + 1) (src + 1) else Some (m(dest := 0)))"

text \<open>The copying loop of \<open>strncpy\<close> and \<open>strscpy\<close>: the memory, the two pointers and the length left.\<close>

fun strncpy_loop :: "memory \<Rightarrow> nat \<Rightarrow> nat \<Rightarrow> nat \<Rightarrow> memory \<times> nat \<times> nat \<times> nat" where
  "strncpy_loop m dest src 0 = (m, dest, src, 0)"
| "strncpy_loop m dest src (Suc len) =
    (if m src \<noteq> 0 then strncpy_loop (m(dest := m src)) (dest + 1) (src + 1) len
     else (m, dest, src, Suc len))"

definition strncpy :: "memory \<Rightarrow> nat \<Rightarrow> nat \<Rightarrow> nat \<Rightarrow> memory" where
  "strncpy m dest src len =
    (case strncpy_loop m dest src len of (m, dest, src, len) \<Rightarrow> memset m dest 0 len)"

definition strscpy :: "memory \<Rightarrow> nat \<Rightarrow> nat \<Rightarrow> nat \<Rightarrow> int \<times> memory" where
  "strscpy m dest src len =
    (if len = 0 then (0, m)
     else case strncpy_loop m dest src len of (m, d, s, l) \<Rightarrow>
       let rlen = int (d - dest);
           (rlen, m) = (if l \<noteq> 0 then (rlen, m(d := 0)) else (rlen - 1, m(d - 1 := 0)))
       in (if m s \<noteq> 0 then -1 else rlen, m))"

partial_function (option) find_end :: "memory \<Rightarrow> nat \<Rightarrow> nat option" where
  "find_end m p = (if m p \<noteq> 0 then find_end m (p + 1) else Some p)"

definition strcat :: "memory \<Rightarrow> nat \<Rightarrow> nat \<Rightarrow> memory option" where
  "strcat m dest src = do { d \<leftarrow> find_end m dest; strcpy m d src }"

primrec strncat_loop :: "memory \<Rightarrow> nat \<Rightarrow> nat \<Rightarrow> nat \<Rightarrow> memory" where
  "strncat_loop m dest src 0 = m(dest := 0)"
| "strncat_loop m dest src (Suc len) =
    (if m src \<noteq> 0 then strncat_loop (m(dest := m src)) (dest + 1) (src + 1) len else m(dest := 0))"

definition strncat :: "memory \<Rightarrow> nat \<Rightarrow> nat \<Rightarrow> nat \<Rightarrow> memory option" where
  "strncat m dest src len = do { d \<leftarrow> find_end m dest; Some (strncat_loop m d src len) }"

text \<open>\<open>malloc\<close> is an argument: the address of a block of the given size, or 0.\<close>

definition strdup :: "(nat \<Rightarrow> nat) \<Rightarrow> memory \<Rightarrow> nat \<Rightarrow> (nat \<times> memory) option" where
  "strdup malloc m str = do {
     len \<leftarrow> strlen m str;
     let dst = malloc (len + 1);
     if dst = 0 then Some (0, m) else do { m \<leftarrow> strcpy m dst str; Some (dst, m) }
   }"

definition strxfrm :: "memory \<Rightarrow> nat \<Rightarrow> nat \<Rightarrow> nat \<Rightarrow> (nat \<times> memory) option" where
  "strxfrm m dest src n = do {
     n2 \<leftarrow> strlen m src;
     if n > n2 then do { m \<leftarrow> strcpy m dest src; Some (n2, m) } else Some (n2, m)
   }"

section \<open>Comparison\<close>

partial_function (option) strcmp :: "memory \<Rightarrow> nat \<Rightarrow> nat \<Rightarrow> int option" where
  "strcmp m p1 p2 =
    (if m p1 = m p2 then if m p1 = 0 then Some 0 else strcmp m (p1 + 1) (p2 + 1)
     else Some (if m p1 < m p2 then -1 else 1))"

definition strcoll :: "memory \<Rightarrow> nat \<Rightarrow> nat \<Rightarrow> int option" where
  "strcoll m s1 s2 = strcmp m s1 s2"

primrec strncmp :: "memory \<Rightarrow> nat \<Rightarrow> nat \<Rightarrow> nat \<Rightarrow> int" where
  "strncmp m p1 p2 0 = 0"
| "strncmp m p1 p2 (Suc len) =
    (if m p1 = m p2 then if m p1 = 0 then 0 else strncmp m (p1 + 1) (p2 + 1) len
     else if m p1 < m p2 then -1 else 1)"

partial_function (option) strcasecmp :: "memory \<Rightarrow> nat \<Rightarrow> nat \<Rightarrow> int option" where
  "strcasecmp m p1 p2 =
    (if lower8 (m p1) = lower8 (m p2)
     then if lower8 (m p1) = 0 then Some 0 else strcasecmp m (p1 + 1) (p2 + 1)
     else Some (if lower8 (m p1) < lower8 (m p2) then -1 else 1))"

primrec strncasecmp :: "memory \<Rightarrow> nat \<Rightarrow> nat \<Rightarrow> nat \<Rightarrow> int" where
  "strncasecmp m p1 p2 0 = 0"
| "strncasecmp m p1 p2 (Suc len) =
    (if lower8 (m p1) = lower8 (m p2)
     then if lower8 (m p1) = 0 then 0 else strncasecmp m (p1 + 1) (p2 + 1) len
     else if lower8 (m p1) < lower8 (m p2) then -1 else 1)"

section \<open>Searching\<close>

partial_function (option) strchr :: "memory \<Rightarrow> nat \<Rightarrow> u8 \<Rightarrow> nat option" where
  "strchr m str v = (if m str = v then Some str else if m str \<noteq> 0 then strchr m (str + 1) v else Some 0)"

partial_function (option) strrchr_loop :: "memory \<Rightarrow> nat \<Rightarrow> u8 \<Rightarrow> nat \<Rightarrow> nat option" where
  "strrchr_loop m str v rtnval =
    (let rtnval = (if m str = v then str else rtnval)
     in if m str \<noteq> 0 then strrchr_loop m (str + 1) v rtnval else Some rtnval)"

definition strrchr :: "memory \<Rightarrow> nat \<Rightarrow> u8 \<Rightarrow> nat option" where
  "strrchr m str v = strrchr_loop m str v 0"

partial_function (option) strstr_loop :: "memory \<Rightarrow> nat \<Rightarrow> nat \<Rightarrow> nat \<Rightarrow> nat option" where
  "strstr_loop m s1 s2 n =
    (if m s1 \<noteq> 0 then if memcmp m s1 s2 n = 0 then Some s1 else strstr_loop m (s1 + 1) s2 n
     else Some 0)"

definition strstr :: "memory \<Rightarrow> nat \<Rightarrow> nat \<Rightarrow> nat option" where
  "strstr m s1 s2 = do { n \<leftarrow> strlen m s2; strstr_loop m s1 s2 n }"

text \<open>The inner loop of \<open>strspn\<close>: the first position of \<open>accept\<close> that holds the byte, or its end.\<close>

partial_function (option) accept_loop :: "memory \<Rightarrow> u8 \<Rightarrow> nat \<Rightarrow> nat option" where
  "accept_loop m c a = (if m a \<noteq> 0 then if c = m a then Some a else accept_loop m c (a + 1) else Some a)"

partial_function (option) strspn_loop :: "memory \<Rightarrow> nat \<Rightarrow> nat \<Rightarrow> nat \<Rightarrow> nat option" where
  "strspn_loop m p accept count =
    (if m p \<noteq> 0
     then do {
       a \<leftarrow> accept_loop m (m p) accept;
       if m a = 0 then Some count else strspn_loop m (p + 1) accept (count + 1)
     }
     else Some count)"

definition strspn :: "memory \<Rightarrow> nat \<Rightarrow> nat \<Rightarrow> nat option" where
  "strspn m s accept = strspn_loop m s accept 0"

partial_function (option) strcspn_loop :: "memory \<Rightarrow> nat \<Rightarrow> nat \<Rightarrow> nat \<Rightarrow> nat option" where
  "strcspn_loop m s1 s2 ret =
    (if m s1 \<noteq> 0
     then do {
       p \<leftarrow> strchr m s2 (m s1);
       if p \<noteq> 0 then Some ret else strcspn_loop m (s1 + 1) s2 (ret + 1)
     }
     else Some ret)"

definition strcspn :: "memory \<Rightarrow> nat \<Rightarrow> nat \<Rightarrow> nat option" where
  "strcspn m s1 s2 = strcspn_loop m s1 s2 0"

partial_function (option) strpbrk :: "memory \<Rightarrow> nat \<Rightarrow> nat \<Rightarrow> nat option" where
  "strpbrk m cs ct =
    (if m cs \<noteq> 0
     then do {
       a \<leftarrow> accept_loop m (m cs) ct;
       if m a \<noteq> 0 then Some cs else strpbrk m (cs + 1) ct
     }
     else Some 0)"

section \<open>In-place functions\<close>

partial_function (option) strtok_skip :: "memory \<Rightarrow> nat \<Rightarrow> nat \<Rightarrow> nat \<Rightarrow> nat option" where
  "strtok_skip m str ct p =
    (if m p \<noteq> 0 \<and> m str \<noteq> 0
     then if m str = m p then strtok_skip m (str + 1) ct ct else strtok_skip m str ct (p + 1)
     else Some str)"

partial_function (option) strtok_find :: "memory \<Rightarrow> nat \<Rightarrow> nat \<Rightarrow> nat \<Rightarrow> (nat \<times> memory) option" where
  "strtok_find m tmp ct p =
    (if m tmp \<noteq> 0
     then if m p \<noteq> 0
       then if m tmp = m p then Some (tmp + 1, m(tmp := 0)) else strtok_find m tmp ct (p + 1)
       else strtok_find m (tmp + 1) ct ct
     else Some (0, m))"

text \<open>The result, the saved pointer and the memory.\<close>

definition strtok_r :: "memory \<Rightarrow> nat \<Rightarrow> nat \<Rightarrow> nat \<Rightarrow> (nat \<times> nat \<times> memory) option" where
  "strtok_r m str ct sp =
    (if str = 0 \<and> sp = 0 then Some (0, sp, m)
     else do {
       str \<leftarrow> strtok_skip m (if str = 0 then sp else str) ct ct;
       if m str = 0 then Some (0, 0, m)
       else do { (sp, m) \<leftarrow> strtok_find m str ct ct; Some (str, sp, m) }
     })"

text \<open>\<open>strtok\<close> keeps the saved pointer in a static variable, passed here as its state.\<close>

definition strtok :: "memory \<Rightarrow> nat \<Rightarrow> nat \<Rightarrow> nat \<Rightarrow> (nat \<times> nat \<times> memory) option" where
  "strtok m str ct static_sp = strtok_r m str ct static_sp"

function strrev_loop :: "memory \<Rightarrow> nat \<Rightarrow> nat \<Rightarrow> memory" where
  "strrev_loop m s e = (if s < e then strrev_loop (m(s := m e, e := m s)) (s + 1) (e - 1) else m)"
  by pat_completeness auto
termination
  by (relation "measure (\<lambda>(m, s, e). e - s)") auto

text \<open>For the empty string the end pointer of the source lies before the start; the loop does not run.\<close>

definition strrev :: "memory \<Rightarrow> nat \<Rightarrow> memory option" where
  "strrev m str = do { e \<leftarrow> find_end m str; Some (strrev_loop m str (e - 1)) }"

partial_function (option) skip_space :: "memory \<Rightarrow> nat \<Rightarrow> nat option" where
  "skip_space m p = (if isspace (uint (m p)) then skip_space m (p + 1) else Some p)"

partial_function (option) skip_space_back :: "memory \<Rightarrow> nat \<Rightarrow> nat option" where
  "skip_space_back m p = (if isspace (uint (m p)) then if p = 0 then None else skip_space_back m (p - 1) else Some p)"

function strtrim_copy :: "memory \<Rightarrow> nat \<Rightarrow> nat \<Rightarrow> nat \<Rightarrow> memory" where
  "strtrim_copy m dest start fin =
    (if start \<le> fin then strtrim_copy (m(dest := m start)) (dest + 1) (start + 1) fin else m(dest := 0))"
  by pat_completeness auto
termination
  by (relation "measure (\<lambda>(m, dest, start, fin). Suc fin - start)") auto

definition strtrim :: "memory \<Rightarrow> nat \<Rightarrow> nat \<Rightarrow> memory option" where
  "strtrim m dest src = do {
     len \<leftarrow> strlen m src;
     if len = 0 then Some (m(dest := 0))
     else do {
       start \<leftarrow> skip_space m src;
       fin \<leftarrow> skip_space_back m (src + len - 1);
       Some (strtrim_copy m dest start fin)
     }
   }"

partial_function (option) strtolower :: "memory \<Rightarrow> nat \<Rightarrow> memory option" where
  "strtolower m p = (if m p \<noteq> 0 then strtolower (m(p := lower8 (m p))) (p + 1) else Some m)"

partial_function (option) strtoupper :: "memory \<Rightarrow> nat \<Rightarrow> memory option" where
  "strtoupper m p = (if m p \<noteq> 0 then strtoupper (m(p := upper8 (m p))) (p + 1) else Some m)"

declare strrev_loop.simps [simp del] strtrim_copy.simps [simp del]

section \<open>Strings in memory\<close>

text \<open>The memory holds the string \<open>s\<close> of non-zero bytes at \<open>p\<close>, followed by a zero byte.\<close>

fun cstr :: "memory \<Rightarrow> nat \<Rightarrow> u8 list \<Rightarrow> bool" where
  "cstr m p [] \<longleftrightarrow> m p = 0"
| "cstr m p (c # s) \<longleftrightarrow> m p = c \<and> c \<noteq> 0 \<and> cstr m (p + 1) s"

lemma cstr_nth: "cstr m p s \<Longrightarrow> i < length s \<Longrightarrow> m (p + i) = s ! i \<and> s ! i \<noteq> 0"
proof (induction s arbitrary: p i)
  case (Cons c s)
  then show ?case
    by (cases i) fastforce+
qed simp

lemma cstr_end: "cstr m p s \<Longrightarrow> m (p + length s) = 0"
  by (induction s arbitrary: p) fastforce+

lemma cstr_iff: "cstr m p s \<longleftrightarrow> (\<forall>i < length s. m (p + i) = s ! i \<and> s ! i \<noteq> 0) \<and> m (p + length s) = 0"
proof (induction s arbitrary: p)
  case (Cons c s)
  show ?case
    unfolding cstr.simps Cons.IH
    by (simp add: All_less_Suc2)
qed simp

lemma cstr_no_zero: "cstr m p s \<Longrightarrow> 0 \<notin> set s"
  by (induction s arbitrary: p) auto

lemma cstr_cong: "(\<And>a. p \<le> a \<Longrightarrow> a \<le> p + length s \<Longrightarrow> m' a = m a) \<Longrightarrow> cstr m' p s = cstr m p s"
  unfolding cstr_iff by simp

lemma cstr_unique: "cstr m p s \<Longrightarrow> cstr m p t \<Longrightarrow> s = t"
proof (induction s arbitrary: p t)
  case Nil
  then show ?case by (cases t) auto
next
  case (Cons c s)
  then show ?case by (cases t) auto
qed

section \<open>Correctness of the block functions\<close>

lemma memset_apply: "memset m dp v len a = (if dp \<le> a \<and> a < dp + len then v else m a)"
  by (induction len arbitrary: m dp) auto

lemma memcpy_apply:
  assumes "dp \<le> sp \<or> sp + len \<le> dp"
  shows "memcpy m dp sp len a = (if dp \<le> a \<and> a < dp + len then m (sp + (a - dp)) else m a)"
  using assms
proof (induction len arbitrary: m dp sp)
  case (Suc len)
  show ?case
    using Suc.prems by (subst memcpy.simps, subst Suc.IH) (auto intro!: arg_cong [of _ _ m])
qed auto

lemma memmove_down_apply:
  assumes "sp \<le> dp"
  shows "memmove_down m (dp + len) (sp + len) len a = (if dp \<le> a \<and> a < dp + len then m (sp + (a - dp)) else m a)"
proof (induction len arbitrary: m)
  case (Suc len)
  show ?case
    using assms by (simp add: Suc.IH) auto
qed auto

text \<open>C18. \<open>memmove\<close> copies \<open>len\<close> bytes as if through a temporary buffer, whatever the overlap of the two
  blocks, and changes nothing else.\<close>

theorem memmove_correct:
  "memmove m dest src len a = (if dest \<le> a \<and> a < dest + len then m (src + (a - dest)) else m a)"
proof (cases "src < dest \<and> dest < src + len")
  case True
  then show ?thesis
    by (simp add: memmove_def memmove_down_apply)
next
  case False
  then have "dest \<le> src \<or> src + len \<le> dest" by linarith
  then show ?thesis
    using False by (simp only: memmove_def if_False memcpy_apply)
qed

lemma memcmp_zero: "memcmp m p q len = 0 \<longleftrightarrow> (\<forall>i < len. m (p + i) = m (q + i))"
  by (induction len arbitrary: p q) (auto simp: All_less_Suc2)

lemma memchr_found:
  "i < len \<Longrightarrow> m (p + i) = v \<Longrightarrow> (\<And>j. j < i \<Longrightarrow> m (p + j) \<noteq> v) \<Longrightarrow> memchr m p v len = p + i"
proof (induction len arbitrary: p i)
  case (Suc len)
  show ?case
  proof (cases i)
    case (Suc j)
    have "memchr m (p + 1) v len = p + 1 + j"
      using Suc.prems Suc \<open>i = Suc j\<close> by (intro Suc.IH) force+
    then show ?thesis
      using Suc.prems(3) [of 0] \<open>i = Suc j\<close> by simp
  qed (use Suc.prems in simp)
qed simp

lemma memchr_missing: "(\<And>i. i < len \<Longrightarrow> m (p + i) \<noteq> v) \<Longrightarrow> memchr m p v len = 0"
proof (induction len arbitrary: p)
  case (Suc len)
  have "memchr m (p + 1) v len = 0"
    using Suc.prems [of "Suc _"] by (intro Suc.IH) simp
  then show ?case
    using Suc.prems [of 0] by simp
qed simp

section \<open>Correctness of the string functions\<close>

lemma strlen_loop_cstr: "cstr m p s \<Longrightarrow> strlen_loop m p n = Some (n + length s)"
  by (induction s arbitrary: p n) (subst strlen_loop.simps, simp)+

lemma strlen_cstr: "cstr m p s \<Longrightarrow> strlen m p = Some (length s)"
  by (simp add: strlen_def strlen_loop_cstr)

lemma find_end_cstr: "cstr m p s \<Longrightarrow> find_end m p = Some (p + length s)"
  by (induction s arbitrary: p) (subst find_end.simps, simp)+

text \<open>The memory with the bytes \<open>s\<close> stored from \<open>p\<close> on.\<close>

definition put_bytes :: "memory \<Rightarrow> nat \<Rightarrow> u8 list \<Rightarrow> memory" where
  "put_bytes m p s = (\<lambda>a. if p \<le> a \<and> a < p + length s then s ! (a - p) else m a)"

lemma put_bytes_Nil [simp]: "put_bytes m p [] = m"
  by (rule ext) (auto simp: put_bytes_def)

lemma put_bytes_Cons: "put_bytes m p (c # s) = put_bytes (m(p := c)) (p + 1) s"
  by (rule ext) (auto simp: put_bytes_def nth_Cons')

lemma put_bytes_cstr: "0 \<notin> set s \<Longrightarrow> cstr (put_bytes m p (s @ [0])) p s"
  by (auto simp: cstr_iff put_bytes_def nth_append in_set_conv_nth)

lemma strcpy_cstr:
  assumes "cstr m src s" "dest \<le> src \<or> src + length s < dest"
  shows "strcpy m dest src = Some (put_bytes m dest (s @ [0]))"
  using assms
proof (induction s arbitrary: m dest src)
  case (Cons c s)
  have "cstr (m(dest := c)) (src + 1) s"
    using Cons.prems by (subst cstr_cong [of _ _ _ m]) auto
  then show ?case
    using Cons.prems Cons.IH [of "m(dest := c)" "src + 1" "dest + 1"]
    by (subst strcpy.simps) (simp only: put_bytes_Cons cstr.simps append_Cons list.size, fastforce)
qed (subst strcpy.simps, simp add: put_bytes_Cons)

lemma strcat_cstr:
  assumes "cstr m dest s" "cstr m src t"
    and "dest + length s \<le> src \<or> src + length t < dest + length s"
  shows "strcat m dest src = Some (put_bytes m (dest + length s) (t @ [0]))"
  using assms by (simp add: strcat_def find_end_cstr strcpy_cstr)

lemma strcmp_cstr:
  "cstr m p s \<Longrightarrow> cstr m q t \<Longrightarrow> strcmp m p q = Some (if s = t then 0 else if s < t then -1 else 1)"
proof (induction s arbitrary: p q t)
  case Nil
  then show ?case by (cases t) (subst strcmp.simps, auto simp: word_greater_zero_iff)+
next
  case (Cons c s)
  then show ?case by (cases t) (subst strcmp.simps, auto simp: word_greater_zero_iff)+
qed

lemma strchr_found:
  "cstr m p s \<Longrightarrow> c \<in> set s \<Longrightarrow> strchr m p c = Some (p + length (takeWhile (\<lambda>x. x \<noteq> c) s))"
  by (induction s arbitrary: p) (subst strchr.simps, auto)+

lemma strchr_missing: "cstr m p s \<Longrightarrow> c \<notin> set s \<Longrightarrow> c \<noteq> 0 \<Longrightarrow> strchr m p c = Some 0"
  by (induction s arbitrary: p) (subst strchr.simps, auto)+

lemma accept_loop_cstr:
  assumes "cstr m a s" "c \<noteq> 0"
  obtains b where "accept_loop m c a = Some b" "m b = 0 \<longleftrightarrow> c \<notin> set s"
  using assms(1)
proof (induction s arbitrary: a thesis)
  case Nil
  then show ?case
    by (intro Nil.prems(1) [of a]) (subst accept_loop.simps, simp_all)
next
  case (Cons x s)
  show ?case
  proof (cases "c = x")
    case True
    then show ?thesis
      using Cons.prems by (intro Cons.prems(1) [of a]) (subst accept_loop.simps, simp_all)
  next
    case False
    from Cons.prems obtain b where "accept_loop m c (a + 1) = Some b" "m b = 0 \<longleftrightarrow> c \<notin> set s"
      using Cons.IH [of "a + 1"] by auto
    then show ?thesis
      using False Cons.prems by (intro Cons.prems(1) [of b]) (subst accept_loop.simps, simp_all)
  qed
qed

lemma strspn_loop_cstr:
  assumes "cstr m a t"
  shows "cstr m p s \<Longrightarrow> strspn_loop m p a n = Some (n + length (takeWhile (\<lambda>x. x \<in> set t) s))"
proof (induction s arbitrary: p n)
  case (Cons c s)
  obtain b where "accept_loop m c a = Some b" "m b = 0 \<longleftrightarrow> c \<notin> set t"
    using accept_loop_cstr [of m a t c] assms Cons.prems by auto
  then show ?case
    using Cons by (subst strspn_loop.simps) auto
qed (subst strspn_loop.simps, simp)

lemma strspn_cstr:
  "cstr m a t \<Longrightarrow> cstr m p s \<Longrightarrow> strspn m p a = Some (length (takeWhile (\<lambda>x. x \<in> set t) s))"
  by (simp add: strspn_def strspn_loop_cstr)

lemma strcspn_loop_cstr:
  assumes "cstr m a t" "0 < a"
  shows "cstr m p s \<Longrightarrow> strcspn_loop m p a n = Some (n + length (takeWhile (\<lambda>x. x \<notin> set t) s))"
proof (induction s arbitrary: p n)
  case (Cons c s)
  then show ?case
    using assms by (subst strcspn_loop.simps, cases "c \<in> set t") (auto simp: strchr_found strchr_missing)
qed (subst strcspn_loop.simps, simp)

lemma strcspn_cstr:
  "cstr m a t \<Longrightarrow> 0 < a \<Longrightarrow> cstr m p s \<Longrightarrow> strcspn m p a = Some (length (takeWhile (\<lambda>x. x \<notin> set t) s))"
  by (simp add: strcspn_def strcspn_loop_cstr)

text \<open>C19. \<open>strcmp\<close> on two strings returns, and its sign is the lexicographic order of their bytes.\<close>

theorem strcmp_lexicographic:
  assumes "cstr m p s" "cstr m q t"
  shows "strcmp m p q = Some (if s = t then 0 else if s < t then -1 else 1)"
  using assms by (rule strcmp_cstr)

theorem strcmp_lexicographic_witness:
  "strcmp (put_bytes (\<lambda>a. 0) 1 [97, 98, 99, 0, 97, 98, 100]) 1 5 = Some (-1)"
proof -
  let ?m = "put_bytes (\<lambda>a. 0) 1 [97, 98, 99, 0, 97, 98, 100] :: memory"
  have "cstr ?m 1 [97, 98, 99]" "cstr ?m 5 [97, 98, 100]"
    by (simp_all add: put_bytes_def)
  from strcmp_lexicographic [OF this] show ?thesis
    by simp
qed

section \<open>Bounded copies\<close>

lemma strncpy_loop_cstr:
  assumes "cstr m src s" "dest + len \<le> src \<or> src + length s < dest"
  shows "strncpy_loop m dest src len =
    (put_bytes m dest (take len s), dest + min len (length s), src + min len (length s), len - length s)"
  using assms
proof (induction s arbitrary: m dest src len)
  case Nil
  then show ?case by (cases len) auto
next
  case (Cons c s)
  show ?case
  proof (cases len)
    case (Suc l)
    have "cstr (m(dest := c)) (src + 1) s"
      using Cons.prems Suc by (subst cstr_cong [of _ _ _ m]) auto
    then have "strncpy_loop (m(dest := c)) (dest + 1) (src + 1) l =
      (put_bytes (m(dest := c)) (dest + 1) (take l s), dest + 1 + min l (length s), src + 1 + min l (length s), l - length s)"
      using Cons.prems Suc by (intro Cons.IH) (simp_all only: list.size, linarith+)
    then show ?thesis
      using Cons.prems Suc by (simp add: put_bytes_Cons)
  qed simp
qed

lemma put_bytes_snoc: "(put_bytes m p s)(p + length s := c) = put_bytes m p (s @ [c])"
  by (rule ext) (auto simp: put_bytes_def nth_append)

lemma put_bytes_last: "s \<noteq> [] \<Longrightarrow> (put_bytes m p s)(p + length s - 1 := c) = put_bytes m p (butlast s @ [c])"
  by (cases s rule: rev_cases) (auto simp: put_bytes_def nth_append fun_eq_iff)

lemma put_bytes_other: "a < p \<or> p + length s \<le> a \<Longrightarrow> put_bytes m p s a = m a"
  by (auto simp: put_bytes_def)

lemma strscpy_cstr:
  assumes "cstr m src s" "dest + len \<le> src \<or> src + length s < dest" "0 < len"
  shows "strscpy m dest src len =
    (if len < length s then -1 else int (min (len - 1) (length s)), put_bytes m dest (take (len - 1) s @ [0]))"
proof (cases "length s < len")
  case True
  have "put_bytes m dest (s @ [0]) (src + length s) = 0"
    using assms True cstr_end [OF assms(1)] by (subst put_bytes_other) auto
  then show ?thesis
    using assms True by (simp add: strscpy_def strncpy_loop_cstr put_bytes_snoc)
next
  case False
  have b: "butlast (take len s) = take (len - 1) s"
    using False by (simp add: butlast_take)
  have u: "(put_bytes m dest (take len s))(dest + len - Suc 0 := 0) = put_bytes m dest (take (len - 1) s @ [0])"
    using put_bytes_last [of "take len s" m dest 0] assms(3) False
    unfolding b by fastforce
  have "put_bytes m dest (take (len - 1) s @ [0]) (src + len) = m (src + len)"
    using assms False by (intro put_bytes_other) auto
  moreover have "m (src + len) = 0 \<longleftrightarrow> len = length s"
    using False cstr_nth [OF assms(1), of len] cstr_end [OF assms(1)] by (cases "len = length s") auto
  ultimately show ?thesis
    using assms False by (simp add: strscpy_def strncpy_loop_cstr u)
qed

text \<open>C20. \<open>strscpy\<close> stores at most \<open>len\<close> bytes at the destination, always a terminated prefix of the source,
  and reports how many bytes it copied; it reports a destination that is too small only for a source longer
  than \<open>len\<close>, not for one of exactly \<open>len\<close> bytes, whose last byte is dropped.\<close>

theorem strscpy_bounds:
  assumes "cstr m src s" "dest + len \<le> src \<or> src + length s < dest" "0 < len"
    and "strscpy m dest src len = (r, m')"
  shows "cstr m' dest (take (len - 1) s) \<and>
    (a < dest \<or> dest + len \<le> a \<longrightarrow> m' a = m a) \<and>
    r = (if len < length s then -1 else int (min (len - 1) (length s)))"
proof -
  have m': "m' = put_bytes m dest (take (len - 1) s @ [0])"
    and r: "r = (if len < length s then -1 else int (min (len - 1) (length s)))"
    using assms(4) by (simp_all add: strscpy_cstr [OF assms(1-3)])
  have "cstr m' dest (take (len - 1) s)"
    unfolding m' using cstr_no_zero [OF assms(1)] by (intro put_bytes_cstr) (auto dest: in_set_takeD)
  moreover have "m' a = m a" if "a < dest \<or> dest + len \<le> a"
    unfolding m' using that assms(3) by (intro put_bytes_other) auto
  ultimately show ?thesis
    using r by blast
qed

theorem strscpy_bounds_witness:
  "fst (strscpy (put_bytes (\<lambda>a. 0) 1 [97, 98, 99]) 8 1 3) = 2 \<and>
   cstr (snd (strscpy (put_bytes (\<lambda>a. 0) 1 [97, 98, 99]) 8 1 3)) 8 [97, 98]"
proof -
  have "cstr (put_bytes (\<lambda>a. 0) 1 [97, 98, 99]) 1 [97, 98, 99]"
    by (simp add: put_bytes_def)
  from strscpy_bounds [OF this _ _ surjective_pairing, of 8 3] show ?thesis
    by simp
qed

section \<open>Reversing and tokens\<close>

lemma strrev_loop_apply: "strrev_loop m s e a = (if s \<le> a \<and> a \<le> e then m (s + e - a) else m a)"
proof (induction m s e rule: strrev_loop.induct)
  case (1 m s e)
  show ?case
  proof (cases "s < e")
    case True
    have IH: "strrev_loop (m(s := m e, e := m s)) (s + 1) (e - 1) a =
      (if s + 1 \<le> a \<and> a \<le> e - 1 then (m(s := m e, e := m s)) (s + 1 + (e - 1) - a) else (m(s := m e, e := m s)) a)"
      by (rule 1 [OF True])
    show ?thesis
      unfolding strrev_loop.simps [of m s e] if_P [OF True] IH using True by auto
  next
    case False
    then show ?thesis
      by (subst strrev_loop.simps) (auto intro!: arg_cong [of _ _ m])
  qed
qed

lemma strrev_cstr:
  assumes "cstr m p s"
  shows "strrev m p = Some (put_bytes m p (rev s))"
proof -
  have "strrev_loop m p (p + length s - 1) a = put_bytes m p (rev s) a" for a
  proof (cases "p \<le> a \<and> a < p + length s")
    case True
    then have "m (p + (length s - Suc (a - p))) = s ! (length s - Suc (a - p))"
      using cstr_nth [OF assms, of "length s - Suc (a - p)"] by auto
    moreover have "p + (p + length s - 1) - a = p + (length s - Suc (a - p))"
      using True by simp
    moreover have "rev s ! (a - p) = s ! (length s - Suc (a - p))"
      using True by (intro rev_nth) auto
    ultimately show ?thesis
      using True by (simp only: strrev_loop_apply put_bytes_def length_rev simp_thms if_True) force
  qed (auto simp: strrev_loop_apply put_bytes_def intro!: arg_cong [of _ _ m])
  then show ?thesis
    using assms by (auto simp: strrev_def find_end_cstr)
qed

lemma strtok_skip_char:
  assumes "m str \<noteq> 0"
  shows "cstr m p d \<Longrightarrow>
    strtok_skip m str ct p = (if m str \<in> set d then strtok_skip m (str + 1) ct ct else Some str)"
proof (induction d arbitrary: p)
  case (Cons c d)
  then show ?case
    using assms by (subst strtok_skip.simps) auto
qed (subst strtok_skip.simps, simp)

lemma strtok_skip_cstr:
  assumes "cstr m ct d"
  shows "cstr m str s \<Longrightarrow> strtok_skip m str ct ct = Some (str + length (takeWhile (\<lambda>x. x \<in> set d) s))"
proof (induction s arbitrary: str)
  case Nil
  then show ?case by (subst strtok_skip.simps) simp
next
  case (Cons c s)
  then show ?case
    by (subst strtok_skip_char [OF _ assms]) auto
qed

lemma strtok_find_char:
  assumes "m tmp \<noteq> 0"
  shows "cstr m p d \<Longrightarrow> strtok_find m tmp ct p =
    (if m tmp \<in> set d then Some (tmp + 1, m(tmp := 0)) else strtok_find m (tmp + 1) ct ct)"
proof (induction d arbitrary: p)
  case Nil
  then show ?case
    using assms by (subst strtok_find.simps) simp
next
  case (Cons c d)
  then show ?case
    using assms by (subst strtok_find.simps) auto
qed

lemma strtok_find_cstr:
  assumes "cstr m ct d"
  shows "cstr m tmp s \<Longrightarrow> strtok_find m tmp ct ct =
    (let k = length (takeWhile (\<lambda>x. x \<notin> set d) s)
     in if k < length s then Some (tmp + k + 1, m(tmp + k := 0)) else Some (0, m))"
proof (induction s arbitrary: tmp)
  case Nil
  then show ?case by (subst strtok_find.simps) simp
next
  case (Cons c s)
  then show ?case
    by (subst strtok_find_char [OF _ assms]) (auto simp: Let_def)
qed

lemma cstr_drop: "cstr m p s \<Longrightarrow> k \<le> length s \<Longrightarrow> cstr m (p + k) (drop k s)"
  unfolding cstr_iff by (auto simp: add.assoc less_diff_conv add.commute add.left_commute)

lemma cstr_cut: "cstr m p s \<Longrightarrow> k \<le> length s \<Longrightarrow> cstr (m(p + k := 0)) p (take k s)"
  unfolding cstr_iff by auto

text \<open>C14. A call of \<open>strtok_r\<close> skips leading delimiters; if nothing is left it returns the null pointer and
  clears the saved pointer.  Otherwise it returns the first maximal run of non-delimiters as a terminated
  string, and the saved pointer addresses what follows the delimiter after it, or is null at the end.\<close>

theorem strtok_r_token:
  assumes "cstr m str s" "cstr m ct d" "0 < str"
  defines "rest \<equiv> dropWhile (\<lambda>x. x \<in> set d) s"
  defines "tok \<equiv> takeWhile (\<lambda>x. x \<notin> set d) rest"
  shows "\<exists>r sp' m'. strtok_r m str ct sp = Some (r, sp', m') \<and>
    (if rest = [] then r = 0 \<and> sp' = 0 \<and> m' = m
     else 0 < r \<and> cstr m' r tok \<and>
       (if tok = rest then sp' = 0 else cstr m' sp' (drop (length tok + 1) rest)))"
proof -
  define r where "r = str + length (takeWhile (\<lambda>x. x \<in> set d) s)"
  have skip: "strtok_skip m str ct ct = Some r"
    using strtok_skip_cstr [OF assms(2,1)] by (simp add: r_def)
  have "0 < r"
    using assms(3) by (simp add: r_def)
  have "rest = drop (length (takeWhile (\<lambda>x. x \<in> set d) s)) s"
    by (simp add: rest_def dropWhile_eq_drop)
  then have rest: "cstr m r rest"
    unfolding r_def using assms(1) by (simp add: cstr_drop length_takeWhile_le)
  have len: "length tok < length rest \<longleftrightarrow> tok \<noteq> rest"
    unfolding tok_def by (metis less_irrefl nat_less_le length_takeWhile_le takeWhile_eq_take take_all_iff)
  have tok: "tok = take (length tok) rest"
    unfolding tok_def by (rule takeWhile_eq_take)
  have nz: "m r = 0 \<longleftrightarrow> rest = []"
    using rest by (cases rest) auto
  have find: "strtok_find m r ct ct =
    (if tok \<noteq> rest then Some (r + length tok + 1, m(r + length tok := 0)) else Some (0, m))"
    using strtok_find_cstr [OF assms(2) rest] len by (simp add: tok_def Let_def)
  show ?thesis
  proof (cases "rest = [] \<or> tok = rest")
    case True
    then show ?thesis
      using assms(3) nz rest \<open>0 < r\<close> by (auto simp: strtok_r_def skip find)
  next
    case False
    have "cstr (m(r + length tok := 0)) r tok"
      using cstr_cut [OF rest, of "length tok"] tok False len by simp
    moreover have "cstr (m(r + length tok := 0)) (r + length tok + 1) (drop (length tok + 1) rest)"
      using cstr_drop [OF rest, of "length tok + 1"] len False
      by (subst cstr_cong [of _ _ _ m]) (auto simp: Suc_le_eq)
    ultimately show ?thesis
      using assms(3) nz False \<open>0 < r\<close> by (auto simp: strtok_r_def skip find)
  qed
qed

theorem strtok_r_token_witness:
  "\<exists>sp' m'. strtok_r (put_bytes (\<lambda>a. 0) 1 [47, 97, 98, 47, 99, 0, 47]) 1 7 0 = Some (2, sp', m') \<and>
     cstr m' 2 [97, 98] \<and> cstr m' sp' [99]"
proof -
  let ?m = "put_bytes (\<lambda>a. 0) 1 [47, 97, 98, 47, 99, 0, 47] :: memory"
  have "cstr ?m 1 [47, 97, 98, 47, 99]" "cstr ?m 7 [47]"
    by (simp_all add: put_bytes_def)
  from strtok_r_token [OF this, of 0] obtain r sp' m' where
    res: "strtok_r ?m 1 7 0 = Some (r, sp', m')" and c: "cstr m' r [97, 98]" "cstr m' sp' [99]"
    by auto
  have "r = 2"
    using res strtok_skip_cstr [of ?m 7 "[47]" 1 "[47, 97, 98, 47, 99]"]
    by (auto simp: strtok_r_def put_bytes_def split: if_splits bind_splits)
  then show ?thesis
    using res c by blast
qed

section \<open>Error messages\<close>

datatype errno =
    EOK | ENOSYS | EPERM | EBUSY | ENXIO | ENOENT | ENOTDIR
  | EISDIR | ENOTEMPTY | ENODEV | ENOFS | ESRCH | ENOSPC | EXDEV
  | EDOM | ERANGE | EILSEQ | EROFS | EBADF | ENOIOCTL | ENAMETOOLONG
  | ENOEXEC | EFAIL | ENOMEM | EINVAL | ETMOUT | EIO | ENOTSUP
  | ENOINT | EINTR | EEXIST | ENOMEDIUM | ENOACK | EPIPE | EFAULT

text \<open>The position in the enumeration is the number of the error.\<close>

definition errno_codes :: "errno list" where
  "errno_codes =
    [EOK, ENOSYS, EPERM, EBUSY, ENXIO, ENOENT, ENOTDIR,
     EISDIR, ENOTEMPTY, ENODEV, ENOFS, ESRCH, ENOSPC, EXDEV,
     EDOM, ERANGE, EILSEQ, EROFS, EBADF, ENOIOCTL, ENAMETOOLONG,
     ENOEXEC, EFAIL, ENOMEM, EINVAL, ETMOUT, EIO, ENOTSUP,
     ENOINT, EINTR, EEXIST, ENOMEDIUM, ENOACK, EPIPE, EFAULT]"

fun strerror_text :: "errno \<Rightarrow> string option" where
  "strerror_text ENOSYS = Some ''Invalid system call''"
| "strerror_text EPERM = Some ''Operation not permitted''"
| "strerror_text EBUSY = Some ''Resource is busy''"
| "strerror_text ENXIO = Some ''No such device or address''"
| "strerror_text ENOENT = Some ''No such file or directory''"
| "strerror_text ENOTDIR = Some ''Not a directory''"
| "strerror_text EISDIR = Some ''Is a directory''"
| "strerror_text ENOTEMPTY = Some ''Directory is not empty''"
| "strerror_text ENODEV = Some ''No such device''"
| "strerror_text ENOFS = Some ''No such file system''"
| "strerror_text ESRCH = Some ''No such process''"
| "strerror_text ENOSPC = Some ''No space left''"
| "strerror_text EXDEV = Some ''Cross-device operation not permitted''"
| "strerror_text EDOM = Some ''Argument out of domain''"
| "strerror_text ERANGE = Some ''Argument out of range''"
| "strerror_text EILSEQ = Some ''Illegal byte sequence''"
| "strerror_text EROFS = Some ''Read-only file system''"
| "strerror_text EBADF = Some ''Bad file descriptor''"
| "strerror_text ENOIOCTL = Some ''No such ioctl command''"
| "strerror_text ENAMETOOLONG = Some ''Filename too long''"
| "strerror_text ENOEXEC = Some ''Invalid executable format''"
| "strerror_text EFAIL = Some ''Operation failed''"
| "strerror_text ENOMEM = Some ''Out of memory''"
| "strerror_text EINVAL = Some ''Invalid argument''"
| "strerror_text ETMOUT = Some ''Timeout''"
| "strerror_text EIO = Some ''IO error''"
| "strerror_text ENOTSUP = Some ''Not supported''"
| "strerror_text ENOINT = Some ''No interrupt received''"
| "strerror_text EINTR = Some ''Interrupted''"
| "strerror_text EEXIST = Some ''Object already exists''"
| "strerror_text ENOMEDIUM = Some ''No medium present''"
| "strerror_text ENOACK = Some ''No ACK from device''"
| "strerror_text EPIPE = Some ''Broken pipe''"
| "strerror_text EFAULT = Some ''Bad address''"
| "strerror_text EOK = None"

text \<open>Decimal digits, as the conversion \<open>%d\<close> prints them.\<close>

fun decimal :: "nat \<Rightarrow> string" where
  "decimal n = (if n < 10 then [] else decimal (n div 10)) @ [char_of (48 + n mod 10)]"

declare decimal.simps [simp del]

definition strerror :: "int \<Rightarrow> string" where
  "strerror errnum =
    (let n = nat \<bar>errnum\<bar>
     in case (if n < length errno_codes then strerror_text (errno_codes ! n) else None) of
          Some str \<Rightarrow> str
        | None \<Rightarrow> ''Unknown error '' @ decimal n)"

lemma strerror_negated: "strerror (- e) = strerror e"
  by (simp add: strerror_def)

lemma strerror_known: "e \<in> set (tl errno_codes) \<Longrightarrow> strerror_text e \<noteq> None"
  by (cases e) (simp_all add: errno_codes_def)

end
