(* ===== verification/LibcStdlib.thy ===== *)
theory LibcStdlib
  imports LibcString "HOL-Library.Signed_Division"
begin

unbundle bit_operations_syntax

text \<open>
  The general utilities of the C library, \<^verbatim>\<open>src/libc/stdlib\<close>: binary search, conversion of numbers, pseudo-random
  numbers, integer division, and the conversion between UTF-8 and wide characters.  Byte memory is that of
  \<open>LibcString\<close>; wide characters live in a memory of their own, addressed by element.
\<close>

section \<open>Searching\<close>

text \<open>The loop of \<open>bsearch\<close>; the comparison of the key with the element at an address is a parameter, as
  in the source, and the sum of the bounds wraps around at 64 bits.\<close>

partial_function (option) bsearch_loop :: "(nat \<Rightarrow> int) \<Rightarrow> nat \<Rightarrow> nat \<Rightarrow> nat \<Rightarrow> nat \<Rightarrow> nat option" where
  "bsearch_loop cmp bp sz lo hi =
    (if lo < hi
     then let mid = (lo + hi) mod 2 ^ 64 div 2;
              cp = bp + sz * mid;
              cval = cmp cp
          in if cval = 0 then Some cp
             else if cval < 0 then bsearch_loop cmp bp sz lo mid
             else bsearch_loop cmp bp sz (mid + 1) hi
     else Some 0)"

definition bsearch :: "'k \<Rightarrow> nat \<Rightarrow> nat \<Rightarrow> nat \<Rightarrow> ('k \<Rightarrow> nat \<Rightarrow> int) \<Rightarrow> nat option" where
  "bsearch key base num sz cmp = bsearch_loop (cmp key) base sz 0 num"

section \<open>Numbers\<close>

definition ctoi :: "int \<Rightarrow> int" where
  "ctoi ch = (if ch \<ge> 0x30 \<and> ch \<le> 0x39 then ch - 0x30
     else if ch \<ge> 0x41 \<and> ch \<le> 0x46 then 10 + ch - 0x41
     else if ch \<ge> 0x61 \<and> ch \<le> 0x66 then 10 + ch - 0x61
     else -1)"

text \<open>The digits of \<open>atoi\<close> and \<open>atol\<close>, without the overflow of the type, which C leaves undefined.
  Characters are those of an unsigned char; of the other ones the tests accept none.\<close>

partial_function (option) digits_loop :: "memory \<Rightarrow> nat \<Rightarrow> int \<Rightarrow> int option" where
  "digits_loop m s res =
    (if isdigit (uint (m s)) then digits_loop m (s + 1) (res * 10 + (uint (m s) - 0x30)) else Some res)"

definition atol :: "memory \<Rightarrow> nat \<Rightarrow> int option" where
  "atol m s = do {
     s \<leftarrow> skip_space m s;
     let sign = (if m s = 0x2D then -1 else 1);
     let s = (if m s = 0x2D \<or> m s = 0x2B then s + 1 else s);
     res \<leftarrow> digits_loop m s 0;
     Some (sign * res)
   }"

definition atoi :: "memory \<Rightarrow> nat \<Rightarrow> int option" where
  "atoi m s = do {
     s \<leftarrow> skip_space m s;
     let sign = (if m s = 0x2D then -1 else 1);
     let s = (if m s = 0x2D \<or> m s = 0x2B then s + 1 else s);
     res \<leftarrow> digits_loop m s 0;
     Some (sign * res)
   }"

record div_t =
  quot :: int
  rem :: int

text \<open>C division rounds towards zero; by zero it traps.\<close>

definition div_c :: "int \<Rightarrow> int \<Rightarrow> div_t option" where
  "div_c n d =
    (if d = 0 then None
     else let r = \<lparr>quot = n sdiv d, rem = n smod d\<rparr>
          in if n \<ge> 0 \<and> rem r < 0 then Some \<lparr>quot = quot r + 1, rem = rem r - d\<rparr> else Some r)"

definition RAND_MAX :: u64 where "RAND_MAX = 2147483647"

text \<open>The state is the static variable of the source.\<close>

definition rand :: "u64 \<Rightarrow> int \<times> u64" where
  "rand state = (let state = (1664525 * state + 1013904223) mod RAND_MAX in (uint state, state))"

definition srand :: "u32 \<Rightarrow> u64" where
  "srand seed = ucast seed"

section \<open>UTF-8\<close>

type_synonym wmemory = "nat \<Rightarrow> u32"

definition wctomb :: "memory \<Rightarrow> nat \<Rightarrow> u32 \<Rightarrow> int \<times> memory" where
  "wctomb m s wc =
    (if wc < 0x80 then (1, m(s := ucast wc))
     else if wc < 0x800
     then (2, m(s := ucast (0xC0 OR drop_bit 6 wc), s + 1 := ucast (0x80 OR (wc AND 0x3F))))
     else if wc \<ge> 0xD800 \<and> wc \<le> 0xDFFF then (-1, m)
     else if wc < 0x10000
     then (3, m(s := ucast (0xE0 OR drop_bit 12 wc), s + 1 := ucast (0x80 OR (drop_bit 6 wc AND 0x3F)),
                s + 2 := ucast (0x80 OR (wc AND 0x3F))))
     else if wc < 0x110000
     then (4, m(s := ucast (0xF0 OR drop_bit 18 wc), s + 1 := ucast (0x80 OR (drop_bit 12 wc AND 0x3F)),
                s + 2 := ucast (0x80 OR (drop_bit 6 wc AND 0x3F)), s + 3 := ucast (0x80 OR (wc AND 0x3F))))
     else (-1, m))"

lemma shift_less:
  assumes "(t :: u32) AND 0xC0 = 0xC0"
  shows "unat (push_bit 1 t AND 0xFF) < unat t"
proof -
  have "(0xFF :: u32) = mask 8" by (simp add: mask_eq_exp_minus_1)
  then have "push_bit 1 t AND 0xFF = take_bit 8 (2 * t)" by (simp add: take_bit_eq_mask push_bit_eq_mult mult.commute)
  then have e: "unat (push_bit 1 t AND 0xFF) = 2 * unat t mod 2 ^ 32 mod 2 ^ 8"
    by (simp add: take_bit_eq_mod unat_mod_distrib unat_word_ariths)
  have "t AND 0xC0 \<le> t" by (rule word_and_le2)
  then have ge: "192 \<le> unat t" using assms by (simp add: word_le_nat_alt)
  have "2 * unat t mod 2 ^ 32 mod 2 ^ 8 < 2 ^ 8" by simp
  moreover have "2 * unat t mod 2 ^ 32 mod 2 ^ 8 = 2 * unat t - 2 ^ 8" if "unat t < 2 ^ 8"
    using that ge by (simp add: le_mod_geq)
  ultimately show ?thesis unfolding e by (cases "unat t < 2 ^ 8") (use ge in auto)
qed

text \<open>The continuation bytes: the character assembled so far, or nothing after an illegal sequence.\<close>

function mb_loop :: "memory \<Rightarrow> nat \<Rightarrow> nat \<Rightarrow> nat \<Rightarrow> u32 \<Rightarrow> u32 \<Rightarrow> nat \<Rightarrow> nat \<Rightarrow> u32 \<Rightarrow> (nat \<times> u32) option" where
  "mb_loop m s n len t bit_mask bit_shift bit_total ch =
    (if t AND 0xC0 = 0xC0
     then if len = n then None
          else let v = ucast (m s) :: u32
               in if v AND 0xC0 \<noteq> 0x80 then None
                  else mb_loop m (s + 1) n (len + 1) (push_bit 1 t AND 0xFF) (drop_bit 1 bit_mask) (bit_shift + 1) (bit_total + 6)
                         (push_bit 6 ch OR (v AND 0x3F))
     else Some (len, ch OR push_bit bit_total (drop_bit bit_shift t AND bit_mask)))"
  by pat_completeness auto
termination
  by (relation "measure (\<lambda>(m, s, n, len, t, _). unat t)")
    (use shift_less in \<open>auto simp: push_bit_eq_mult\<close>)

declare mb_loop.simps [simp del]

text \<open>The status of \<open>mbtowc\<close> and the wide character it stores.  The test for a null pointer in the source
  comes after the increment and never holds; the first byte is read before \<open>n\<close> is tested.\<close>

definition mbtowc_char :: "memory \<Rightarrow> nat \<Rightarrow> nat \<Rightarrow> (int \<times> u32 option) option" where
  "mbtowc_char m str n =
    (if str = 0 then None
     else let v = ucast (m str) :: u32
          in if n = 0 then Some (-1, None)
             else if v < 128 then Some (of_bool (v > 0), Some v)
             else case mb_loop m (str + 1) n 1 v 0x3F 0 0 0 of
                    None \<Rightarrow> Some (-1, None)
                  | Some (len, ch) \<Rightarrow> Some (int len, Some ch))"

definition mbtowc :: "wmemory \<Rightarrow> memory \<Rightarrow> nat \<Rightarrow> nat \<Rightarrow> nat \<Rightarrow> (int \<times> wmemory) option" where
  "mbtowc w m wc str n = do {
     (st, r) \<leftarrow> mbtowc_char m str n;
     Some (st, case r of Some c \<Rightarrow> if wc = 0 then w else w(wc := c) | None \<Rightarrow> w)
   }"

definition mblen :: "memory \<Rightarrow> nat \<Rightarrow> nat \<Rightarrow> int option" where
  "mblen m s n = map_option fst (mbtowc (\<lambda>_. 0) m 0 s n)"

text \<open>The loop of \<open>mbstowcs\<close>.  Its condition tests the first character of the string each time.\<close>

function mbs_loop :: "wmemory \<Rightarrow> memory \<Rightarrow> nat \<Rightarrow> nat \<Rightarrow> nat \<Rightarrow> nat \<Rightarrow> nat \<Rightarrow> nat \<Rightarrow> (int \<times> wmemory) option" where
  "mbs_loop w m wcs str n sz len pos =
    (if sz < n \<and> m str \<noteq> 0
     then do {
       (st, w) \<leftarrow> mbtowc w m wcs (str + pos) (len - pos);
       if st < 0 then Some (-1, w) else mbs_loop w m (wcs + 1) str n (sz + 1) len (pos + nat st)
     }
     else Some (int sz, if sz < n then w(wcs := 0) else w))"
  by pat_completeness auto
termination
  by (relation "measure (\<lambda>(w, m, wcs, str, n, sz, len, pos). n - sz)") auto

declare mbs_loop.simps [simp del]

definition mbstowcs :: "wmemory \<Rightarrow> memory \<Rightarrow> nat \<Rightarrow> nat \<Rightarrow> nat \<Rightarrow> (int \<times> wmemory) option" where
  "mbstowcs w m wcs str n = do {
     len \<leftarrow> strlen m str;
     mbs_loop w m wcs str n 0 len 0
   }"

text \<open>The bytes that \<open>wctomb\<close> stores into the local buffer \<open>mbc\<close> of \<open>wcstombs\<close>, which is at address 0 here.\<close>

definition copy_mbc :: "memory \<Rightarrow> nat \<Rightarrow> memory \<Rightarrow> nat \<Rightarrow> memory" where
  "copy_mbc m dest mbc k = (\<lambda>a. if dest \<le> a \<and> a < dest + k then mbc (a - dest) else m a)"

lemma wctomb_status: "(st, m') = wctomb m s wc \<Longrightarrow> st = -1 \<or> 0 < st"
  by (auto simp: wctomb_def split: if_splits)

function wcs_loop :: "memory \<Rightarrow> wmemory \<Rightarrow> nat \<Rightarrow> nat \<Rightarrow> nat \<Rightarrow> nat \<Rightarrow> int \<times> nat \<times> memory" where
  "wcs_loop m w str wcs n sz =
    (if sz < n \<and> w wcs \<noteq> 0
     then case wctomb (\<lambda>_. 0) 0 (w wcs) of (st, mbc) \<Rightarrow>
       if st < 0 then (-1, sz, m)
       else if sz + nat st > n then (0, sz, m)
       else wcs_loop (copy_mbc m (str + sz) mbc (nat st)) w str (wcs + 1) n (sz + nat st)
     else (0, sz, m))"
  by pat_completeness auto
termination
  by (relation "measure (\<lambda>(m, w, str, wcs, n, sz). n - sz)") (use wctomb_status in fastforce)+

declare wcs_loop.simps [simp del]

definition wcstombs :: "memory \<Rightarrow> wmemory \<Rightarrow> nat \<Rightarrow> nat \<Rightarrow> nat \<Rightarrow> int \<times> memory" where
  "wcstombs m w str wcs n =
    (case wcs_loop m w str wcs n 0 of (st, sz, m) \<Rightarrow>
      if st < 0 then (-1, m) else (int sz, if sz < n then m(str + sz := 0) else m))"

section \<open>Binary search is correct\<close>

text \<open>The array is in order: the key compares less from some element on, and greater up to some element.\<close>

definition ordered :: "(nat \<Rightarrow> int) \<Rightarrow> nat \<Rightarrow> nat \<Rightarrow> nat \<Rightarrow> bool" where
  "ordered cmp bp sz num \<longleftrightarrow> (\<forall>i j. i < j \<and> j < num \<longrightarrow>
    (cmp (bp + sz * i) \<le> 0 \<longrightarrow> cmp (bp + sz * j) \<le> 0) \<and> (cmp (bp + sz * i) < 0 \<longrightarrow> cmp (bp + sz * j) < 0))"

lemma bsearch_loop_spec:
  assumes "hi \<le> num" "num < 2 ^ 63" "ordered cmp bp sz num"
    and "\<forall>i < num. cmp (bp + sz * i) = 0 \<longrightarrow> lo \<le> i \<and> i < hi"
  shows "\<exists>r. bsearch_loop cmp bp sz lo hi = Some r \<and>
    (r = 0 \<and> (\<forall>i < num. cmp (bp + sz * i) \<noteq> 0) \<or> (\<exists>i < num. r = bp + sz * i \<and> cmp r = 0))"
  using assms
proof (induction "hi - lo" arbitrary: lo hi rule: less_induct)
  case less
  show ?case
  proof (cases "lo < hi")
    case False
    then show ?thesis using less.prems(4) by (subst bsearch_loop.simps) auto
  next
    case True
    define mid where "mid = (lo + hi) div 2"
    have m: "(lo + hi) mod 2 ^ 64 div 2 = mid" using True less.prems(1,2) by (simp add: mid_def)
    have b: "lo \<le> mid" "mid < hi" using True by (simp_all add: mid_def)
    let ?c = "cmp (bp + sz * mid)"
    have r: "bsearch_loop cmp bp sz lo hi = (if ?c = 0 then Some (bp + sz * mid)
        else if ?c < 0 then bsearch_loop cmp bp sz lo mid else bsearch_loop cmp bp sz (mid + 1) hi)"
      unfolding bsearch_loop.simps [of cmp bp sz lo hi] m Let_def using True by (simp only: if_True)
    have o: "i < mid" if "i < num" "cmp (bp + sz * i) = 0" "?c < 0" for i
    proof (rule ccontr)
      assume "\<not> i < mid"
      then have "mid < i" using that(2,3) by (metis less_irrefl not_less_iff_gr_or_eq)
      then show False using less.prems(3) that unfolding ordered_def by (metis less_irrefl)
    qed
    have o2: "mid < i" if "i < num" "cmp (bp + sz * i) = 0" "?c > 0" for i
    proof (rule ccontr)
      assume "\<not> mid < i"
      then have "i < mid" using that(2,3) by (metis less_irrefl not_less_iff_gr_or_eq)
      moreover have "mid < num" using b less.prems(1) by simp
      ultimately have "?c \<le> 0" using less.prems(3) [unfolded ordered_def, THEN spec [of _ i], THEN spec [of _ mid]] that(2) by simp
      then show False using that(3) by simp
    qed
    consider "?c = 0" | "?c < 0" | "?c > 0" by linarith
    then show ?thesis
    proof cases
      case 1
      then show ?thesis using r b less.prems(1) by (metis less_le_trans)
    next
      case 2
      have "\<forall>i < num. cmp (bp + sz * i) = 0 \<longrightarrow> lo \<le> i \<and> i < mid" using less.prems(4) o 2 by blast
      then show ?thesis using less.hyps [of mid lo] b less.prems(1,2,3) 2 r by simp
    next
      case 3
      have "\<forall>i < num. cmp (bp + sz * i) = 0 \<longrightarrow> mid + 1 \<le> i \<and> i < hi" using less.prems(4) o2 3 by fastforce
      then show ?thesis using less.hyps [of hi "mid + 1"] b less.prems(1,2,3) 3 r by simp
    qed
  qed
qed

text \<open>C40. On an array in order with fewer than 2^63 elements, \<open>bsearch\<close> ends; it returns an element that
  compares equal to the key, and NULL exactly when there is none.\<close>

theorem bsearch_correct:
  assumes "ordered (cmp key) base sz num" and "num < 2 ^ 63" and "0 < base"
  shows "\<exists>r. bsearch key base num sz cmp = Some r \<and>
    (r \<noteq> 0 \<longrightarrow> (\<exists>i < num. r = base + sz * i \<and> cmp key r = 0)) \<and>
    (r = 0 \<longleftrightarrow> (\<forall>i < num. cmp key (base + sz * i) \<noteq> 0))"
  using bsearch_loop_spec [of num num "cmp key" base sz 0] assms unfolding bsearch_def by fastforce

text \<open>Nine elements at address 100, the element \<open>i\<close> with the key \<open>10 * i\<close>.\<close>

theorem bsearch_correct_witness:
  "\<exists>r. bsearch (30 :: int) 100 9 4 (\<lambda>k p. k - 10 * int ((p - 100) div 4)) = Some r \<and> r \<noteq> 0"
proof -
  have o: "ordered (\<lambda>p. 30 - 10 * int ((p - 100) div 4)) 100 4 9" by (auto simp: ordered_def)
  show ?thesis
    using bsearch_correct [of "\<lambda>k p. k - 10 * int ((p - 100) div 4)" 30 100 4 9] o by (auto dest: spec [of _ 3])
qed

section \<open>UTF-8 round trip\<close>

lemma const_bits:
  "bit (0x3F :: int) n \<longleftrightarrow> n < 6" "bit (0x1F :: int) n \<longleftrightarrow> n < 5" "bit (0xF :: int) n \<longleftrightarrow> n < 4"
  "bit (0x7 :: int) n \<longleftrightarrow> n < 3" "bit (0xFF :: int) n \<longleftrightarrow> n < 8"
  "bit (0x80 :: int) n \<longleftrightarrow> n = 7" "bit (0xC0 :: int) n \<longleftrightarrow> 6 \<le> n \<and> n < 8"
  "bit (0xE0 :: int) n \<longleftrightarrow> 5 \<le> n \<and> n < 8" "bit (0xF0 :: int) n \<longleftrightarrow> 4 \<le> n \<and> n < 8"
proof -
  have "(0x3F :: int) = mask 6" "(0x1F :: int) = mask 5" "(0xF :: int) = mask 4" "(0x7 :: int) = mask 3" "(0xFF :: int) = mask 8"
    "(0x80 :: int) = push_bit 7 (mask 1)" "(0xC0 :: int) = push_bit 6 (mask 2)" "(0xE0 :: int) = push_bit 5 (mask 3)"
    "(0xF0 :: int) = push_bit 4 (mask 4)"
    by (simp_all add: mask_eq_exp_minus_1 push_bit_eq_mult)
  note m = this
  show "bit (0x3F :: int) n \<longleftrightarrow> n < 6" "bit (0x1F :: int) n \<longleftrightarrow> n < 5" "bit (0xF :: int) n \<longleftrightarrow> n < 4"
    "bit (0x7 :: int) n \<longleftrightarrow> n < 3" "bit (0xFF :: int) n \<longleftrightarrow> n < 8"
    unfolding m(1-5) bit_mask_iff by simp_all
  show "bit (0x80 :: int) n \<longleftrightarrow> n = 7" "bit (0xC0 :: int) n \<longleftrightarrow> 6 \<le> n \<and> n < 8"
    "bit (0xE0 :: int) n \<longleftrightarrow> 5 \<le> n \<and> n < 8" "bit (0xF0 :: int) n \<longleftrightarrow> 4 \<le> n \<and> n < 8"
    unfolding m(6-9) bit_push_bit_iff bit_mask_iff by auto
qed

lemma bit_less: "unat w < 2 ^ k \<Longrightarrow> bit w n \<Longrightarrow> n < k" for w :: "'a::len word"
proof (rule ccontr)
  assume a: "unat w < 2 ^ k" "bit w n" "\<not> n < k"
  have "unat w < 2 ^ n" using a(1,3) by (meson less_le_trans not_less one_le_numeral power_increasing)
  moreover have "bit (unat w) n" using a(2) by (simp add: bit_unsigned_iff)
  ultimately show False by (simp add: bit_nat_def)
qed

text \<open>A lead byte and a continuation byte, by their bits.\<close>

lemma and_C0: "(t :: u32) AND 0xC0 = 0xC0 \<longleftrightarrow> bit t 6 \<and> bit t 7"
proof
  assume h: "t AND 0xC0 = 0xC0"
  have "bit (t AND 0xC0) 6" "bit (t AND 0xC0) 7" unfolding h by (simp_all add: const_bits)
  then show "bit t 6 \<and> bit t 7" by (simp add: bit_and_iff)
next
  assume b: "bit t 6 \<and> bit t 7"
  have "n = 6 \<or> n = 7" if "6 \<le> n" "n < 8" for n :: nat using that by arith
  then show "t AND 0xC0 = 0xC0" using b by (intro bit_eqI) (auto simp: bit_and_iff const_bits)
qed

lemma cont_byte:
  "ucast (ucast (0x80 OR (x AND 0x3F) :: u32) :: u8) = (0x80 OR (x AND 0x3F) :: u32)"
  "(0x80 OR (x AND 0x3F) :: u32) AND 0xC0 = 0x80" "(0x80 OR (x AND 0x3F) :: u32) AND 0x3F = x AND 0x3F"
proof -
  show "ucast (ucast (0x80 OR (x AND 0x3F) :: u32) :: u8) = (0x80 OR (x AND 0x3F) :: u32)"
    by (rule bit_eqI) (auto simp: bit_simps const_bits)
  show "(0x80 OR (x AND 0x3F) :: u32) AND 0xC0 = 0x80"
    by (rule bit_eqI) (auto simp: bit_simps const_bits)
  show "(0x80 OR (x AND 0x3F) :: u32) AND 0x3F = x AND 0x3F"
    by (rule bit_eqI) (auto simp: bit_simps const_bits)
qed

definition shl :: "u32 \<Rightarrow> u32" where
  "shl t = push_bit 1 t AND 0xFF"

lemma bit_shl: "bit (shl t) n \<longleftrightarrow> 1 \<le> n \<and> n < 8 \<and> bit t (n - 1)"
  unfolding shl_def bit_and_iff bit_push_bit_iff by (auto simp: const_bits)

lemma mb_stop:
  "\<not> (bit t 6 \<and> bit t 7) \<Longrightarrow> mb_loop m s n len t k sh tot ch = Some (len, ch OR push_bit tot (drop_bit sh t AND k))"
  unfolding mb_loop.simps [of m s n len t k sh tot ch] and_C0 by (simp only: if_False)

lemma mb_step:
  assumes "bit t 6" "bit t 7" "len < n" "ucast (m s) = (0x80 OR (x AND 0x3F) :: u32)"
    and "s' = s + 1" "len' = len + 1" "k' = drop_bit 1 k" "sh' = sh + 1" "tot' = tot + 6" "ch' = push_bit 6 ch OR (x AND 0x3F)"
  shows "mb_loop m s n len t k sh tot ch = mb_loop m s' n len' (shl t) k' sh' tot' ch'"
  unfolding mb_loop.simps [of m s n len t k sh tot ch] and_C0 assms(4-10) cont_byte Let_def shl_def [symmetric]
  using assms(1-3) by simp

lemma mask_steps [simp]: "drop_bit 1 (0x3F :: u32) = 0x1F" "drop_bit 1 (0x1F :: u32) = 0xF" "drop_bit 1 (0xF :: u32) = 7"
  by simp_all

lemma decode2:
  assumes t: "t = ucast (ucast (0xC0 OR drop_bit 6 wc :: u32) :: u8)" and wc: "unat wc < 2 ^ 11" and n: "2 \<le> n"
    and m: "ucast (m s) = (0x80 OR (wc AND 0x3F) :: u32)"
  shows "mb_loop m s n 1 t 0x3F 0 0 0 = Some (2, wc)"
proof -
  note b = bit_less [OF wc]
  have bt: "bit t i \<longleftrightarrow> i < 8 \<and> (6 \<le> i \<or> bit wc (i + 6))" for i
    unfolding t by (auto simp: bit_simps const_bits add.commute)
  have 5: "\<not> bit t 5" using b [of 11] by (auto simp: bt)
  have "mb_loop m s n 1 t 0x3F 0 0 0 = mb_loop m (s + 1) n 2 (shl t) 0x1F 1 6 (wc AND 0x3F)"
    by (rule mb_step [where x = wc]) (use n m in \<open>simp_all add: bt\<close>)
  also have "\<dots> = Some (2, (wc AND 0x3F) OR push_bit 6 (drop_bit 1 (shl t) AND 0x1F))"
    by (rule mb_stop) (simp add: bit_shl 5)
  also have "(wc AND 0x3F) OR push_bit 6 (drop_bit 1 (shl t) AND 0x1F) = wc"
  proof (rule bit_eqI)
    fix i
    show "bit ((wc AND 0x3F) OR push_bit 6 (drop_bit 1 (shl t) AND 0x1F)) i = bit wc i"
      unfolding bit_or_iff bit_and_iff bit_push_bit_iff bit_drop_bit_eq o_apply bit_shl bt
      using b [of i] by (auto simp: const_bits)
  qed
  finally show ?thesis .
qed

lemma decode3:
  assumes t: "t = ucast (ucast (0xE0 OR drop_bit 12 wc :: u32) :: u8)" and wc: "unat wc < 2 ^ 16" and n: "3 \<le> n"
    and m: "ucast (m s) = (0x80 OR (drop_bit 6 wc AND 0x3F) :: u32)" "ucast (m (s + 1)) = (0x80 OR (wc AND 0x3F) :: u32)"
  shows "mb_loop m s n 1 t 0x3F 0 0 0 = Some (3, wc)"
proof -
  note b = bit_less [OF wc]
  have bt: "bit t i \<longleftrightarrow> i < 8 \<and> (5 \<le> i \<or> bit wc (i + 12))" for i
    unfolding t by (auto simp: bit_simps const_bits add.commute)
  have 4: "\<not> bit t 4" using b [of 16] by (auto simp: bt)
  have "mb_loop m s n 1 t 0x3F 0 0 0 = mb_loop m (s + 1) n 2 (shl t) 0x1F 1 6 (drop_bit 6 wc AND 0x3F)"
    by (rule mb_step [where x = "drop_bit 6 wc"]) (use n m in \<open>simp_all add: bt\<close>)
  also have "\<dots> = mb_loop m (s + 2) n 3 (shl (shl t)) 0xF 2 12 (push_bit 6 (drop_bit 6 wc AND 0x3F) OR (wc AND 0x3F))"
    by (rule mb_step [where x = wc]) (use n m in \<open>simp_all add: bt bit_shl\<close>)
  also have "\<dots> = Some (3, (push_bit 6 (drop_bit 6 wc AND 0x3F) OR (wc AND 0x3F)) OR push_bit 12 (drop_bit 2 (shl (shl t)) AND 0xF))"
    by (rule mb_stop) (simp add: bit_shl 4)
  also have "(push_bit 6 (drop_bit 6 wc AND 0x3F) OR (wc AND 0x3F)) OR push_bit 12 (drop_bit 2 (shl (shl t)) AND 0xF) = wc"
  proof (rule bit_eqI)
    fix i
    show "bit ((push_bit 6 (drop_bit 6 wc AND 0x3F) OR (wc AND 0x3F)) OR push_bit 12 (drop_bit 2 (shl (shl t)) AND 0xF)) i = bit wc i"
      unfolding bit_or_iff bit_and_iff bit_push_bit_iff bit_drop_bit_eq o_apply bit_shl bt
      using b [of i] by (auto simp: const_bits)
  qed
  finally show ?thesis .
qed

lemma decode4:
  assumes t: "t = ucast (ucast (0xF0 OR drop_bit 18 wc :: u32) :: u8)" and wc: "unat wc < 2 ^ 21" and n: "4 \<le> n"
    and m: "ucast (m s) = (0x80 OR (drop_bit 12 wc AND 0x3F) :: u32)" "ucast (m (s + 1)) = (0x80 OR (drop_bit 6 wc AND 0x3F) :: u32)"
      "ucast (m (s + 2)) = (0x80 OR (wc AND 0x3F) :: u32)"
  shows "mb_loop m s n 1 t 0x3F 0 0 0 = Some (4, wc)"
proof -
  note b = bit_less [OF wc]
  have bt: "bit t i \<longleftrightarrow> i < 8 \<and> (4 \<le> i \<or> bit wc (i + 18))" for i
    unfolding t by (auto simp: bit_simps const_bits add.commute)
  have 3: "\<not> bit t 3" using b [of 21] by (auto simp: bt)
  let ?c2 = "push_bit 6 (drop_bit 12 wc AND 0x3F) OR (drop_bit 6 wc AND 0x3F)"
  let ?c3 = "push_bit 6 ?c2 OR (wc AND 0x3F)"
  have "mb_loop m s n 1 t 0x3F 0 0 0 = mb_loop m (s + 1) n 2 (shl t) 0x1F 1 6 (drop_bit 12 wc AND 0x3F)"
    by (rule mb_step [where x = "drop_bit 12 wc"]) (use n m in \<open>simp_all add: bt\<close>)
  also have "\<dots> = mb_loop m (s + 2) n 3 (shl (shl t)) 0xF 2 12 ?c2"
    by (rule mb_step [where x = "drop_bit 6 wc"]) (use n m in \<open>simp_all add: bt bit_shl\<close>)
  also have "\<dots> = mb_loop m (s + 3) n 4 (shl (shl (shl t))) 7 3 18 ?c3"
    by (rule mb_step [where x = wc]) (use n m in \<open>simp_all add: bt bit_shl\<close>)
  also have "\<dots> = Some (4, ?c3 OR push_bit 18 (drop_bit 3 (shl (shl (shl t))) AND 7))"
    by (rule mb_stop) (simp add: bit_shl 3)
  also have "?c3 OR push_bit 18 (drop_bit 3 (shl (shl (shl t))) AND 7) = wc"
  proof (rule bit_eqI)
    fix i
    show "bit (?c3 OR push_bit 18 (drop_bit 3 (shl (shl (shl t))) AND 7)) i = bit wc i"
      unfolding bit_or_iff bit_and_iff bit_push_bit_iff bit_drop_bit_eq o_apply bit_shl bt
      using b [of i] by (auto simp: const_bits)
  qed
  finally show ?thesis .
qed

lemma cont_byte_mem: "ucast (ucast (0x80 OR (x AND 0x3F) :: u32) :: u8) = (0x80 OR (x AND 0x3F) :: u32)"
  by (rule cont_byte)

lemma lead_byte_ge:
  assumes "bit w 7" shows "\<not> (w :: u32) < 128"
  using bit_less [of w 7 7] assms by (auto simp: word_less_nat_alt)

lemma mbtowc_multi:
  assumes "bit (ucast (m s) :: u32) 7" "0 < n" "s \<noteq> 0" "p \<noteq> 0" "mb_loop m (s + 1) n 1 (ucast (m s)) 0x3F 0 0 0 = Some (len, wc)"
  shows "mbtowc w m p s n = Some (int len, w(p := wc))"
  using assms lead_byte_ge [OF assms(1)] by (simp add: mbtowc_def mbtowc_char_def Let_def)

lemma lead_bit7:
  "bit (ucast (ucast (0xC0 OR x :: u32) :: u8) :: u32) 7" "bit (ucast (ucast (0xE0 OR x :: u32) :: u8) :: u32) 7"
  "bit (ucast (ucast (0xF0 OR x :: u32) :: u8) :: u32) 7"
  by (simp_all add: bit_simps const_bits)

lemma wctomb_cases:
  assumes "wctomb m s wc = (st, m')"
  obtains (one) "unat wc < 0x80" "st = 1" "m' = m(s := ucast wc)"
  | (two) "unat wc < 2 ^ 11" "st = 2" "m' s = ucast (0xC0 OR drop_bit 6 wc)" "m' (s + 1) = ucast (0x80 OR (wc AND 0x3F))"
  | (three) "unat wc < 2 ^ 16" "st = 3" "m' s = ucast (0xE0 OR drop_bit 12 wc)"
      "m' (s + 1) = ucast (0x80 OR (drop_bit 6 wc AND 0x3F))" "m' (s + 2) = ucast (0x80 OR (wc AND 0x3F))"
  | (four) "unat wc < 2 ^ 21" "st = 4" "m' s = ucast (0xF0 OR drop_bit 18 wc)"
      "m' (s + 1) = ucast (0x80 OR (drop_bit 12 wc AND 0x3F))" "m' (s + 2) = ucast (0x80 OR (drop_bit 6 wc AND 0x3F))"
      "m' (s + 3) = ucast (0x80 OR (wc AND 0x3F))"
  | (bad) "st = -1" "m' = m" "0xD800 \<le> wc \<and> wc \<le> 0xDFFF \<or> 0x110000 \<le> wc"
  using assms unfolding wctomb_def
  by (auto simp: word_less_nat_alt word_le_nat_alt not_less split: if_splits)

lemma wctomb_mbtowc:
  assumes "wctomb m s wc = (st, m')" "st \<noteq> -1" "wc \<noteq> 0" "s \<noteq> 0" "p \<noteq> 0" "nat st \<le> n"
  shows "mbtowc w m' p s n = Some (st, w(p := wc))"
  using assms(1)
proof (cases rule: wctomb_cases)
  case one
  have e: "ucast (ucast wc :: u8) = wc"
  proof (rule bit_eqI)
    fix i show "bit (ucast (ucast wc :: u8) :: u32) i = bit wc i" using bit_less [of wc 7 i] one(1) by (auto simp: bit_simps)
  qed
  have "wc < 128" "wc > 0" using one(1) assms(3) by (simp_all add: word_less_nat_alt unat_gt_0)
  then show ?thesis using one assms(4-6) e by (simp add: mbtowc_def mbtowc_char_def Let_def)
next
  case two
  have "mb_loop m' (s + 1) n 1 (ucast (m' s)) 0x3F 0 0 0 = Some (2, wc)"
    by (rule decode2 [OF _ two(1)]) (use two assms(6) in \<open>simp_all add: cont_byte_mem\<close>)
  then show ?thesis using mbtowc_multi [of m' s n p 2 wc w] two assms(4-6) lead_bit7 by simp
next
  case three
  have "mb_loop m' (s + 1) n 1 (ucast (m' s)) 0x3F 0 0 0 = Some (3, wc)"
    by (rule decode3 [OF _ three(1)]) (use three assms(6) in \<open>simp_all add: cont_byte_mem\<close>)
  then show ?thesis using mbtowc_multi [of m' s n p 3 wc w] three assms(4-6) lead_bit7 by simp
next
  case four
  have "mb_loop m' (s + 1) n 1 (ucast (m' s)) 0x3F 0 0 0 = Some (4, wc)"
    by (rule decode4 [OF _ four(1)]) (use four assms(6) in \<open>simp_all add: cont_byte_mem numeral_3_eq_3\<close>)
  then show ?thesis using mbtowc_multi [of m' s n p 4 wc w] four assms(4-6) lead_bit7 by simp
qed (use assms(2) in simp)

text \<open>C9. UTF-8 round trip: \<open>wctomb\<close> refuses exactly the surrogates and the values above U+10FFFF; what it
  writes for any other character, in at most four bytes, \<open>mbtowc\<close> reads back as the same character,
  whatever follows and as soon as enough bytes may be read.  The length it returns is that of the bytes
  written, except for U+0000, which is written as one zero byte and read back with length 0.\<close>

theorem utf8_roundtrip:
  assumes "wctomb m s wc = (st, m')" and "s \<noteq> 0"
  shows "(st = -1 \<longleftrightarrow> 0xD800 \<le> wc \<and> wc \<le> 0xDFFF \<or> 0x110000 \<le> wc) \<and> st \<le> 4 \<and>
    (\<forall>a. a < s \<or> s + nat st \<le> a \<longrightarrow> m' a = m a) \<and>
    (st \<noteq> -1 \<longrightarrow> (\<forall>w p n. p \<noteq> 0 \<and> nat st \<le> n \<longrightarrow>
       mbtowc w m' p s n = Some (if wc = 0 then 0 else st, w(p := wc))))"
proof (intro conjI)
  show "st = -1 \<longleftrightarrow> 0xD800 \<le> wc \<and> wc \<le> 0xDFFF \<or> 0x110000 \<le> wc"
    using assms(1) by (auto simp: wctomb_def word_less_nat_alt word_le_nat_alt split: if_splits)
  show "st \<le> 4" "\<forall>a. a < s \<or> s + nat st \<le> a \<longrightarrow> m' a = m a"
    using assms(1) by (auto simp: wctomb_def split: if_splits)
  show "st \<noteq> -1 \<longrightarrow> (\<forall>w p n. p \<noteq> 0 \<and> nat st \<le> n \<longrightarrow>
      mbtowc w m' p s n = Some (if wc = 0 then 0 else st, w(p := wc)))"
  proof (cases "wc = 0")
    case True
    then show ?thesis using assms by (auto simp: wctomb_def mbtowc_def mbtowc_char_def Let_def)
  qed (use wctomb_mbtowc [OF assms(1)] assms(2) in auto)
qed

text \<open>The euro sign.\<close>

theorem utf8_roundtrip_witness:
  "wctomb (\<lambda>_. 0) 8 0x20AC = (3, (\<lambda>_. 0)(8 := 0xE2, 9 := 0x82, 10 := 0xAC)) \<and>
    mbtowc (\<lambda>_. 0) ((\<lambda>_. 0)(8 := 0xE2, 9 := 0x82, 10 := 0xAC)) 1 8 3 = Some (3, (\<lambda>_. 0)(1 := 0x20AC))"
proof -
  have e: "wctomb (\<lambda>_. 0) 8 0x20AC = (3, (\<lambda>_. 0)(8 := 0xE2, 9 := 0x82, 10 := 0xAC))" by (simp add: wctomb_def)
  show ?thesis using utf8_roundtrip [OF e] e by simp
qed

text \<open>The end of the string is not noticed: with room for the terminator the conversion of an ASCII string
  reaches it, finds no byte left, and fails.\<close>

lemma mbtowc_ascii:
  assumes "str \<noteq> 0" "0 < n" "m str \<noteq> 0" "m str < 128" "wcs \<noteq> 0"
  shows "\<exists>w'. mbtowc w m wcs str n = Some (1, w')"
proof -
  have "unat (ucast (m str) :: u32) = unat (m str)"
    using unsigned_less [of "m str", where ?'a = nat] by (simp add: unsigned_ucast_eq take_bit_nat_eq_self)
  then have "unat (ucast (m str) :: u32) < 128" "unat (ucast (m str) :: u32) \<noteq> 0"
    using assms(3,4) by (simp_all add: word_less_nat_alt unat_eq_0)
  then have "(ucast (m str) :: u32) < 128" "(0 :: u32) < ucast (m str)" by (simp_all add: word_less_nat_alt)
  then show ?thesis using assms by (simp add: mbtowc_def mbtowc_char_def Let_def)
qed

lemma mbs_loop_ascii:
  assumes c: "cstr m str bs" "bs \<noteq> []" "\<forall>b \<in> set bs. b < 128" and a: "length bs < n" "str \<noteq> 0"
  shows "sz \<le> length bs \<Longrightarrow> wcs \<noteq> 0 \<Longrightarrow> \<exists>w'. mbs_loop w m wcs str n sz (length bs) sz = Some (-1, w')"
proof (induction "length bs - sz" arbitrary: sz w wcs)
  case 0
  have "m str \<noteq> 0" using c(1,2) by (cases bs) (auto simp: cstr_iff)
  moreover have "mbtowc w m wcs (str + sz) (length bs - sz) = Some (-1, w)"
    using 0 a(2) by (simp add: mbtowc_def mbtowc_char_def Let_def)
  ultimately show ?case using 0 a(1) by (subst mbs_loop.simps) simp
next
  case (Suc k)
  then have lt: "sz < length bs" by simp
  have nz: "m str \<noteq> 0" using c(1,2) by (cases bs) (auto simp: cstr_iff)
  have "m (str + sz) = bs ! sz \<and> bs ! sz \<noteq> 0" using cstr_nth [OF c(1) lt] .
  moreover have "bs ! sz \<in> set bs" using lt by simp
  ultimately obtain w' where w: "mbtowc w m wcs (str + sz) (length bs - sz) = Some (1, w')"
    using mbtowc_ascii [of "str + sz" "length bs - sz" m wcs w] lt c(3) a(2) Suc.prems by auto
  have "\<exists>w''. mbs_loop w' m (wcs + 1) str n (sz + 1) (length bs) (sz + 1) = Some (-1, w'')"
    by (rule Suc.hyps(1)) (use Suc.hyps(2) lt in auto)
  then show ?case using w nz lt a(1) by (subst mbs_loop.simps) simp
qed

lemma mbstowcs_fails:
  assumes "cstr m str bs" "bs \<noteq> []" "\<forall>b \<in> set bs. b < 128" "length bs < n" "str \<noteq> 0" "wcs \<noteq> 0"
  shows "\<exists>w'. mbstowcs w m wcs str n = Some (-1, w')"
  using mbs_loop_ascii [OF assms(1-5), of 0 wcs w] assms(6) strlen_cstr [OF assms(1)] by (simp add: mbstowcs_def)

section \<open>Pseudo-random numbers and division\<close>

lemma rand_bounds: "rand state = (r, state') \<Longrightarrow> 0 \<le> r \<and> r < 2147483647 \<and> state' < RAND_MAX"
proof -
  assume r: "rand state = (r, state')"
  have "(1664525 * state + 1013904223) mod RAND_MAX < RAND_MAX" by (rule word_mod_less_divisor) (simp add: RAND_MAX_def)
  then show ?thesis using r by (auto simp: rand_def Let_def RAND_MAX_def word_less_def)
qed

lemma div_c_spec:
  assumes "div_c n d = Some r"
  shows "n = quot r * d + rem r \<and> \<bar>rem r\<bar> < \<bar>d\<bar>"
proof -
  have d: "d \<noteq> 0" using assms by (auto simp: div_c_def)
  have s: "n sdiv d * d + n smod d = n" by (rule sdiv_mult_smod_eq)
  have b: "\<bar>n smod d\<bar> < \<bar>d\<bar>" using d by (simp add: signed_modulo_int_def abs_mult sgn_if)
  have p: "0 \<le> n \<Longrightarrow> 0 \<le> n smod d" using d by (simp add: signed_modulo_int_def sgn_if)
  have "r = \<lparr>quot = n sdiv d, rem = n smod d\<rparr>" using assms d p by (auto simp: div_c_def Let_def split: if_splits)
  then show ?thesis using s b by simp
qed

end
