(* ===== verification/BootMem.thy ===== *)
theory BootMem
  imports Pmm
begin

text \<open>
  Memory bring-up: the firmware memory map of \<^verbatim>\<open>src/kernel/mem/e820.c\<close>, the boot-time bump
  allocator of \<^verbatim>\<open>src/kernel/mem/slmm.c\<close> and \<open>pmm_init\<close> of \<^verbatim>\<open>src/kernel/mem/pmm.c\<close>, which combines
  them.  Log output is left out.
\<close>

section \<open>The firmware memory map (e820.c)\<close>

record e820_region =
  rg_start :: u64
  rg_length :: u64
  rg_type :: u32

record e820_map =
  regions :: "e820_region list"
  end_avail :: u64
  end_total :: u64
  mem_avail :: u64

definition E820_AVAILABLE :: u32 where [simp]: "E820_AVAILABLE = 1"
definition E820_RESERVED :: u32 where [simp]: "E820_RESERVED = 2"

text \<open>The body of the loop of \<open>e820_init\<close>: it fixes the type of an unknown entry in place and
  updates the totals.\<close>

definition e820_init_step :: "e820_map \<Rightarrow> e820_region \<Rightarrow> e820_map" where
  "e820_init_step m r =
    (let fin = rg_start r + rg_length r;
         r = (if rg_type r > 5 then r\<lparr>rg_type := E820_RESERVED\<rparr> else r);
         m = m\<lparr>regions := regions m @ [r]\<rparr>;
         m = (if fin > end_total m then m\<lparr>end_total := fin\<rparr> else m)
     in if rg_type r = E820_AVAILABLE
        then let m = m\<lparr>mem_avail := mem_avail m + rg_length r\<rparr>
             in (if fin > end_avail m then m\<lparr>end_avail := fin\<rparr> else m)
        else m)"

definition e820_init :: "e820_region list \<Rightarrow> e820_map" where
  "e820_init rs = foldl e820_init_step \<lparr>regions = [], end_avail = 0, end_total = 0, mem_avail = 0\<rparr> rs"

definition e820_report_end :: "e820_map \<Rightarrow> bool \<Rightarrow> u64" where
  "e820_report_end m avail = (if avail then end_avail m else end_total m)"

definition e820_report_available :: "e820_map \<Rightarrow> pmm \<Rightarrow> pmm" where
  "e820_report_available m s =
    foldl (\<lambda>s r. if rg_type r = E820_AVAILABLE then pmm_set_available s (rg_start r) (rg_length r) else s)
      s (regions m)"

section \<open>The boot allocator (slmm.c)\<close>

record slmm =
  slmm_start :: u64
  slmm_end :: u64
  pmm_ready :: bool

definition slmm_init :: "u64 \<Rightarrow> u64 \<Rightarrow> slmm" where
  "slmm_init start fin = \<lparr>slmm_start = start, slmm_end = fin, pmm_ready = False\<rparr>"

definition slmm_get_phys_end :: "slmm \<Rightarrow> u64" where
  "slmm_get_phys_end t = slmm_end t AND 0x0FFFFFFF"

definition slmm_report_reserved :: "slmm \<Rightarrow> pmm \<Rightarrow> bool \<Rightarrow> slmm \<times> pmm" where
  "slmm_report_reserved t s ready =
    (let t = (if ready then t\<lparr>pmm_ready := True\<rparr> else t)
     in if pmm_ready t
        then let phys = slmm_start t AND 0x0FFFFFFF
             in (t\<lparr>slmm_start := slmm_end t\<rparr>, pmm_set_reserved s phys (slmm_end t - slmm_start t))
        else (t, s))"

definition slmm_kmalloc :: "slmm \<Rightarrow> pmm \<Rightarrow> u64 \<Rightarrow> bool \<Rightarrow> u64 \<times> slmm \<times> pmm" where
  "slmm_kmalloc t s sz align =
    (let t = (if align \<and> slmm_end t AND ALIGN_TEST \<noteq> 0
              then t\<lparr>slmm_end := (slmm_end t AND ALIGN_MASK) + PAGE_SIZE\<rparr> else t);
         addr = slmm_end t;
         t = t\<lparr>slmm_end := slmm_end t + sz\<rparr>;
         (t, s) = slmm_report_reserved t s False
     in (addr, t, s))"

section \<open>Bringing up the page allocator (pmm\_init)\<close>

text \<open>The heap is not set up yet, so the bitmap comes from \<open>slmm_kmalloc\<close> without alignment.\<close>

definition pmm_init :: "e820_map \<Rightarrow> slmm \<Rightarrow> pmm \<Rightarrow> slmm \<times> pmm" where
  "pmm_init m t s =
    (let bitmap_size = e820_report_end m True;
         bitmap_size = bitmap_size AND ALIGN_MASK;
         bitmap_size = bitmap_size div PAGE_SIZE;
         mx = ucast (bitmap_size div 64) :: u32;
         bitmap_size = bitmap_size div 8;
         (addr, t, s) = slmm_kmalloc t s bitmap_size False;
         s = pmm_reset mx;
         s = e820_report_available m s;
         s = s\<lparr>num_pages := free_pages s\<rparr>
     in slmm_report_reserved t s True)"

section \<open>What bring-up establishes\<close>

text \<open>The pages a region makes available: the whole pages inside it, when it is at least 1 MiB.\<close>

definition region_pages :: "e820_region \<Rightarrow> nat set" where
  "region_pages r =
    (if rg_type r = E820_AVAILABLE \<and> 0x100000 \<le> rg_length r
     then {(unat (rg_start r) + 4095) div 4096 ..< (unat (rg_start r) + unat (rg_length r)) div 4096}
     else {})"

text \<open>Regions below 16 TiB, so that page numbers fit the 32-bit arithmetic of the page allocator.\<close>

definition region_ok :: "e820_region \<Rightarrow> bool" where
  "region_ok r \<longleftrightarrow> unat (rg_start r) + unat (rg_length r) \<le> 2 ^ 44"

lemma page_free_available:
  assumes "pmm_wf s" and "region_ok r" and "rg_type r = E820_AVAILABLE"
  shows "page_free (pmm_set_available s (rg_start r) (rg_length r)) g \<longleftrightarrow>
    page_free s g \<or> g \<in> region_pages r \<and> g div 64 < unat (max_index s)"
proof (cases "0x100000 \<le> rg_length r")
  case False
  then show ?thesis by (auto simp: pmm_set_available_def Let_def region_pages_def not_le)
next
  case True
  let ?f = "(unat (rg_start r) + 4095) div 4096"
  let ?e = "(unat (rg_start r) + unat (rg_length r)) div 4096"
  have len: "0x100000 \<le> unat (rg_length r)" using True by (simp add: word_le_nat_alt)
  then have le: "?f \<le> ?e" by (intro div_le_mono) simp
  have "?e \<le> 2 ^ 44 div 4096" using assms(2) unfolding region_ok_def by (rule div_le_mono)
  then have b: "?f + (?e - ?f) \<le> 2 ^ 32" using le by simp
  have "unat (rg_start r) + unat (rg_length r) + 4096 < 2 ^ 64"
    using assms(2) by (simp add: region_ok_def)
  from pmm_set_available_range [OF this True] page_free_free_range [OF assms(1) b]
  show ?thesis using le True assms(3) by (auto simp: region_pages_def)
qed

lemma set_available_max_index [simp]: "max_index (pmm_set_available s a n) = max_index s"
proof -
  have "max_index (pmm_free_range s x y) = max_index s" for s x y
    by (induction s x y rule: pmm_free_range.induct) (subst pmm_free_range.simps, simp)
  then show ?thesis by (simp add: pmm_set_available_def Let_def)
qed

lemma report_available_pages:
  assumes "pmm_inv s" and "list_all region_ok rs"
  defines "t \<equiv> foldl (\<lambda>s r. if rg_type r = E820_AVAILABLE
     then pmm_set_available s (rg_start r) (rg_length r) else s) s rs"
  shows "pmm_inv t \<and> max_index t = max_index s \<and>
    (\<forall>g. page_free t g \<longleftrightarrow> page_free s g \<or>
       (\<exists>r \<in> set rs. g \<in> region_pages r) \<and> g div 64 < unat (max_index s))"
  using assms(1,2) unfolding t_def
proof (induction rs arbitrary: s)
  case Nil
  then show ?case by simp
next
  case (Cons r rs)
  let ?s = "if rg_type r = E820_AVAILABLE then pmm_set_available s (rg_start r) (rg_length r) else s"
  have "pmm_inv ?s" using Cons.prems(1) by (simp add: inv_set_available)
  moreover have "max_index ?s = max_index s" by simp
  moreover have "page_free ?s g \<longleftrightarrow> page_free s g \<or> g \<in> region_pages r \<and> g div 64 < unat (max_index s)" for g
    using page_free_available [of s r g] Cons.prems by (auto simp: pmm_inv_def region_pages_def)
  ultimately show ?case using Cons.IH [of ?s] Cons.prems(2) by auto
qed

lemma report_reserved_pages:
  assumes "pmm_wf s" and "unat (phys :: u64) + unat (n :: u64) + 4095 \<le> 2 ^ 44"
  shows "page_free (pmm_set_reserved s phys n) g \<longleftrightarrow>
    page_free s g \<and> g \<notin> {unat phys div 4096 ..< (unat phys + unat n + 4095) div 4096}"
proof -
  let ?f = "unat phys div 4096"
  let ?e = "(unat phys + unat n + 4095) div 4096"
  have le: "?f \<le> ?e" by (rule div_le_mono) simp
  have "?e \<le> 2 ^ 44 div 4096" using assms(2) by (rule div_le_mono)
  then have "?f + (?e - ?f) \<le> 2 ^ 32" using le by simp
  from page_free_set_range [OF assms(1) this] show ?thesis
    using pmm_set_reserved_range [of phys n s] assms(2) le by auto
qed

lemma inv_num_pages: "pmm_inv (s\<lparr>num_pages := n\<rparr>) = pmm_inv s"
proof -
  have "page_free (s\<lparr>num_pages := n\<rparr>) = page_free s" "pmm_wf (s\<lparr>num_pages := n\<rparr>) = pmm_wf s"
    by (simp_all add: fun_eq_iff page_free_def pmm_wf_def)
  then show ?thesis by (simp add: pmm_inv_def)
qed

section \<open>Properties\<close>

text \<open>C27. Bring-up: after \<open>pmm_init\<close> the allocator invariant holds, and a page is free exactly when it
  lies whole inside an available region of at least 1 MiB, is below the end of the bitmap, and is not
  part of the kernel image and boot allocations \<open>[slmm_start, slmm_end)\<close>; the boot allocator is then
  marked as reported up to its end.\<close>

theorem pmm_init_free_pages:
  assumes "list_all region_ok (regions m)" and "unat (end_avail m) \<le> 2 ^ 44"
    and "\<not> pmm_ready t" and "pmm_init m t s0 = (t', s)"
    and "fin = slmm_end t + (end_avail m AND ALIGN_MASK) div PAGE_SIZE div 8"
    and "unat (slmm_start t AND 0x0FFFFFFF) + unat (fin - slmm_start t) + 4095 \<le> 2 ^ 44"
  shows "pmm_inv s \<and> slmm_start t' = fin \<and> slmm_end t' = fin \<and>
    (\<forall>g. page_free s g \<longleftrightarrow>
      (\<exists>r \<in> set (regions m). g \<in> region_pages r) \<and> g div 64 < unat (end_avail m) div 4096 div 64 \<and>
      g \<notin> {unat (slmm_start t AND 0x0FFFFFFF) div 4096 ..<
            (unat (slmm_start t AND 0x0FFFFFFF) + unat (fin - slmm_start t) + 4095) div 4096})"
proof -
  define mx where "mx = (ucast ((end_avail m AND ALIGN_MASK) div PAGE_SIZE div 64) :: u32)"
  let ?r = "e820_report_available m (pmm_reset mx)"
  let ?s = "?r\<lparr>num_pages := free_pages ?r\<rparr>"
  have "unat ((end_avail m AND ALIGN_MASK) div PAGE_SIZE div 64) = unat (end_avail m) div 4096 div 64"
    using unat_and_page_mask [of "end_avail m"] by (simp add: unat_div)
  moreover have "unat (end_avail m) div 4096 div 64 \<le> 2 ^ 26"
    using assms(2) by (simp add: div_mult2_eq [symmetric] div_le_mono [of _ "2 ^ 44" 262144, simplified])
  ultimately have mx: "unat mx = unat (end_avail m) div 4096 div 64" and "64 * unat mx \<le> 2 ^ 32"
    by (simp_all add: mx_def unsigned_ucast_eq take_bit_nat_eq_self)
  then have "pmm_inv (pmm_reset mx)" by (intro inv_reset)
  from report_available_pages [OF this assms(1)]
  have r: "pmm_inv ?r" "\<And>g. page_free ?r g \<longleftrightarrow> (\<exists>r \<in> set (regions m). g \<in> region_pages r) \<and>
      g div 64 < unat (end_avail m) div 4096 div 64"
    by (auto simp: e820_report_available_def mx)
  have same: "page_free ?s g = page_free ?r g" "pmm_wf ?s = pmm_wf ?r" for g
    by (simp_all add: page_free_def pmm_wf_def)
  have s: "pmm_inv ?s" using r(1) by (simp add: inv_num_pages)
  have eqs: "s = pmm_set_reserved ?s (slmm_start t AND 0x0FFFFFFF) (fin - slmm_start t)"
    "slmm_start t' = fin" "slmm_end t' = fin"
    using assms(3,4) unfolding assms(5)
    by (auto simp: pmm_init_def mx_def slmm_kmalloc_def slmm_report_reserved_def e820_report_end_def Let_def)
  have "pmm_wf ?s" using s by (simp add: pmm_inv_def)
  from report_reserved_pages [OF this assms(6)] show ?thesis
    using eqs inv_set_reserved [OF s] r(2) same(1) by simp
qed

text \<open>64 MiB of memory, a 1 MiB kernel image at 2 MiB: pages 512 to 768 hold the image and the 2 KiB
  bitmap, page 769 is the next free one.\<close>

theorem pmm_init_free_pages_witness:
  "let (t', s) = pmm_init (e820_init [\<lparr>rg_start = 0x100000, rg_length = 0x3F00000, rg_type = 1\<rparr>])
     (slmm_init 0xFFFFFFFF80200000 0xFFFFFFFF80300000) (pmm_reset 0)
   in pmm_inv s \<and> page_free s 256 \<and> page_free s 511 \<and> \<not> page_free s 512 \<and> \<not> page_free s 768 \<and>
     page_free s 769 \<and> page_free s 16383 \<and> \<not> page_free s 16384 \<and> \<not> page_free s 255"
proof -
  let ?m = "e820_init [\<lparr>rg_start = 0x100000, rg_length = 0x3F00000, rg_type = 1\<rparr>]"
  let ?t = "slmm_init 0xFFFFFFFF80200000 0xFFFFFFFF80300000"
  have m: "?m = \<lparr>regions = [\<lparr>rg_start = 0x100000, rg_length = 0x3F00000, rg_type = 1\<rparr>],
      end_avail = 0x4000000, end_total = 0x4000000, mem_avail = 0x3F00000\<rparr>"
    by (simp add: e820_init_def e820_init_step_def)
  have mask: "0x4000000 AND ALIGN_MASK = (0x4000000 :: u64)" "0xFFFFFFFF80200000 AND 0x0FFFFFFF = (0x200000 :: u64)"
    by code_simp+
  obtain t' s where p: "pmm_init ?m ?t (pmm_reset 0) = (t', s)" by fastforce
  have "pmm_inv s \<and> slmm_start t' = 0xFFFFFFFF80300800 \<and> slmm_end t' = 0xFFFFFFFF80300800 \<and>
    (\<forall>g. page_free s g \<longleftrightarrow>
      (\<exists>r \<in> set (regions ?m). g \<in> region_pages r) \<and> g div 64 < unat (end_avail ?m) div 4096 div 64 \<and>
      g \<notin> {unat (slmm_start ?t AND 0x0FFFFFFF) div 4096 ..<
            (unat (slmm_start ?t AND 0x0FFFFFFF) + unat (0xFFFFFFFF80300800 - slmm_start ?t) + 4095) div 4096})"
    by (rule pmm_init_free_pages [OF _ _ _ p])
      (use mask in \<open>simp_all add: m slmm_init_def region_ok_def\<close>)
  then show ?thesis unfolding p using mask by (simp add: m slmm_init_def region_pages_def)
qed

end
