(* ===== verification/Vmm.thy ===== *)
theory Vmm
  imports BootMem "HOL-Library.Monad_Syntax" "HOL-Library.Sublist"
begin

text \<open>
  The virtual memory manager of \<^verbatim>\<open>src/kernel/mem/vmm.c\<close>: four-level page tables edited through the
  recursive entry 510 of the top table.  The model has the page tables as the memory management unit
  sees them, a table of 512 entries per physical page, and every access of the code to an entry is an
  access to a virtual address, which goes through the unit's own walk; \<open>None\<close> is a page fault.  The
  translation cache is not modelled.
\<close>

section \<open>Entries and state\<close>

text \<open>One record for the three overlaid entry layouts of \<^verbatim>\<open>vmm.h\<close>.  Bit 6 is \<open>zero\<close> in \<open>pde_t\<close>
  and \<open>dirty\<close> in \<open>pte_t\<close>; bit 7 is \<open>ps\<close> in \<open>pde_t\<close> and \<open>pat\<close> in \<open>pte_t\<close>; bits 12 to 62 are
  \<open>next_base\<close> or \<open>phys_addr\<close>.\<close>

record pte =
  present :: bool
  writable :: bool
  mode :: bool
  pwt :: bool
  pcd :: bool
  accessed :: bool
  dirty :: bool
  pat :: bool
  global :: bool
  avl :: u8
  phys_addr :: u64
  nx :: bool

type_synonym pde = pte

definition KERNEL :: bool where [simp]: "KERNEL = False"
definition USER :: bool where [simp]: "USER = True"
definition AVL_ALLOCATED :: u8 where [simp]: "AVL_ALLOCATED = 1"
definition AVL_MAPPED :: u8 where [simp]: "AVL_MAPPED = 2"

definition PL4_BASE :: u64 where "PL4_BASE = 0xFFFFFF7FBFDFE000"
definition PL3_BASE :: u64 where "PL3_BASE = 0xFFFFFF7FBFC00000"
definition PL2_BASE :: u64 where "PL2_BASE = 0xFFFFFF7F80000000"
definition PL1_BASE :: u64 where "PL1_BASE = 0xFFFFFF0000000000"
definition IDMAP :: u64 where "IDMAP = 0xFFFF800000000000"
definition HWMAP :: u64 where "HWMAP = 0xFFFFD00000000000"
definition KHEAP :: u64 where "KHEAP = 0xFFFFE00000000000"
definition KHEAP_SIZE :: u64 where "KHEAP_SIZE = 0x100000000000"

text \<open>\<open>tables f i\<close> is entry \<open>i\<close> of the physical page \<open>f\<close>; \<open>frames\<close> and \<open>boot\<close> are the states of the
  page allocator and of the boot allocator.\<close>

record vmm =
  cr3 :: u64
  tables :: "u64 \<Rightarrow> nat \<Rightarrow> pte"
  paging :: bool
  pml4_phys :: u64
  pml4_virt :: u64
  frames :: pmm
  boot :: slmm

definition shift :: "u64 \<Rightarrow> u64" where
  "shift a = drop_bit 12 a"

definition virt2phys :: "u64 \<Rightarrow> u64" where
  "virt2phys a = a - 0xFFFFFFFF80000000"

text \<open>Storing into the 51-bit fields \<open>next_base\<close> and \<open>phys_addr\<close> truncates.\<close>

definition field51 :: "u64 \<Rightarrow> u64" where
  "field51 x = take_bit 51 x"

section \<open>The memory management unit\<close>

definition index_at :: "u64 \<Rightarrow> nat \<Rightarrow> nat" where
  "index_at va k = unat (drop_bit k va AND 0x1FF)"

text \<open>The physical page a virtual address resolves to.  A set bit 7 ends the walk at the third table
  with a 2 MiB page, whose lowest base bit is its caching bit; the kernel never sets it higher up.\<close>

definition mmu_frame :: "vmm \<Rightarrow> u64 \<Rightarrow> u64 option" where
  "mmu_frame v va =
    (let e4 = tables v (field51 (shift (cr3 v))) (index_at va 39);
         e3 = tables v (phys_addr e4) (index_at va 30);
         e2 = tables v (phys_addr e3) (index_at va 21);
         e1 = tables v (phys_addr e2) (index_at va 12)
     in if \<not> present e4 \<or> pat e4 then None
        else if \<not> present e3 \<or> pat e3 then None
        else if \<not> present e2 then None
        else if pat e2 then Some ((phys_addr e2 AND NOT 0x1FF) OR (drop_bit 12 va AND 0x1FF))
        else if present e1 then Some (phys_addr e1)
        else None)"

definition load_entry :: "vmm \<Rightarrow> u64 \<Rightarrow> pte option" where
  "load_entry v p = map_option (\<lambda>f. tables v f (unat (drop_bit 3 p AND 0x1FF))) (mmu_frame v p)"

definition store_entry :: "vmm \<Rightarrow> u64 \<Rightarrow> pte \<Rightarrow> vmm option" where
  "store_entry v p e = map_option
    (\<lambda>f. v\<lparr>tables := (tables v)(f := (tables v f)(unat (drop_bit 3 p AND 0x1FF) := e))\<rparr>) (mmu_frame v p)"

text \<open>The address of element \<open>ix\<close> of the table at \<open>p\<close>.\<close>

definition elem :: "u64 \<Rightarrow> nat \<Rightarrow> u64" where
  "elem p ix = p + 8 * of_nat ix"

section \<open>Editing tables (vmm.c)\<close>

definition alloc_frame :: "vmm \<Rightarrow> u64 \<times> vmm" where
  "alloc_frame v =
    (if \<not> paging v
     then case slmm_kmalloc (boot v) (frames v) PAGE_SIZE True of
       (addr, b, s) \<Rightarrow> (virt2phys addr, v\<lparr>boot := b, frames := s\<rparr>)
     else case pmm_alloc_frame (frames v) of (addr, s) \<Rightarrow> (addr, v\<lparr>frames := s\<rparr>))"

primrec fill_entries :: "vmm \<Rightarrow> u64 \<Rightarrow> nat \<Rightarrow> pte \<Rightarrow> vmm option" where
  "fill_entries v p 0 e = Some v"
| "fill_entries v p (Suc n) e = do {
     v' \<leftarrow> fill_entries v p n e;
     store_entry v' (elem p n) e
   }"

definition default_pde :: "bool \<Rightarrow> bool \<Rightarrow> pde" where
  "default_pde m ps = \<lparr>present = False, writable = True, mode = m, pwt = False, pcd = False,
     accessed = False, dirty = False, pat = ps, global = False, avl = 0, phys_addr = 0, nx = False\<rparr>"

definition init_pde :: "vmm \<Rightarrow> u64 \<Rightarrow> nat \<Rightarrow> bool \<Rightarrow> bool \<Rightarrow> vmm option" where
  "init_pde v p num m ps = fill_entries v p num (default_pde m ps)"

definition default_pte :: "bool \<Rightarrow> pte" where
  "default_pte m = \<lparr>present = False, writable = True, mode = m, pwt = False, pcd = False,
     accessed = False, dirty = False, pat = False, global = False, avl = 0, phys_addr = 0, nx = True\<rparr>"

definition init_pte :: "vmm \<Rightarrow> u64 \<Rightarrow> nat \<Rightarrow> bool \<Rightarrow> vmm option" where
  "init_pte v p num m = fill_entries v p num (default_pte m)"

definition alloc_pde :: "vmm \<Rightarrow> u64 \<Rightarrow> nat \<Rightarrow> (int \<times> vmm) option" where
  "alloc_pde v p ix =
    (case alloc_frame v of (phys, v1) \<Rightarrow>
       if phys = 0 then Some (- ENOMEM, v1)
       else do {
         e \<leftarrow> load_entry v1 (elem p ix);
         v2 \<leftarrow> store_entry v1 (elem p ix) (e\<lparr>present := True, phys_addr := field51 (shift phys)\<rparr>);
         Some (0, v2)
       })"

definition link_pde :: "vmm \<Rightarrow> u64 \<Rightarrow> nat \<Rightarrow> u64 \<Rightarrow> vmm option" where
  "link_pde v p ix nxt = do {
     e \<leftarrow> load_entry v (elem p ix);
     store_entry v (elem p ix) (e\<lparr>present := True, phys_addr := field51 (shift nxt)\<rparr>)
   }"

text \<open>One level of \<open>get_page\<close>: when the entry is not present, it is allocated and the table below it
  initialised if \<open>mk\<close> is set; the result says whether the walk goes on.\<close>

definition check_level :: "vmm \<Rightarrow> u64 \<Rightarrow> nat \<Rightarrow> bool \<Rightarrow> (vmm \<Rightarrow> vmm option) \<Rightarrow> (bool \<times> vmm) option" where
  "check_level v p ix mk init = do {
     e \<leftarrow> load_entry v (elem p ix);
     if \<not> present e then
       if mk then do {
         (status, v1) \<leftarrow> alloc_pde v p ix;
         if status = 0 then do { v2 \<leftarrow> init v1; Some (True, v2) }
         else Some (False, v1)
       }
       else Some (False, v)
     else Some (True, v)
   }"

definition pl3_ptr :: "nat \<Rightarrow> u64" where
  "pl3_ptr ix4 = PL3_BASE OR push_bit 12 (of_nat ix4)"

definition pl2_ptr :: "nat \<Rightarrow> nat \<Rightarrow> u64" where
  "pl2_ptr ix4 ix3 = PL2_BASE OR push_bit 12 (of_nat ix3) OR push_bit 21 (of_nat ix4)"

definition pl1_ptr :: "nat \<Rightarrow> nat \<Rightarrow> nat \<Rightarrow> u64" where
  "pl1_ptr ix4 ix3 ix2 =
    PL1_BASE OR push_bit 12 (of_nat ix2) OR push_bit 21 (of_nat ix3) OR push_bit 30 (of_nat ix4)"

definition get_page :: "vmm \<Rightarrow> u64 \<Rightarrow> bool \<Rightarrow> (u64 \<times> vmm) option" where
  "get_page v addr mk =
    (let ix4 = index_at addr 39; ix3 = index_at addr 30; ix2 = index_at addr 21; ix1 = index_at addr 12;
         pl4 = PL4_BASE; pl3 = pl3_ptr ix4; pl2 = pl2_ptr ix4 ix3; pl1 = pl1_ptr ix4 ix3 ix2
     in do {
       (ok, v) \<leftarrow> check_level v pl4 ix4 mk
         (\<lambda>v. do { e \<leftarrow> load_entry v (elem pl4 ix4); init_pde v pl3 512 (mode e) False });
       if \<not> ok then Some (0, v) else do {
       (ok, v) \<leftarrow> check_level v pl3 ix3 mk
         (\<lambda>v. do { e \<leftarrow> load_entry v (elem pl4 ix4); init_pde v pl2 512 (mode e) False });
       if \<not> ok then Some (0, v) else do {
       (ok, v) \<leftarrow> check_level v pl2 ix2 mk
         (\<lambda>v. do { e \<leftarrow> load_entry v (elem pl4 ix4); init_pte v pl1 512 (mode e) });
       if \<not> ok then Some (0, v) else do {
       e \<leftarrow> load_entry v (elem pl2 ix2);
       if pat e then Some (0, v) else Some (elem pl1 ix1, v)
     }}}})"

definition get_large_page :: "vmm \<Rightarrow> u64 \<Rightarrow> bool \<Rightarrow> (u64 \<times> vmm) option" where
  "get_large_page v addr mk =
    (let ix4 = index_at addr 39; ix3 = index_at addr 30; ix2 = index_at addr 21;
         pl4 = PL4_BASE; pl3 = pl3_ptr ix4; pl2 = pl2_ptr ix4 ix3
     in do {
       (ok, v) \<leftarrow> check_level v pl4 ix4 mk
         (\<lambda>v. do { e \<leftarrow> load_entry v (elem pl4 ix4); init_pde v pl3 512 (mode e) False });
       if \<not> ok then Some (0, v) else do {
       (ok, v) \<leftarrow> check_level v pl3 ix3 mk
         (\<lambda>v. do { e \<leftarrow> load_entry v (elem pl4 ix4); init_pde v pl2 512 (mode e) True });
       if \<not> ok then Some (0, v) else do {
       e \<leftarrow> load_entry v (elem pl2 ix2);
       if \<not> pat e then Some (0, v) else Some (elem pl2 ix2, v)
     }}})"

text \<open>In the 2 MiB layout \<open>phys_addr\<close> starts nine bits higher.\<close>

definition map_large_page :: "vmm \<Rightarrow> u64 \<Rightarrow> u64 \<Rightarrow> (int \<times> vmm) option" where
  "map_large_page v virt phys = do {
     (p, v) \<leftarrow> get_large_page v virt True;
     if p = 0 then Some (-1, v) else do {
     e \<leftarrow> load_entry v p;
     if present e then Some (-1, v) else do {
     v \<leftarrow> store_entry v p (e\<lparr>present := True, avl := AVL_MAPPED,
       phys_addr := (phys_addr e AND 0x1FF) OR field51 (push_bit 9 (drop_bit 21 phys)), nx := True\<rparr>);
     Some (0, v)
   }}}"

section \<open>Page operations\<close>

definition vmm_set_caching :: "vmm \<Rightarrow> u64 \<Rightarrow> u8 \<Rightarrow> (int \<times> vmm) option" where
  "vmm_set_caching v virt m = do {
     (p, v) \<leftarrow> get_page v virt False;
     if p = 0 then Some (-1, v) else do {
     e \<leftarrow> load_entry v p;
     if \<not> present e then Some (-1, v) else do {
     v \<leftarrow> store_entry v p (e\<lparr>pwt := (m AND 1 > 0), pcd := (m AND 2 > 0), pat := (m AND 4 > 0)\<rparr>);
     Some (0, v)
   }}}"

definition vmm_set_mode :: "vmm \<Rightarrow> u64 \<Rightarrow> bool \<Rightarrow> bool \<Rightarrow> (int \<times> vmm) option" where
  "vmm_set_mode v virt w x = do {
     (p, v) \<leftarrow> get_page v virt False;
     if p = 0 then Some (-1, v) else do {
     e \<leftarrow> load_entry v p;
     if \<not> present e then Some (-1, v) else do {
     v \<leftarrow> store_entry v p (e\<lparr>writable := w, nx := (\<not> x)\<rparr>);
     Some (0, v)
   }}}"

definition vmm_alloc_page :: "vmm \<Rightarrow> u64 \<Rightarrow> (int \<times> vmm) option" where
  "vmm_alloc_page v virt = do {
     (p, v) \<leftarrow> get_page v virt True;
     if p = 0 then Some (-1, v) else do {
     e \<leftarrow> load_entry v p;
     if present e then Some (-1, v) else
     (case alloc_frame v of (phys, v) \<Rightarrow>
       if phys = 0 then Some (- ENOMEM, v) else do {
       e \<leftarrow> load_entry v p;
       v \<leftarrow> store_entry v p (e\<lparr>present := True, avl := AVL_ALLOCATED, phys_addr := field51 (shift phys)\<rparr>);
       Some (0, v)
     })
   }}"

definition vmm_map_page :: "vmm \<Rightarrow> u64 \<Rightarrow> u64 \<Rightarrow> (int \<times> vmm) option" where
  "vmm_map_page v virt phys = do {
     (p, v) \<leftarrow> get_page v virt True;
     if p = 0 then Some (-1, v) else do {
     e \<leftarrow> load_entry v p;
     if present e then Some (-1, v) else do {
     v \<leftarrow> store_entry v p (e\<lparr>present := True, avl := AVL_MAPPED, phys_addr := field51 (shift phys)\<rparr>);
     Some (0, v)
   }}}"

definition vmm_remap_page :: "vmm \<Rightarrow> u64 \<Rightarrow> u64 \<Rightarrow> (int \<times> vmm) option" where
  "vmm_remap_page v virt phys = do {
     (p, v) \<leftarrow> get_page v virt True;
     if p = 0 then Some (-1, v) else do {
     e \<leftarrow> load_entry v p;
     if \<not> present e then Some (-1, v) else
     if avl e \<noteq> AVL_MAPPED then Some (-1, v) else do {
     v \<leftarrow> store_entry v p (e\<lparr>phys_addr := field51 (shift phys)\<rparr>);
     Some (0, v)
   }}}"

definition vmm_free_page :: "vmm \<Rightarrow> u64 \<Rightarrow> (int \<times> vmm) option" where
  "vmm_free_page v virt = do {
     (p, v) \<leftarrow> get_page v virt False;
     if p = 0 then Some (-1, v) else do {
     e \<leftarrow> load_entry v p;
     if \<not> present e then Some (-1, v) else
     (let v = (if avl e = AVL_ALLOCATED
               then v\<lparr>frames := pmm_free_frame (frames v) (push_bit 12 (phys_addr e))\<rparr> else v)
      in do {
       v \<leftarrow> init_pte v p 1 (mode e);
       Some (0, v)
     })
   }}"

section \<open>Address spaces\<close>

definition vmm_load_pml4 :: "vmm \<Rightarrow> u64 \<Rightarrow> vmm" where
  "vmm_load_pml4 v addr = v\<lparr>cr3 := addr\<rparr>"

definition vmm_load_kernel_pml4 :: "vmm \<Rightarrow> vmm" where
  "vmm_load_kernel_pml4 v = vmm_load_pml4 v (pml4_phys v)"

definition vmm_get_kernel_pml4 :: "vmm \<Rightarrow> u64" where
  "vmm_get_kernel_pml4 v = pml4_phys v"

definition vmm_get_current_pml4 :: "vmm \<Rightarrow> u64" where
  "vmm_get_current_pml4 v = cr3 v"

definition vmm_phys_to_virt :: "u64 \<Rightarrow> u64" where
  "vmm_phys_to_virt phys = IDMAP + phys"

definition vmm_virt_to_phys :: "u64 \<Rightarrow> u64" where
  "vmm_virt_to_phys virt = virt - IDMAP"

text \<open>\<open>memcpy\<close> of the first \<open>n\<close> entries of the table at \<open>q\<close> to the table at \<open>p\<close>.\<close>

primrec copy_entries :: "vmm \<Rightarrow> u64 \<Rightarrow> u64 \<Rightarrow> nat \<Rightarrow> vmm option" where
  "copy_entries v p q 0 = Some v"
| "copy_entries v p q (Suc n) = do {
     v \<leftarrow> copy_entries v p q n;
     e \<leftarrow> load_entry v (elem q n);
     store_entry v (elem p n) e
   }"

definition vmm_create_user_space :: "vmm \<Rightarrow> (u64 \<times> vmm) option" where
  "vmm_create_user_space v =
    (case alloc_frame v of (phys, v) \<Rightarrow>
       if phys = 0 then Some (0, v)
       else do {
         v \<leftarrow> copy_entries v (vmm_phys_to_virt phys) (pml4_virt v) 512;
         v \<leftarrow> link_pde v (vmm_phys_to_virt phys) 510 phys;
         Some (phys, v)
       })"

text \<open>The loop of \<open>free_pde_recurse\<close> over the first \<open>n\<close> entries.\<close>

primrec each_entry :: "(nat \<Rightarrow> vmm \<Rightarrow> vmm option) \<Rightarrow> nat \<Rightarrow> vmm \<Rightarrow> vmm option" where
  "each_entry f 0 v = Some v"
| "each_entry f (Suc n) v = do { v \<leftarrow> each_entry f n v; f n v }"

definition free_phys :: "vmm \<Rightarrow> pte \<Rightarrow> vmm" where
  "free_phys v e = v\<lparr>frames := pmm_free_frame (frames v) (push_bit 12 (phys_addr e))\<rparr>"

text \<open>The recursion starts at level 4 and ends at level 1; level 0 is never entered.\<close>

primrec free_pde_recurse :: "nat \<Rightarrow> u64 \<Rightarrow> vmm \<Rightarrow> vmm option" where
  "free_pde_recurse 0 p v = Some v"
| "free_pde_recurse (Suc l) p v =
    (let mx = (if Suc l = 4 then 256 else 512);
         virt = push_bit 9 p OR 0xFFFF000000000000
     in each_entry (\<lambda>ix v. do {
          e \<leftarrow> load_entry v (elem p ix);
          if Suc l = 1 then Some (if avl e = AVL_ALLOCATED then free_phys v e else v)
          else if present e then do {
            v \<leftarrow> free_pde_recurse l (virt OR push_bit 12 (of_nat ix)) v;
            Some (free_phys v e)
          }
          else Some v
        }) mx v)"

definition vmm_destroy_user_space :: "vmm \<Rightarrow> vmm option" where
  "vmm_destroy_user_space v =
    (let phys = vmm_get_current_pml4 v
     in do {
       v \<leftarrow> free_pde_recurse 4 PL4_BASE v;
       let v = vmm_load_kernel_pml4 v;
       Some (v\<lparr>frames := pmm_free_frame (frames v) phys\<rparr>)
     })"

section \<open>The recursive window\<close>

lemma index_at_nat: "index_at va k = unat va div 2 ^ k mod 512"
proof -
  have "(0x1FF :: u64) = mask 9" by (simp add: mask_eq_exp_minus_1)
  then have "drop_bit k va AND 0x1FF = take_bit 9 (drop_bit k va)" by (simp only: take_bit_eq_mask)
  moreover have "unat (take_bit 9 (drop_bit k va)) = take_bit 9 (drop_bit k (unat va))"
    by (simp only: unsigned_take_bit_eq unat_drop_bit_eq)
  ultimately show ?thesis
    unfolding index_at_def by (simp only: take_bit_eq_mod drop_bit_eq_div) simp
qed

lemma index_at_less [simp]: "index_at va k < 512"
  by (simp add: index_at_nat)

text \<open>The address whose four table indices are 510, \<open>b\<close>, \<open>c\<close> and \<open>d\<close>.\<close>

definition win :: "nat \<Rightarrow> nat \<Rightarrow> nat \<Rightarrow> nat" where
  "win b c d = 0xFFFFFF0000000000 + 0x40000000 * b + 0x200000 * c + 0x1000 * d"

lemma div_block: "r < m \<Longrightarrow> (m * q + r) div m = (q :: nat)"
  by simp

lemma mod_block: "r < m \<Longrightarrow> (m * q + r) mod m = (r :: nat)"
  by simp

lemma win_index:
  assumes "unat p = win b c d + 8 * i" and "b < 512" "c < 512" "d < 512" "i < 512"
  shows "index_at p 39 = 510" "index_at p 30 = b" "index_at p 21 = c" "index_at p 12 = d" "index_at p 3 = i"
proof -
  note lt = assms(2-5)
  have "unat p = 0x8000000000 * 0x1FFFFFE + (0x40000000 * b + 0x200000 * c + 0x1000 * d + 8 * i)"
    using assms(1) by (simp add: win_def)
  then have "unat p div 0x8000000000 = 0x1FFFFFE"
    using lt by (simp only: div_block)
  then show "index_at p 39 = 510" by (simp add: index_at_nat)
  have "unat p = 0x40000000 * (0x3FFFFFC00 + b) + (0x200000 * c + 0x1000 * d + 8 * i)"
    using assms(1) by (simp add: win_def)
  then have "unat p div 0x40000000 = 512 * 0x1FFFFFE + b"
    using lt by (simp only: div_block)
  then show "index_at p 30 = b" using lt mod_block [of b 512 "0x1FFFFFE"] by (simp add: index_at_nat)
  have "unat p = 0x200000 * (512 * (0x3FFFFFC00 + b) + c) + (0x1000 * d + 8 * i)"
    using assms(1) by (simp add: win_def)
  then have "unat p div 0x200000 = 512 * (0x3FFFFFC00 + b) + c"
    using lt by (simp only: div_block)
  then show "index_at p 21 = c" using lt mod_block [of c 512 "0x3FFFFFC00 + b"] by (simp add: index_at_nat)
  have "unat p = 0x1000 * (512 * (512 * (0x3FFFFFC00 + b) + c) + d) + 8 * i"
    using assms(1) by (simp add: win_def)
  then have "unat p div 0x1000 = 512 * (512 * (0x3FFFFFC00 + b) + c) + d"
    using lt by (simp only: div_block)
  then show "index_at p 12 = d" using lt mod_block [of d 512 "512 * (0x3FFFFFC00 + b) + c"] by (simp add: index_at_nat)
  have "unat p = 8 * (512 * (512 * (512 * (0x3FFFFFC00 + b) + c) + d) + i)"
    using assms(1) by (simp add: win_def)
  then have "unat p div 8 = 512 * (512 * (512 * (0x3FFFFFC00 + b) + c) + d) + i" by simp
  then show "index_at p 3 = i"
    using lt mod_block [of i 512 "512 * (512 * (0x3FFFFFC00 + b) + c) + d"] by (simp add: index_at_nat)
qed

lemma unat_elem_win:
  assumes "unat p = win b c d" and "b < 512" "c < 512" "d < 512" "i < 512"
  shows "unat (elem p i) = win b c d + 8 * i"
proof -
  have i: "unat (of_nat i :: u64) = i" unfolding unat_of_nat using assms(5) by simp
  have "win b c d + 8 * i < 2 ^ 64" using assms(2-5) by (simp add: win_def)
  then show ?thesis using assms(1) i by (simp add: elem_def unat_word_ariths)
qed

lemma unat_push_index: "i < 512 \<Longrightarrow> k \<le> 30 \<Longrightarrow> unat (push_bit k (of_nat i :: u64)) = 2 ^ k * i"
proof -
  assume i: "i < 512" and k: "k \<le> 30"
  have eq: "unat (of_nat i :: u64) = i" unfolding unat_of_nat using i by simp
  have "(2 :: nat) ^ k \<le> 2 ^ 30" using k by (intro power_increasing) auto
  then have "2 ^ k * i \<le> 2 ^ 30 * 512" using i by (intro mult_le_mono) auto
  then show ?thesis using unat_push_bit_u64 [of k "of_nat i"] eq by simp
qed

lemma unat_PL4_BASE: "unat PL4_BASE = win 510 510 510"
  by (simp add: PL4_BASE_def win_def)

lemma unat_pl3_ptr: "a < 512 \<Longrightarrow> unat (pl3_ptr a) = win 510 510 a"
  unfolding pl3_ptr_def
  by (subst unat_or_low [of _ 21]) (simp_all add: unat_push_index PL3_BASE_def win_def)

lemma unat_pl2_ptr: "a < 512 \<Longrightarrow> b < 512 \<Longrightarrow> unat (pl2_ptr a b) = win 510 a b"
proof -
  assume a: "a < 512" and b: "b < 512"
  have "unat (push_bit 12 (of_nat b :: u64) OR push_bit 21 (of_nat a)) = 2 ^ 21 * a + 2 ^ 12 * b"
    using a b by (subst or.commute, subst unat_or_low [of _ 21]) (simp_all add: unat_push_index)
  then show ?thesis unfolding pl2_ptr_def or.assoc
    using a b by (subst unat_or_low [of _ 30]) (simp_all add: PL2_BASE_def win_def)
qed

lemma unat_pl1_ptr: "a < 512 \<Longrightarrow> b < 512 \<Longrightarrow> c < 512 \<Longrightarrow> unat (pl1_ptr a b c) = win a b c"
proof -
  assume a: "a < 512" and b: "b < 512" and c: "c < 512"
  have 1: "unat (push_bit 12 (of_nat c :: u64) OR push_bit 21 (of_nat b)) = 2 ^ 21 * b + 2 ^ 12 * c"
    using b c by (subst or.commute, subst unat_or_low [of _ 21]) (simp_all add: unat_push_index)
  have "unat ((push_bit 12 (of_nat c :: u64) OR push_bit 21 (of_nat b)) OR push_bit 30 (of_nat a)) =
      2 ^ 30 * a + 2 ^ 21 * b + 2 ^ 12 * c"
    using a b c 1 by (subst or.commute, subst unat_or_low [of _ 30]) (simp_all add: unat_push_index)
  then show ?thesis unfolding pl1_ptr_def or.assoc
    using a b c by (subst unat_or_low [of _ 39]) (simp_all add: PL1_BASE_def win_def)
qed

section \<open>Pointers into tables\<close>

definition root :: "vmm \<Rightarrow> u64" where
  "root v = field51 (shift (cr3 v))"

definition self_mapped :: "vmm \<Rightarrow> bool" where
  "self_mapped v \<longleftrightarrow> (let e = tables v (root v) 510 in present e \<and> \<not> pat e \<and> phys_addr e = root v)"

definition set_entry :: "vmm \<Rightarrow> u64 \<Rightarrow> nat \<Rightarrow> pte \<Rightarrow> vmm" where
  "set_entry v t i e = v\<lparr>tables := (tables v)(t := (tables v t)(i := e))\<rparr>"

definition set_table :: "vmm \<Rightarrow> u64 \<Rightarrow> (nat \<Rightarrow> pte) \<Rightarrow> vmm" where
  "set_table v t g = v\<lparr>tables := (tables v)(t := g)\<rparr>"

text \<open>The virtual address \<open>p\<close> resolves to the table in page \<open>t\<close>.\<close>

definition points :: "vmm \<Rightarrow> u64 \<Rightarrow> u64 \<Rightarrow> bool" where
  "points v p t \<longleftrightarrow> (\<forall>i < 512. mmu_frame v (elem p i) = Some t \<and> index_at (elem p i) 3 = i)"

lemma load_points: "points v p t \<Longrightarrow> i < 512 \<Longrightarrow> load_entry v (elem p i) = Some (tables v t i)"
  by (auto simp: points_def load_entry_def index_at_def)

lemma store_points: "points v p t \<Longrightarrow> i < 512 \<Longrightarrow> store_entry v (elem p i) e = Some (set_entry v t i e)"
  by (auto simp: points_def store_entry_def index_at_def set_entry_def)

lemma elem_0 [simp]: "elem p 0 = p"
  by (simp add: elem_def)

lemma points_PL4: "self_mapped v \<Longrightarrow> points v PL4_BASE (root v)"
proof -
  assume "self_mapped v"
  moreover have "index_at (elem PL4_BASE i) 39 = 510" "index_at (elem PL4_BASE i) 30 = 510"
    "index_at (elem PL4_BASE i) 21 = 510" "index_at (elem PL4_BASE i) 12 = 510"
    "index_at (elem PL4_BASE i) 3 = i" if "i < 512" for i
    using win_index [OF unat_elem_win [OF unat_PL4_BASE]] that by auto
  ultimately show ?thesis
    by (auto simp: points_def mmu_frame_def self_mapped_def Let_def root_def)
qed

lemma points_pl3:
  assumes "self_mapped v" and "a < 512" and "present (tables v (root v) a)"
  shows "points v (pl3_ptr a) (phys_addr (tables v (root v) a))"
proof -
  have "index_at (elem (pl3_ptr a) i) 39 = 510" "index_at (elem (pl3_ptr a) i) 30 = 510"
    "index_at (elem (pl3_ptr a) i) 21 = 510" "index_at (elem (pl3_ptr a) i) 12 = a"
    "index_at (elem (pl3_ptr a) i) 3 = i" if "i < 512" for i
    using win_index [OF unat_elem_win [OF unat_pl3_ptr [OF assms(2)]]] that assms(2) by auto
  with assms show ?thesis
    by (auto simp: points_def mmu_frame_def self_mapped_def Let_def root_def)
qed

lemma points_pl2:
  assumes "self_mapped v" and "a < 512" and "b < 512" and "e = tables v (root v) a"
    and "present e" and "\<not> pat e" and "present (tables v (phys_addr e) b)"
  shows "points v (pl2_ptr a b) (phys_addr (tables v (phys_addr e) b))"
proof -
  have "index_at (elem (pl2_ptr a b) i) 39 = 510" "index_at (elem (pl2_ptr a b) i) 30 = 510"
    "index_at (elem (pl2_ptr a b) i) 21 = a" "index_at (elem (pl2_ptr a b) i) 12 = b"
    "index_at (elem (pl2_ptr a b) i) 3 = i" if "i < 512" for i
    using win_index [OF unat_elem_win [OF unat_pl2_ptr [OF assms(2,3)]]] that assms(2,3) by auto
  with assms show ?thesis
    by (auto simp: points_def mmu_frame_def self_mapped_def Let_def root_def)
qed

lemma points_pl1:
  assumes "self_mapped v" and "a < 512" and "b < 512" and "c < 512" and "e = tables v (root v) a"
    and "present e" and "\<not> pat e" and "d = tables v (phys_addr e) b"
    and "present d" and "\<not> pat d" and "present (tables v (phys_addr d) c)"
  shows "points v (pl1_ptr a b c) (phys_addr (tables v (phys_addr d) c))"
proof -
  have "index_at (elem (pl1_ptr a b c) i) 39 = 510" "index_at (elem (pl1_ptr a b c) i) 30 = a"
    "index_at (elem (pl1_ptr a b c) i) 21 = b" "index_at (elem (pl1_ptr a b c) i) 12 = c"
    "index_at (elem (pl1_ptr a b c) i) 3 = i" if "i < 512" for i
    using win_index [OF unat_elem_win [OF unat_pl1_ptr [OF assms(2-4)]]] that assms(2-4) by auto
  with assms show ?thesis
    by (auto simp: points_def mmu_frame_def self_mapped_def Let_def root_def)
qed

lemma pl1_ptr_elem_nonzero: "a < 512 \<Longrightarrow> b < 512 \<Longrightarrow> c < 512 \<Longrightarrow> i < 512 \<Longrightarrow> elem (pl1_ptr a b c) i \<noteq> 0"
  using unat_elem_win [OF unat_pl1_ptr, of a b c i] by (auto simp: win_def)

lemma fill_entries_points:
  assumes "\<And>g. points (set_table v t g) p t" and "n \<le> 512"
  shows "fill_entries v p n e = Some (set_table v t (\<lambda>i. if i < n then e else tables v t i))"
  using assms(2)
proof (induction n)
  case 0
  then show ?case by (simp add: set_table_def)
next
  case (Suc n)
  have "(\<lambda>i. if i < n then e else tables v t i)(n := e) = (\<lambda>i. if i < Suc n then e else tables v t i)"
    by (auto simp: less_Suc_eq)
  then show ?case using Suc store_points [OF assms(1), of n]
    by (simp add: set_entry_def set_table_def)
qed

section \<open>The tree of tables\<close>

text \<open>The page a path of indices leads to, the last index first: a table for up to three indices, and
  with four an allocated page.  The recursive entry is not a path.\<close>

fun node :: "vmm \<Rightarrow> nat list \<Rightarrow> u64 option" where
  "node v [] = Some (root v)"
| "node v (i # p) =
    (case node v p of
       None \<Rightarrow> None
     | Some t \<Rightarrow>
         if i < 512 \<and> (p = [] \<longrightarrow> i \<noteq> 510) \<and> present (tables v t i) \<and>
           (if length p = 3 then avl (tables v t i) = AVL_ALLOCATED else \<not> pat (tables v t i))
         then Some (phys_addr (tables v t i)) else None)"

text \<open>No page has two owners, no owned page is free, no 2 MiB bit is set above the third table, and an
  absent page is not marked allocated.\<close>

definition vmm_wf :: "vmm \<Rightarrow> bool" where
  "vmm_wf v \<longleftrightarrow> paging v \<and> pmm_inv (frames v) \<and> self_mapped v \<and>
    (\<forall>p q t. length p \<le> 4 \<and> length q \<le> 4 \<and> node v p = Some t \<and> node v q = Some t \<longrightarrow> p = q) \<and>
    (\<forall>p t. length p \<le> 4 \<and> node v p = Some t \<longrightarrow> unat t < 2 ^ 32 \<and> \<not> page_free (frames v) (unat t)) \<and>
    (\<forall>p t i. length p \<le> 1 \<and> node v p = Some t \<and> i < 512 \<longrightarrow> \<not> pat (tables v t i)) \<and>
    (\<forall>p t i. length p = 3 \<and> node v p = Some t \<and> i < 512 \<and> \<not> present (tables v t i) \<longrightarrow>
      avl (tables v t i) \<noteq> AVL_ALLOCATED)"

lemma wf_self: "vmm_wf v \<Longrightarrow> self_mapped v"
  by (simp add: vmm_wf_def)

lemma wf_inj: "vmm_wf v \<Longrightarrow> node v p = Some t \<Longrightarrow> node v q = Some t \<Longrightarrow> length p \<le> 4 \<Longrightarrow> length q \<le> 4 \<Longrightarrow> p = q"
  unfolding vmm_wf_def by blast

lemma wf_owned: "vmm_wf v \<Longrightarrow> node v p = Some t \<Longrightarrow> length p \<le> 4 \<Longrightarrow> unat t < 2 ^ 32 \<and> \<not> page_free (frames v) (unat t)"
  unfolding vmm_wf_def by blast

lemma wf_pat: "vmm_wf v \<Longrightarrow> node v p = Some t \<Longrightarrow> length p \<le> 1 \<Longrightarrow> i < 512 \<Longrightarrow> \<not> pat (tables v t i)"
  unfolding vmm_wf_def by blast

lemma wf_avl: "vmm_wf v \<Longrightarrow> node v p = Some t \<Longrightarrow> length p = 3 \<Longrightarrow> i < 512 \<Longrightarrow>
    \<not> present (tables v t i) \<Longrightarrow> avl (tables v t i) \<noteq> AVL_ALLOCATED"
  unfolding vmm_wf_def by blast

lemma node_cong:
  assumes "root v' = root v"
    and "\<And>j r t. suffix (j # r) q \<Longrightarrow> node v r = Some t \<Longrightarrow> tables v' t j = tables v t j"
  shows "node v' q = node v q"
  using assms(2)
proof (induction q)
  case Nil
  then show ?case using assms(1) by simp
next
  case (Cons i p)
  have "node v' p = node v p" using Cons.prems by (intro Cons.IH) (auto intro: suffix_ConsI)
  moreover have "tables v' t i = tables v t i" if "node v p = Some t" for t
    using Cons.prems [of i p t] that by simp
  ultimately show ?case by (auto split: option.splits)
qed

lemma node_None_extend: "node v p = None \<Longrightarrow> suffix p q \<Longrightarrow> node v q = None"
  by (induction q) (auto simp: suffix_Cons)

lemmas node_Cons = node.simps(2)

declare node.simps(2) [simp del]

section \<open>Adding a table\<close>

definition add_table :: "vmm \<Rightarrow> u64 \<Rightarrow> nat \<Rightarrow> u64 \<Rightarrow> (nat \<Rightarrow> pte) \<Rightarrow> pmm \<Rightarrow> vmm" where
  "add_table v t i f g s =
    (set_table (set_entry v t i ((tables v t i)\<lparr>present := True, phys_addr := f\<rparr>)) f g)\<lparr>frames := s\<rparr>"

text \<open>The situation in which the walk adds a table in page \<open>f\<close> at entry \<open>i\<close> of the table at path \<open>p\<close>.\<close>

definition can_add :: "vmm \<Rightarrow> nat list \<Rightarrow> u64 \<Rightarrow> nat \<Rightarrow> u64 \<Rightarrow> (nat \<Rightarrow> pte) \<Rightarrow> pmm \<Rightarrow> bool" where
  "can_add v p t i f g s \<longleftrightarrow> vmm_wf v \<and> node v p = Some t \<and> length p \<le> 2 \<and> i < 512 \<and> (p = [] \<longrightarrow> i \<noteq> 510) \<and>
    \<not> present (tables v t i) \<and> \<not> pat (tables v t i) \<and>
    page_free (frames v) (unat f) \<and> unat f < 2 ^ 32 \<and> pmm_inv s \<and>
    max_index s = max_index (frames v) \<and>
    (\<forall>h. page_free s h \<longleftrightarrow> page_free (frames v) h \<and> h \<noteq> unat f) \<and>
    (\<forall>j < 512. \<not> present (g j) \<and> \<not> pat (g j) \<and> avl (g j) \<noteq> AVL_ALLOCATED)"

lemma add_table_root [simp]: "root (add_table v t i f g s) = root v"
  by (simp add: add_table_def set_table_def set_entry_def root_def)

lemma add_table_fields [simp]:
  "cr3 (add_table v t i f g s) = cr3 v" "frames (add_table v t i f g s) = s"
  "paging (add_table v t i f g s) = paging v"
  by (simp_all add: add_table_def set_table_def set_entry_def)

lemma add_table_tables:
  "tables (add_table v t i f g s) h j =
    (if h = f then g j else if h = t \<and> j = i then (tables v t i)\<lparr>present := True, phys_addr := f\<rparr> else tables v h j)"
  by (simp add: add_table_def set_table_def set_entry_def)

lemma can_add_fresh: "can_add v p t i f g s \<Longrightarrow> node v q = Some h \<Longrightarrow> length q \<le> 4 \<Longrightarrow> h \<noteq> f"
  using wf_owned by (fastforce simp: can_add_def)

lemma node_add_table:
  assumes a: "can_add v p t i f g s" and q: "length q \<le> 4"
  shows "node (add_table v t i f g s) q = (if q = i # p then Some f else node v q)"
proof -
  let ?v = "add_table v t i f g s"
  note A = a [unfolded can_add_def]
  have out: "node ?v r = node v r" if r: "\<not> suffix (i # p) r" "length r \<le> 4" for r
  proof (rule node_cong)
    fix j r' h
    assume s: "suffix (j # r') r" and n: "node v r' = Some h"
    have l: "length r' \<le> 3" using suffix_length_le [OF s] r(2) by simp
    have "h \<noteq> f" using can_add_fresh [OF a n] l by simp
    moreover have "\<not> (h = t \<and> j = i)"
      using A n l wf_inj [of v r' t p] s r(1) by auto
    ultimately show "tables ?v h j = tables v h j" by (auto simp: add_table_tables)
  qed simp
  have "\<not> suffix (i # p) p" using suffix_length_le [of "i # p" p] by auto
  then have p: "node ?v p = Some t" using out [of p] A by simp
  have ip: "node ?v (i # p) = Some f"
    using p A can_add_fresh [OF a, of p t] by (simp add: add_table_tables node_Cons)
  have "node v (i # p) = None" using A by (simp add: node_Cons)
  then have old: "node v r = None" if "suffix (i # p) r" for r
    using that by (rule node_None_extend)
  have new: "node ?v r = None" if "suffix (i # p) r" "r \<noteq> i # p" for r
  proof -
    from that obtain zs where "r = zs @ (i # p)" "zs \<noteq> []" by (auto simp: suffix_def)
    then obtain ys j where r: "r = ys @ (j # i # p)" by (metis append.assoc append_Cons append_Nil rev_exhaust)
    have "node ?v (j # i # p) = None" unfolding node_Cons [of ?v j] ip using A by (auto simp: add_table_tables)
    then show ?thesis by (rule node_None_extend) (auto simp: r suffix_def)
  qed
  show ?thesis using out [of q] ip old [of q] new [of q] q by (cases "suffix (i # p) q") auto
qed

lemma wf_add_table:
  assumes a: "can_add v p t i f g s"
  shows "vmm_wf (add_table v t i f g s)"
proof -
  let ?v = "add_table v t i f g s"
  note A = a [unfolded can_add_def]
  have wf: "vmm_wf v" using A by blast
  note n = node_add_table [OF a]
  have fresh: "h \<noteq> f" if "node v q = Some h" "length q \<le> 4" for q h
    using can_add_fresh [OF a that] .
  have nof: "node v q \<noteq> Some f" if "length q \<le> 4" for q
    using fresh [of q f] that by blast
  have "self_mapped ?v"
    using wf_self [OF wf] fresh [of "[]"] A wf_inj [of v p t "[]"]
    by (auto simp: self_mapped_def add_table_tables Let_def)
  moreover have "\<forall>q r h. length q \<le> 4 \<and> length r \<le> 4 \<and> node ?v q = Some h \<and> node ?v r = Some h \<longrightarrow> q = r"
  proof (intro allI impI)
    fix q r h
    assume "length q \<le> 4 \<and> length r \<le> 4 \<and> node ?v q = Some h \<and> node ?v r = Some h"
    then show "q = r" using n [of q] n [of r] nof [of q] nof [of r] wf_inj [OF wf, of q h r] by (auto split: if_splits)
  qed
  moreover have "\<forall>q h. length q \<le> 4 \<and> node ?v q = Some h \<longrightarrow> unat h < 2 ^ 32 \<and> \<not> page_free s (unat h)"
    using n A wf_owned [OF wf] by (auto split: if_splits)
  moreover have "\<forall>q h j. length q \<le> 1 \<and> node ?v q = Some h \<and> j < 512 \<longrightarrow> \<not> pat (tables ?v h j)"
    using n A wf_pat [OF wf] by (auto simp: add_table_tables split: if_splits)
  moreover have "\<forall>q h j. length q = 3 \<and> node ?v q = Some h \<and> j < 512 \<and> \<not> present (tables ?v h j) \<longrightarrow>
      avl (tables ?v h j) \<noteq> AVL_ALLOCATED"
    using n A wf_avl [OF wf] by (auto simp: add_table_tables split: if_splits)
  ultimately show ?thesis using A by (simp add: vmm_wf_def)
qed

section \<open>Translation\<close>

text \<open>The walk of the memory management unit, for addresses outside the recursive window.\<close>

lemma mmu_frame_node:
  assumes wf: "vmm_wf v" and "index_at va 39 \<noteq> 510"
  shows "mmu_frame v va =
    (case node v [index_at va 30, index_at va 39] of
       None \<Rightarrow> None
     | Some t \<Rightarrow>
        (let e2 = tables v t (index_at va 21); e1 = tables v (phys_addr e2) (index_at va 12)
         in if \<not> present e2 then None
            else if pat e2 then Some ((phys_addr e2 AND NOT 0x1FF) OR (drop_bit 12 va AND 0x1FF))
            else if present e1 then Some (phys_addr e1) else None))"
proof -
  let ?e4 = "tables v (root v) (index_at va 39)"
  have "\<not> pat ?e4" using wf_pat [OF wf, of "[]"] by simp
  moreover have "\<not> pat (tables v (phys_addr ?e4) (index_at va 30))" if "present ?e4"
    using wf_pat [OF wf, of "[index_at va 39]"] that assms(2) \<open>\<not> pat ?e4\<close> by (simp add: node_Cons)
  ultimately show ?thesis
    using assms(2) by (auto simp: mmu_frame_def Let_def node_Cons root_def [symmetric])
qed

text \<open>The region of an address does not hold 2 MiB pages.\<close>

definition small_pages :: "vmm \<Rightarrow> u64 \<Rightarrow> bool" where
  "small_pages v va \<longleftrightarrow> (case node v [index_at va 30, index_at va 39] of
     None \<Rightarrow> True | Some t \<Rightarrow> \<not> pat (tables v t (index_at va 21)))"

text \<open>The page tables \<open>v'\<close> extend \<open>v\<close>: nothing that was mapped changes and nothing new is mapped.\<close>

definition grows :: "vmm \<Rightarrow> vmm \<Rightarrow> bool" where
  "grows v v' \<longleftrightarrow> vmm_wf v' \<and> root v' = root v \<and> cr3 v' = cr3 v \<and>
    (\<forall>va. index_at va 39 \<noteq> 510 \<longrightarrow> mmu_frame v' va = mmu_frame v va) \<and>
    (\<forall>va. small_pages v va \<longrightarrow> small_pages v' va) \<and>
    (\<forall>q t. length q \<le> 4 \<and> node v q = Some t \<longrightarrow> node v' q = Some t) \<and>
    (\<forall>q. length q = 4 \<longrightarrow> node v' q = node v q) \<and>
    (\<forall>q t j. length q = 3 \<and> node v q = Some t \<longrightarrow> tables v' t j = tables v t j) \<and>
    (\<forall>f. page_free (frames v') f \<longrightarrow> page_free (frames v) f) \<and>
    max_index (frames v') = max_index (frames v)"

lemma grows_refl: "vmm_wf v \<Longrightarrow> grows v v"
  by (simp add: grows_def)

lemma grows_trans: "grows v w \<Longrightarrow> grows w u \<Longrightarrow> grows v u"
proof -
  assume a: "grows v w" and b: "grows w u"
  have "\<forall>q t j. length q = 3 \<and> node v q = Some t \<longrightarrow> tables u t j = tables v t j"
  proof (intro allI impI, elim conjE)
    fix q t j assume q: "length q = 3" "node v q = Some t"
    have "node w q = Some t" using a q by (simp add: grows_def)
    then have "tables u t j = tables w t j" using b q by (simp add: grows_def)
    then show "tables u t j = tables v t j" using a q by (simp add: grows_def)
  qed
  with a b show ?thesis unfolding grows_def by simp
qed

lemma grows_wf: "grows v w \<Longrightarrow> vmm_wf w"
  by (simp add: grows_def)

lemma grows_node: "grows v w \<Longrightarrow> node v q = Some t \<Longrightarrow> length q \<le> 4 \<Longrightarrow> node w q = Some t"
  by (simp add: grows_def)

lemma grows_add_table:
  assumes a: "can_add v p t i f g s"
  shows "grows v (add_table v t i f g s)"
proof -
  let ?v = "add_table v t i f g s"
  note A = a [unfolded can_add_def]
  have wf: "vmm_wf v" and wf': "vmm_wf ?v" using A wf_add_table [OF a] by auto
  note n = node_add_table [OF a]
  have "mmu_frame ?v va = mmu_frame v va" if va: "index_at va 39 \<noteq> 510" for va
  proof -
    let ?r = "[index_at va 30, index_at va 39]"
    have "mmu_frame ?v va = None" if "node v ?r = None"
      using A n [of ?r] that by (auto simp: mmu_frame_node [OF wf' va] add_table_tables split: if_splits)
    moreover have "mmu_frame ?v va = mmu_frame v va" if h: "node v ?r = Some h" for h
    proof -
      have neq: "?r \<noteq> i # p" using A h by (auto simp: node_Cons)
      have hf: "h \<noteq> f" using can_add_fresh [OF a h] by simp
      show ?thesis
      proof (cases "h = t \<and> index_at va 21 = i")
        case True
        then show ?thesis using A h n [of ?r] neq hf
          by (auto simp: mmu_frame_node [OF wf' va] mmu_frame_node [OF wf va] add_table_tables Let_def)
      next
        case False
        let ?e = "tables v h (index_at va 21)"
        have e: "tables ?v h (index_at va 21) = ?e" using False hf by (auto simp: add_table_tables)
        have "tables ?v (phys_addr ?e) j = tables v (phys_addr ?e) j" if "present ?e" "\<not> pat ?e" for j
        proof -
          have x: "node v (index_at va 21 # ?r) = Some (phys_addr ?e)"
            using h that by (simp add: node_Cons [of v "index_at va 21"])
          then have "phys_addr ?e \<noteq> f" using can_add_fresh [OF a x] by simp
          moreover have "phys_addr ?e \<noteq> t" using wf_inj [OF wf x, of p] A by auto
          ultimately show ?thesis by (simp add: add_table_tables)
        qed
        then show ?thesis using e h n [of ?r] neq
          by (auto simp: mmu_frame_node [OF wf' va] mmu_frame_node [OF wf va] Let_def)
      qed
    qed
    moreover have "mmu_frame v va = None" if "node v ?r = None"
      using that by (simp add: mmu_frame_node [OF wf va])
    ultimately show ?thesis by (cases "node v ?r") auto
  qed
  moreover have "node ?v q = Some h" if "length q \<le> 4" "node v q = Some h" for q h
    using n [OF that(1)] that(2) A by (auto simp: node_Cons)
  moreover have "node ?v q = node v q" if "length q = 4" for q
    using n [of q] that A by auto
  moreover have "tables ?v h j = tables v h j" if "length q = 3" "node v q = Some h" for q h j
    using can_add_fresh [OF a that(2)] wf_inj [OF wf that(2), of p] that A by (auto simp: add_table_tables)
  moreover have "small_pages ?v va" if "small_pages v va" for va
    using that n [of "[index_at va 30, index_at va 39]"] A
    by (cases "node v [index_at va 30, index_at va 39]") (auto simp: small_pages_def add_table_tables)
  ultimately show ?thesis using wf' A unfolding grows_def by (intro conjI allI impI) auto
qed

section \<open>Walking to a page\<close>

lemma unat_page_field:
  assumes "unat a = 4096 * f" and "f < 2 ^ 32"
  shows "unat (field51 (shift a)) = f"
proof -
  have "unat (field51 (shift a)) = take_bit 51 (drop_bit 12 (unat a))"
    unfolding field51_def shift_def by (simp only: unsigned_take_bit_eq unat_drop_bit_eq)
  then show ?thesis using assms by (simp add: drop_bit_eq_div take_bit_nat_eq_self)
qed

lemma wf_frames:
  assumes "vmm_wf v" and "pmm_inv s" and "\<And>h. page_free s h \<Longrightarrow> page_free (frames v) h"
    and "max_index s = max_index (frames v)"
  shows "grows v (v\<lparr>frames := s\<rparr>)"
proof -
  let ?v = "v\<lparr>frames := s\<rparr>"
  have n: "node ?v q = node v q" for q by (rule node_cong) (simp_all add: root_def)
  have m: "mmu_frame ?v va = mmu_frame v va" for va by (simp add: mmu_frame_def)
  have "\<And>p t. length p \<le> 4 \<Longrightarrow> node v p = Some t \<Longrightarrow> \<not> page_free s (unat t)"
    using wf_owned [OF assms(1)] assms(3) by blast
  then have "vmm_wf ?v" using assms(1,2) by (auto simp: vmm_wf_def n self_mapped_def root_def)
  moreover have "small_pages ?v va = small_pages v va" for va
    by (cases "node v [index_at va 30, index_at va 39]") (simp_all add: small_pages_def n)
  ultimately show ?thesis using assms by (simp add: grows_def n m root_def)
qed

lemma alloc_frame_max_index: "pmm_alloc_frame s = (a, s') \<Longrightarrow> max_index s' = max_index s"
  using alloc_frame_loop_cases [of "unat (cur_index s)" s] by (auto simp: pmm_alloc_frame_def)

text \<open>The number of pages the allocator can still hand out; address 0 stands for failure, so page 0 blocks it.\<close>

definition avail :: "pmm \<Rightarrow> nat" where
  "avail s = (if page_free s 0 then 0 else card {f. page_free s f})"

lemma alloc_frame_cases:
  assumes wf: "vmm_wf v" and r: "alloc_frame v = (phys, v1)"
  obtains s where "v1 = v\<lparr>frames := s\<rparr>" and "pmm_inv s" and "grows v v1"
    and "phys \<noteq> 0 \<longrightarrow> unat phys = 4096 * unat (field51 (shift phys)) \<and>
      page_free (frames v) (unat (field51 (shift phys))) \<and> unat (field51 (shift phys)) < 2 ^ 32 \<and>
      (\<forall>h. page_free s h \<longleftrightarrow> page_free (frames v) h \<and> h \<noteq> unat (field51 (shift phys)))"
    and "phys = 0 \<longrightarrow> avail (frames v) = 0" and "avail (frames v) \<le> avail s + 1"
    and "max_index s = max_index (frames v)"
proof -
  have inv: "pmm_inv (frames v)" and pg: "paging v" using wf by (simp_all add: vmm_wf_def)
  obtain s where s: "pmm_alloc_frame (frames v) = (phys, s)" "v1 = v\<lparr>frames := s\<rparr>"
    using r pg by (auto simp: alloc_frame_def split: prod.splits)
  have mx: "max_index s = max_index (frames v)" by (rule alloc_frame_max_index [OF s(1)])
  show ?thesis
  proof (cases "{f. page_free (frames v) f} = {}")
    case True
    then have "phys = 0" "s = frames v" using pm.alloc_none [OF inv] s by auto
    then show ?thesis using that [OF s(2)] inv s(2) grows_refl [OF wf] True by (simp add: avail_def)
  next
    case False
    from pm.alloc_some [OF inv False s(1)] obtain f where
      f: "page_free (frames v) f" "unat phys = 4096 * f"
        "\<And>h. page_free s h \<longleftrightarrow> page_free (frames v) h \<and> h \<noteq> f" "pmm_inv s" by auto
    have lt: "f < 2 ^ 32" using pm.pages_bound [OF inv] f(1) by auto
    have "{h. page_free s h} = {h. page_free (frames v) h} - {f}" using f(3) by auto
    then have c: "card {h. page_free s h} = card {h. page_free (frames v) h} - 1" using f(1) by simp
    have "page_free s 0 \<Longrightarrow> page_free (frames v) 0" using f(3) by blast
    then have av: "avail (frames v) \<le> avail s + 1" using c unfolding avail_def by (simp, arith)
    show ?thesis
    proof (rule that [OF s(2) f(4)])
      show "grows v v1" unfolding s(2) by (rule wf_frames [OF wf f(4)]) (simp_all add: f(3) mx)
      show "phys = 0 \<longrightarrow> avail (frames v) = 0" using f(1,2) by (auto simp: avail_def)
    qed (use unat_page_field [OF f(2) lt] f lt av mx in simp_all)
  qed
qed

text \<open>The initialisation of the next table fills page \<open>f\<close> with absent entries once the entry points to it.\<close>

definition fills :: "vmm \<Rightarrow> nat list \<Rightarrow> u64 \<Rightarrow> nat \<Rightarrow> (vmm \<Rightarrow> vmm option) \<Rightarrow> bool" where
  "fills v p t i init \<longleftrightarrow> (\<forall>f s. (\<forall>q. length q \<le> 4 \<longrightarrow> node v q \<noteq> Some f) \<longrightarrow>
    (\<exists>g. (\<forall>j < 512. \<not> present (g j) \<and> \<not> pat (g j) \<and> avl (g j) \<noteq> AVL_ALLOCATED) \<and>
      init (set_entry v t i ((tables v t i)\<lparr>present := True, phys_addr := f\<rparr>)\<lparr>frames := s\<rparr>) =
        Some (add_table v t i f g s)))"

lemma points_frames [simp]: "points (v\<lparr>frames := s\<rparr>) p t = points v p t"
  by (simp add: points_def mmu_frame_def)

lemma check_level_ok:
  assumes wf: "vmm_wf v" and node: "node v p = Some t" and p: "length p \<le> 2" and i: "i < 512" "p = [] \<longrightarrow> i \<noteq> 510"
    and pat: "\<not> pat (tables v t i)" and pt: "points v ptr t" and fl: "fills v p t i init"
  shows "\<exists>ok v'. check_level v ptr i mk init = Some (ok, v') \<and> grows v v' \<and> (\<not> mk \<longrightarrow> v' = v) \<and>
    (ok \<longrightarrow> node v' (i # p) \<noteq> None) \<and> (\<not> ok \<longrightarrow> node v (i # p) = None) \<and>
    avail (frames v) \<le> avail (frames v') + 1 \<and> (mk \<and> \<not> ok \<longrightarrow> avail (frames v) = 0)"
proof (cases "present (tables v t i)")
  case True
  then have "node v (i # p) = Some (phys_addr (tables v t i))"
    using node p i pat by (simp add: node_Cons)
  then show ?thesis using True wf load_points [OF pt i(1)] by (auto simp: check_level_def grows_refl)
next
  case False
  obtain phys v1 where r: "alloc_frame v = (phys, v1)" by fastforce
  obtain s where
    v1: "v1 = v\<lparr>frames := s\<rparr>" and inv: "pmm_inv s" and gr: "grows v v1"
    and ok: "phys \<noteq> 0 \<longrightarrow> unat phys = 4096 * unat (field51 (shift phys)) \<and>
      page_free (frames v) (unat (field51 (shift phys))) \<and> unat (field51 (shift phys)) < 2 ^ 32 \<and>
      (\<forall>h. page_free s h \<longleftrightarrow> page_free (frames v) h \<and> h \<noteq> unat (field51 (shift phys)))"
    and av: "phys = 0 \<longrightarrow> avail (frames v) = 0" "avail (frames v) \<le> avail s + 1"
    and mx: "max_index s = max_index (frames v)" by (rule alloc_frame_cases [OF wf r])
  let ?f = "field51 (shift phys)"
  have none: "node v (i # p) = None" using False node p by (simp add: node_Cons)
  have pt1: "points v1 ptr t" using pt v1 by simp
  consider "\<not> mk" | "mk" "phys = 0" | "mk" "phys \<noteq> 0" by blast
  then show ?thesis
  proof cases
    case 1
    then show ?thesis using False wf load_points [OF pt i(1)] none by (auto simp: check_level_def grows_refl)
  next
    case 2
    then show ?thesis using False load_points [OF pt i(1)] r gr v1 none av
      by (auto simp: check_level_def alloc_pde_def)
  next
    case 3
    have fresh: "node v q \<noteq> Some ?f" if "length q \<le> 4" for q
      using wf_owned [OF wf _ that] ok 3 by auto
    then obtain g where g: "\<forall>j < 512. \<not> present (g j) \<and> \<not> pat (g j) \<and> avl (g j) \<noteq> AVL_ALLOCATED"
      "init (set_entry v t i ((tables v t i)\<lparr>present := True, phys_addr := ?f\<rparr>)\<lparr>frames := s\<rparr>) =
        Some (add_table v t i ?f g s)"
      using fl unfolding fills_def by meson
    have a: "can_add v p t i ?f g s"
      unfolding can_add_def using wf node p i False pat inv ok 3 g(1) mx by blast
    have "set_entry v1 t i e = set_entry v t i e\<lparr>frames := s\<rparr>" for e by (simp add: v1 set_entry_def)
    then have "check_level v ptr i mk init = Some (True, add_table v t i ?f g s)"
      using False 3 r load_points [OF pt i(1)] load_points [OF pt1 i(1)] store_points [OF pt1 i(1)] g(2) v1
      by (simp add: check_level_def alloc_pde_def)
    then show ?thesis using grows_add_table [OF a] node_add_table [OF a, of "i # p"] p 3 av by auto
  qed
qed

lemma add_table_alt: "add_table v t i f g s =
    set_table (set_entry v t i ((tables v t i)\<lparr>present := True, phys_addr := f\<rparr>)\<lparr>frames := s\<rparr>) f g"
  by (simp add: add_table_def set_table_def)

lemma default_entries [simp]:
  "\<not> present (default_pde m ps)" "pat (default_pde m ps) = ps" "avl (default_pde m ps) = 0"
  "\<not> present (default_pte m)" "\<not> pat (default_pte m)" "avl (default_pte m) = 0"
  by (simp_all add: default_pde_def default_pte_def)

text \<open>While a new table is being filled, everything on the walk to it stays as it was.\<close>

lemma fills_walk:
  assumes wf: "vmm_wf v" and node: "node v p = Some t" and p: "length p \<le> 2" and i: "i < 512" "p = [] \<longrightarrow> i \<noteq> 510"
    and a: "a < 512" "a \<noteq> 510"
    and nxt: "\<And>v' f. (\<And>h j. h \<noteq> f \<Longrightarrow> \<not> (h = t \<and> j = i) \<Longrightarrow> tables v' h j = tables v h j) \<Longrightarrow>
      (\<And>q. length q \<le> 4 \<Longrightarrow> node v q \<noteq> Some f) \<Longrightarrow>
      tables v' t i = (tables v t i)\<lparr>present := True, phys_addr := f\<rparr> \<Longrightarrow> cr3 v' = cr3 v \<Longrightarrow>
      self_mapped v' \<Longrightarrow> root v' = root v \<Longrightarrow> points v' nptr f"
    and d: "\<And>m. \<not> present (d m) \<and> \<not> pat (d m) \<and> avl (d m) \<noteq> AVL_ALLOCATED"
  shows "fills v p t i (\<lambda>v. do { e \<leftarrow> load_entry v (elem PL4_BASE a); fill_entries v nptr 512 (d (mode e)) })"
  unfolding fills_def
proof (intro allI impI)
  fix f s
  assume fresh: "\<forall>q. length q \<le> 4 \<longrightarrow> node v q \<noteq> Some f"
  define w where "w = set_entry v t i ((tables v t i)\<lparr>present := True, phys_addr := f\<rparr>)\<lparr>frames := s\<rparr>"
  have rf: "root v \<noteq> f" "t \<noteq> f" using fresh [rule_format, of "[]"] fresh [rule_format, of p] node p by auto
  have slot: "\<not> (root v = t \<and> i = 510)" using wf_inj [OF wf node, of "[]"] i p by auto
  have self: "self_mapped (set_table w f g)" "root (set_table w f g) = root v" for g
    using wf_self [OF wf] rf slot by (auto simp: w_def self_mapped_def set_table_def set_entry_def root_def Let_def)
  have pt: "points (set_table w f g) nptr f" for g
    by (rule nxt) (use fresh rf self in \<open>auto simp: w_def set_table_def set_entry_def\<close>)
  have "set_table w f (tables w f) = w" by (simp add: set_table_def)
  then have "self_mapped w" "root w = root v" using self [of "tables w f"] by simp_all
  from load_points [OF points_PL4 [OF this(1)] a(1)]
  have "load_entry w (elem PL4_BASE a) = Some (tables w (root w) a)" .
  then have "\<exists>g. (\<forall>j<512. \<not> present (g j) \<and> \<not> pat (g j) \<and> avl (g j) \<noteq> AVL_ALLOCATED) \<and>
      (do { e \<leftarrow> load_entry w (elem PL4_BASE a); fill_entries w nptr 512 (d (mode e)) }) =
        Some (set_table w f g)"
    using d fill_entries_points [OF pt, of 512]
    by (intro exI [of _ "\<lambda>j. if j < 512 then d (mode (tables w (root w) a)) else tables w f j"]) simp
  then show "\<exists>g. (\<forall>j<512. \<not> present (g j) \<and> \<not> pat (g j) \<and> avl (g j) \<noteq> AVL_ALLOCATED) \<and>
      (do { e \<leftarrow> load_entry (set_entry v t i ((tables v t i)\<lparr>present := True, phys_addr := f\<rparr>)\<lparr>frames := s\<rparr>)
              (elem PL4_BASE a);
            fill_entries (set_entry v t i ((tables v t i)\<lparr>present := True, phys_addr := f\<rparr>)\<lparr>frames := s\<rparr>)
              nptr 512 (d (mode e)) }) = Some (add_table v t i f g s)"
    unfolding add_table_alt w_def .
qed

lemma node1: "node v [a] = Some t \<longleftrightarrow> a < 512 \<and> a \<noteq> 510 \<and> present (tables v (root v) a) \<and>
    \<not> pat (tables v (root v) a) \<and> t = phys_addr (tables v (root v) a)"
  by (auto simp: node_Cons)

lemma node_step: "length p \<le> 2 \<Longrightarrow> p \<noteq> [] \<Longrightarrow> node v (i # p) = Some t \<longleftrightarrow>
    (\<exists>h. node v p = Some h \<and> i < 512 \<and> present (tables v h i) \<and> \<not> pat (tables v h i) \<and> t = phys_addr (tables v h i))"
  by (auto simp: node_Cons split: option.splits if_splits)

lemma points_node3:
  assumes "vmm_wf v" and "node v [a] = Some t3"
  shows "points v (pl3_ptr a) t3"
  using points_pl3 [OF wf_self [OF assms(1)], of a] assms(2) by (simp add: node1)

lemma points_node2:
  assumes "vmm_wf v" and "node v [b, a] = Some t2"
  shows "points v (pl2_ptr a b) t2"
  using points_pl2 [OF wf_self [OF assms(1)] _ _ refl, of a b] assms(2) by (auto simp: node1 node_step)

lemma points_node1:
  assumes "vmm_wf v" and "node v [c, b, a] = Some t1"
  shows "points v (pl1_ptr a b c) t1"
  using points_pl1 [OF wf_self [OF assms(1)] _ _ _ refl _ _ refl, of a b c] assms(2)
  by (auto simp: node1 node_step)

lemma fills_pl3:
  assumes wf: "vmm_wf v" and a: "a < 512" "a \<noteq> 510"
  shows "fills v [] (root v) a
    (\<lambda>v. do { e \<leftarrow> load_entry v (elem PL4_BASE a); init_pde v (pl3_ptr a) 512 (mode e) False })"
  unfolding init_pde_def
proof (rule fills_walk [OF wf _ _ a(1) _ a, where d = "\<lambda>m. default_pde m False"])
  fix v' f
  assume "self_mapped v'" and "root v' = root v"
    and "tables v' (root v) a = (tables v (root v) a)\<lparr>present := True, phys_addr := f\<rparr>"
  then show "points v' (pl3_ptr a) f" using points_pl3 [of v' a] a by simp
qed (use a in simp_all)

lemma fills_pl2:
  assumes wf: "vmm_wf v" and n: "node v [a] = Some t" and b: "b < 512"
  shows "fills v [a] t b
    (\<lambda>v. do { e \<leftarrow> load_entry v (elem PL4_BASE a); init_pde v (pl2_ptr a b) 512 (mode e) False })"
  unfolding init_pde_def
proof (rule fills_walk [OF wf n _ b, where d = "\<lambda>m. default_pde m False"])
  fix v' f
  assume same: "\<And>h j. h \<noteq> f \<Longrightarrow> \<not> (h = t \<and> j = b) \<Longrightarrow> tables v' h j = tables v h j"
    and fresh: "\<And>q. length q \<le> 4 \<Longrightarrow> node v q \<noteq> Some f"
    and s: "self_mapped v'" "root v' = root v"
    and e: "tables v' t b = (tables v t b)\<lparr>present := True, phys_addr := f\<rparr>"
  have "root v \<noteq> f" using fresh [of "[]"] by simp
  moreover have "t \<noteq> root v" using wf_inj [OF wf n, of "[]"] by auto
  ultimately have "tables v' (root v) a = tables v (root v) a" using same by simp
  then show "points v' (pl2_ptr a b) f"
    using points_pl2 [OF s(1) _ b refl, of a] s e n by (simp add: node1)
qed (use n in \<open>simp_all add: node1\<close>)

lemma fills_pl1:
  assumes wf: "vmm_wf v" and n: "node v [b, a] = Some t" and c: "c < 512"
  shows "fills v [b, a] t c
    (\<lambda>v. do { e \<leftarrow> load_entry v (elem PL4_BASE a); init_pte v (pl1_ptr a b c) 512 (mode e) })"
  unfolding init_pte_def
proof (rule fills_walk [OF wf n _ c, where d = default_pte])
  fix v' f
  assume same: "\<And>h j. h \<noteq> f \<Longrightarrow> \<not> (h = t \<and> j = c) \<Longrightarrow> tables v' h j = tables v h j"
    and fresh: "\<And>q. length q \<le> 4 \<Longrightarrow> node v q \<noteq> Some f"
    and s: "self_mapped v'" "root v' = root v"
    and e: "tables v' t c = (tables v t c)\<lparr>present := True, phys_addr := f\<rparr>"
  obtain h where h: "node v [a] = Some h" "present (tables v h b)" "\<not> pat (tables v h b)"
    "t = phys_addr (tables v h b)" "b < 512"
    using n by (auto simp: node_step)
  have "root v \<noteq> f" "h \<noteq> f" using fresh [of "[]"] fresh [of "[a]"] h by auto
  moreover have "t \<noteq> root v" "t \<noteq> h" using wf_inj [OF wf n, of "[]"] wf_inj [OF wf n, of "[a]"] h by auto
  ultimately have "tables v' (root v) a = tables v (root v) a" "tables v' h b = tables v h b" using same by simp_all
  then show "points v' (pl1_ptr a b c) f"
    using points_pl1 [OF s(1) _ h(5) c refl _ _ refl, of a] s e h by (simp add: node1)
qed (use n in \<open>auto simp: node_step node1\<close>)

lemma level4_ok:
  assumes wf: "vmm_wf v" and a: "a < 512" "a \<noteq> 510"
  shows "\<exists>ok v'. check_level v PL4_BASE a mk
      (\<lambda>v. do { e \<leftarrow> load_entry v (elem PL4_BASE a); init_pde v (pl3_ptr a) 512 (mode e) False }) = Some (ok, v') \<and>
    grows v v' \<and> (\<not> mk \<longrightarrow> v' = v) \<and> (ok \<longrightarrow> node v' [a] \<noteq> None) \<and> (\<not> ok \<longrightarrow> node v [a] = None) \<and>
    avail (frames v) \<le> avail (frames v') + 1 \<and> (mk \<and> \<not> ok \<longrightarrow> avail (frames v) = 0)"
proof (rule check_level_ok [OF wf _ _ a(1) _ _ points_PL4 [OF wf_self [OF wf]] fills_pl3 [OF wf a]])
  show "\<not> pat (tables v (root v) a)" using wf_pat [OF wf, of "[]"] a by simp
qed (use a in simp_all)

lemma level3_ok:
  assumes wf: "vmm_wf v" and n: "node v [a] = Some t" and b: "b < 512"
  shows "\<exists>ok v'. check_level v (pl3_ptr a) b mk
      (\<lambda>v. do { e \<leftarrow> load_entry v (elem PL4_BASE a); init_pde v (pl2_ptr a b) 512 (mode e) False }) = Some (ok, v') \<and>
    grows v v' \<and> (\<not> mk \<longrightarrow> v' = v) \<and> (ok \<longrightarrow> node v' [b, a] \<noteq> None) \<and> (\<not> ok \<longrightarrow> node v [b, a] = None) \<and>
    avail (frames v) \<le> avail (frames v') + 1 \<and> (mk \<and> \<not> ok \<longrightarrow> avail (frames v) = 0)"
  by (rule check_level_ok [OF wf n _ b _ _ points_node3 [OF wf n] fills_pl2 [OF wf n b]])
    (use wf_pat [OF wf n] b in simp_all)

lemma level2_ok:
  assumes wf: "vmm_wf v" and n: "node v [b, a] = Some t" and c: "c < 512" and small: "\<not> pat (tables v t c)"
  shows "\<exists>ok v'. check_level v (pl2_ptr a b) c mk
      (\<lambda>v. do { e \<leftarrow> load_entry v (elem PL4_BASE a); init_pte v (pl1_ptr a b c) 512 (mode e) }) = Some (ok, v') \<and>
    grows v v' \<and> (\<not> mk \<longrightarrow> v' = v) \<and> (ok \<longrightarrow> node v' [c, b, a] \<noteq> None) \<and> (\<not> ok \<longrightarrow> node v [c, b, a] = None) \<and>
    avail (frames v) \<le> avail (frames v') + 1 \<and> (mk \<and> \<not> ok \<longrightarrow> avail (frames v) = 0)"
  by (rule check_level_ok [OF wf n _ c _ small points_node2 [OF wf n] fills_pl1 [OF wf n c]]) simp_all

lemma get_page_ok:
  assumes wf: "vmm_wf v" and va: "index_at va 39 \<noteq> 510" and small: "small_pages v va"
  shows "\<exists>p v'. get_page v va mk = Some (p, v') \<and> grows v v' \<and> (\<not> mk \<longrightarrow> v' = v) \<and>
    (p \<noteq> 0 \<longrightarrow> p = elem (pl1_ptr (index_at va 39) (index_at va 30) (index_at va 21)) (index_at va 12) \<and>
      node v' [index_at va 21, index_at va 30, index_at va 39] \<noteq> None) \<and>
    (p = 0 \<longrightarrow> node v [index_at va 21, index_at va 30, index_at va 39] = None) \<and>
    avail (frames v) \<le> avail (frames v') + 3 \<and> (mk \<and> p = 0 \<longrightarrow> avail (frames v) < 3)"
proof -
  let ?a = "index_at va 39" and ?b = "index_at va 30" and ?c = "index_at va 21"
  have lt: "?a < 512" "?b < 512" "?c < 512" "index_at va 12 < 512" by simp_all
  have none: "node v [?c, ?b, ?a] = None" if "suffix q [?c, ?b, ?a]" "node w q = None" "grows v w" for w q
  proof -
    have "length q \<le> 4" using suffix_length_le [OF that(1)] by simp
    then have "node v q = None" using grows_node [OF that(3), of q] that(2) by (cases "node v q") auto
    then show ?thesis using node_None_extend that(1) by blast
  qed
  from level4_ok [OF wf lt(1) va, of mk] obtain ok1 v1 where L4: "check_level v PL4_BASE ?a mk
      (\<lambda>v. do { e \<leftarrow> load_entry v (elem PL4_BASE ?a); init_pde v (pl3_ptr ?a) 512 (mode e) False }) = Some (ok1, v1)"
    and g1: "grows v v1" "\<not> mk \<longrightarrow> v1 = v" "ok1 \<longrightarrow> node v1 [?a] \<noteq> None" "\<not> ok1 \<longrightarrow> node v [?a] = None"
      "avail (frames v) \<le> avail (frames v1) + 1" "mk \<and> \<not> ok1 \<longrightarrow> avail (frames v) = 0" by (elim exE conjE) (rule that)
  show ?thesis
  proof (cases ok1)
    case False
    then show ?thesis using L4 g1 none [of "[?a]" v] wf grows_refl by (auto simp: get_page_def Let_def suffix_def)
  next
    case ok1: True
    then obtain t3 where t3: "node v1 [?a] = Some t3" using g1 by auto
    from level3_ok [OF grows_wf [OF g1(1)] t3 lt(2), of mk] obtain ok2 v2 where L3: "check_level v1 (pl3_ptr ?a) ?b mk
        (\<lambda>v. do { e \<leftarrow> load_entry v (elem PL4_BASE ?a); init_pde v (pl2_ptr ?a ?b) 512 (mode e) False }) = Some (ok2, v2)"
      and g2: "grows v1 v2" "\<not> mk \<longrightarrow> v2 = v1" "ok2 \<longrightarrow> node v2 [?b, ?a] \<noteq> None" "\<not> ok2 \<longrightarrow> node v1 [?b, ?a] = None"
        "avail (frames v1) \<le> avail (frames v2) + 1" "mk \<and> \<not> ok2 \<longrightarrow> avail (frames v1) = 0" by (elim exE conjE) (rule that)
    note g2' = grows_trans [OF g1(1) g2(1)]
    show ?thesis
    proof (cases ok2)
      case False
      then show ?thesis using L4 L3 g1 g2 g2' ok1 none [of "[?b, ?a]" v1] by (auto simp: get_page_def Let_def suffix_def)
    next
      case ok2: True
      then obtain t2 where t2: "node v2 [?b, ?a] = Some t2" using g2 by auto
      have "\<not> pat (tables v2 t2 ?c)" using g2' small t2 by (auto simp: grows_def small_pages_def)
      from level2_ok [OF grows_wf [OF g2(1)] t2 lt(3) this, of mk] obtain ok3 v3 where L2: "check_level v2 (pl2_ptr ?a ?b) ?c mk
          (\<lambda>v. do { e \<leftarrow> load_entry v (elem PL4_BASE ?a); init_pte v (pl1_ptr ?a ?b ?c) 512 (mode e) }) = Some (ok3, v3)"
        and g3: "grows v2 v3" "\<not> mk \<longrightarrow> v3 = v2" "ok3 \<longrightarrow> node v3 [?c, ?b, ?a] \<noteq> None" "\<not> ok3 \<longrightarrow> node v2 [?c, ?b, ?a] = None"
          "avail (frames v2) \<le> avail (frames v3) + 1" "mk \<and> \<not> ok3 \<longrightarrow> avail (frames v2) = 0" by (elim exE conjE) (rule that)
      note g3' = grows_trans [OF g2' g3(1)]
      have t3': "node v3 [?b, ?a] = Some t2" using grows_node [OF g3(1) t2] by simp
      have "\<not> pat (tables v3 t2 ?c)" using g3' small t3' by (auto simp: grows_def small_pages_def)
      then show ?thesis
        using L4 L3 L2 g1 g2 g3 g3' ok1 ok2 none [of "[?c, ?b, ?a]" v2] g2' pl1_ptr_elem_nonzero [OF lt]
          load_points [OF points_node2 [OF grows_wf [OF g3(1)] t3'] lt(3)]
        by (cases ok3) (auto simp: get_page_def Let_def)
    qed
  qed
qed

section \<open>Editing a page entry\<close>

definition same_page :: "u64 \<Rightarrow> u64 \<Rightarrow> bool" where
  "same_page x y \<longleftrightarrow> index_at x 39 = index_at y 39 \<and> index_at x 30 = index_at y 30 \<and>
     index_at x 21 = index_at y 21 \<and> index_at x 12 = index_at y 12"

definition page_path :: "u64 \<Rightarrow> nat list" where
  "page_path va = [index_at va 21, index_at va 30, index_at va 39]"

lemma length_page_path [simp]: "length (page_path va) = 3"
  by (simp add: page_path_def)

lemma mmu_leaf:
  assumes wf: "vmm_wf v" and va: "index_at va 39 \<noteq> 510" and n: "node v (page_path va) = Some t"
  shows "mmu_frame v va = (if present (tables v t (index_at va 12))
    then Some (phys_addr (tables v t (index_at va 12))) else None)"
proof -
  obtain h where "node v [index_at va 30, index_at va 39] = Some h" "present (tables v h (index_at va 21))"
    "\<not> pat (tables v h (index_at va 21))" "t = phys_addr (tables v h (index_at va 21))"
    using n by (auto simp: page_path_def node_step)
  then show ?thesis by (simp add: mmu_frame_node [OF wf va] Let_def)
qed

lemma mmu_no_table:
  assumes wf: "vmm_wf v" and va: "index_at va 39 \<noteq> 510" and s: "small_pages v va" and n: "node v (page_path va) = None"
  shows "mmu_frame v va = None"
proof (cases "node v [index_at va 30, index_at va 39]")
  case None
  then show ?thesis by (simp add: mmu_frame_node [OF wf va])
next
  case (Some h)
  then have "\<not> present (tables v h (index_at va 21))"
    using n s by (simp add: page_path_def node_Cons [of v "index_at va 21"] small_pages_def split: if_splits)
  then show ?thesis using Some by (simp add: mmu_frame_node [OF wf va] Let_def)
qed

definition set_leaf :: "vmm \<Rightarrow> u64 \<Rightarrow> nat \<Rightarrow> pte \<Rightarrow> pmm \<Rightarrow> vmm" where
  "set_leaf v t i e s = set_entry v t i e\<lparr>frames := s\<rparr>"

lemma set_leaf_fields [simp]:
  "root (set_leaf v t i e s) = root v" "frames (set_leaf v t i e s) = s" "paging (set_leaf v t i e s) = paging v"
  by (simp_all add: set_leaf_def set_entry_def root_def)

lemma tables_set_leaf: "tables (set_leaf v t i e s) h j = (if h = t \<and> j = i then e else tables v h j)"
  by (simp add: set_leaf_def set_entry_def)

lemma node_set_leaf:
  assumes wf: "vmm_wf v" and q: "node v q = Some t" "length q = 3" and r: "length r \<le> 4" and i: "i < 512"
  shows "node (set_leaf v t i e s) r = (if r = i # q
    then (if present e \<and> avl e = AVL_ALLOCATED then Some (phys_addr e) else None) else node v r)"
proof -
  have out: "node (set_leaf v t i e s) p = node v p" if p: "length p \<le> 4" "\<not> suffix (i # q) p" for p
  proof (rule node_cong)
    fix j r' h
    assume s: "suffix (j # r') p" and n: "node v r' = Some h"
    have l: "length r' \<le> 3" using suffix_length_le [OF s] p(1) by simp
    have "\<not> (h = t \<and> j = i)" using wf_inj [OF wf q(1), of r'] n l q(2) s p(2) by auto
    then show "tables (set_leaf v t i e s) h j = tables v h j" by (auto simp: tables_set_leaf)
  qed simp
  have iff: "suffix (i # q) r \<longleftrightarrow> r = i # q"
    using r q(2) by (auto simp: suffix_def)
  have "\<not> suffix (i # q) q" using suffix_length_le [of "i # q" q] by auto
  then have "node (set_leaf v t i e s) q = Some t" using out [of q] q by simp
  then show ?thesis using out [OF r] iff i q(2) by (auto simp: node_Cons tables_set_leaf)
qed

text \<open>When an entry may be written: the pages owned elsewhere stay owned, and a page the entry owns is
  owned by nothing else.\<close>

definition leaf_ok :: "vmm \<Rightarrow> nat list \<Rightarrow> nat \<Rightarrow> pte \<Rightarrow> pmm \<Rightarrow> bool" where
  "leaf_ok v q i e s \<longleftrightarrow> pmm_inv s \<and>
    (\<forall>p h. length p \<le> 4 \<and> p \<noteq> i # q \<and> node v p = Some h \<longrightarrow> \<not> page_free s (unat h)) \<and>
    (\<not> present e \<longrightarrow> avl e \<noteq> AVL_ALLOCATED) \<and>
    (present e \<and> avl e = AVL_ALLOCATED \<longrightarrow> unat (phys_addr e) < 2 ^ 32 \<and> \<not> page_free s (unat (phys_addr e)) \<and>
      (\<forall>p. length p \<le> 4 \<and> p \<noteq> i # q \<longrightarrow> node v p \<noteq> Some (phys_addr e)))"

lemma wf_set_leaf:
  assumes wf: "vmm_wf v" and q: "node v q = Some t" "length q = 3" and i: "i < 512" and ok: "leaf_ok v q i e s"
  shows "vmm_wf (set_leaf v t i e s)"
proof -
  let ?v = "set_leaf v t i e s"
  note n = node_set_leaf [OF wf q _ i, of _ e s]
  note ok = ok [unfolded leaf_ok_def]
  have "t \<noteq> root v" using wf_inj [OF wf q(1), of "[]"] q(2) by auto
  then have "self_mapped ?v" using wf_self [OF wf] by (simp add: self_mapped_def tables_set_leaf Let_def)
  moreover have "\<forall>p r h. length p \<le> 4 \<and> length r \<le> 4 \<and> node ?v p = Some h \<and> node ?v r = Some h \<longrightarrow> p = r"
  proof (intro allI impI, elim conjE)
    fix p r h
    assume "length p \<le> 4" "length r \<le> 4" "node ?v p = Some h" "node ?v r = Some h"
    then show "p = r" using n [of p] n [of r] ok wf_inj [OF wf, of p h r] by (auto split: if_splits)
  qed
  moreover have "\<forall>p h. length p \<le> 4 \<and> node ?v p = Some h \<longrightarrow> unat h < 2 ^ 32 \<and> \<not> page_free s (unat h)"
  proof (intro allI impI, elim conjE)
    fix p h
    assume "length p \<le> 4" "node ?v p = Some h"
    then show "unat h < 2 ^ 32 \<and> \<not> page_free s (unat h)"
      using n [of p] ok wf_owned [OF wf, of p h] by (auto split: if_splits)
  qed
  moreover have "\<forall>p h j. length p \<le> 1 \<and> node ?v p = Some h \<and> j < 512 \<longrightarrow> \<not> pat (tables ?v h j)"
  proof (intro allI impI, elim conjE)
    fix p h and j :: nat
    assume p: "length p \<le> 1" "node ?v p = Some h" "j < 512"
    then have h: "node v p = Some h" using n [of p] q(2) by (auto split: if_splits)
    then have "h \<noteq> t" using wf_inj [OF wf q(1), of p] p(1) q(2) by auto
    then show "\<not> pat (tables ?v h j)" using wf_pat [OF wf h] p by (simp add: tables_set_leaf)
  qed
  moreover have "\<forall>p h j. length p = 3 \<and> node ?v p = Some h \<and> j < 512 \<and> \<not> present (tables ?v h j) \<longrightarrow>
      avl (tables ?v h j) \<noteq> AVL_ALLOCATED"
  proof (intro allI impI, elim conjE)
    fix p h and j :: nat
    assume p: "length p = 3" "node ?v p = Some h" "j < 512" "\<not> present (tables ?v h j)"
    then have "node v p = Some h" using n [of p] q(2) by (auto split: if_splits)
    from wf_avl [OF wf this] show "avl (tables ?v h j) \<noteq> AVL_ALLOCATED"
      using p ok by (auto simp: tables_set_leaf split: if_splits)
  qed
  ultimately show ?thesis using wf ok by (simp add: vmm_wf_def)
qed

lemma mmu_set_leaf:
  assumes wf: "vmm_wf v" and n: "node v (page_path va) = Some t" and ok: "leaf_ok v (page_path va) (index_at va 12) e s"
    and x: "index_at x 39 \<noteq> 510"
  shows "mmu_frame (set_leaf v t (index_at va 12) e s) x =
    (if same_page va x then if present e then Some (phys_addr e) else None else mmu_frame v x)"
proof -
  let ?v = "set_leaf v t (index_at va 12) e s"
  have wf': "vmm_wf ?v" using wf_set_leaf [OF wf n _ _ ok] by simp
  have nd: "node ?v r = node v r" if "length r \<le> 3" for r
    using node_set_leaf [OF wf n, of r "index_at va 12" e s] that by (auto split: if_splits)
  have up: "h \<noteq> t" if "node v r = Some h" "length r \<le> 2" for r h
    using wf_inj [OF wf that(1) , of "page_path va"] n that by auto
  show ?thesis
  proof (cases "same_page va x")
    case True
    then have "page_path x = page_path va" "index_at x 12 = index_at va 12"
      by (simp_all add: page_path_def same_page_def)
    then show ?thesis using mmu_leaf [OF wf' x] nd [of "page_path va"] n True by (simp add: tables_set_leaf)
  next
    case False
    show ?thesis
    proof (cases "node v [index_at x 30, index_at x 39]")
      case None
      then show ?thesis using False nd by (simp add: mmu_frame_node [OF wf' x] mmu_frame_node [OF wf x])
    next
      case (Some h)
      let ?e = "tables v h (index_at x 21)"
      have e: "tables ?v h j = tables v h j" for j using up [OF Some] by (simp add: tables_set_leaf)
      have "tables ?v (phys_addr ?e) (index_at x 12) = tables v (phys_addr ?e) (index_at x 12)"
        if "present ?e" "\<not> pat ?e"
      proof -
        have "node v (page_path x) = Some (phys_addr ?e)"
          using Some that by (simp add: page_path_def node_Cons [of v "index_at x 21"])
        then have "phys_addr ?e = t \<Longrightarrow> page_path x = page_path va" using wf_inj [OF wf _ n] by simp
        then show ?thesis using False by (auto simp: tables_set_leaf same_page_def page_path_def)
      qed
      then show ?thesis using False Some nd e
        by (auto simp: mmu_frame_node [OF wf' x] mmu_frame_node [OF wf x] Let_def)
    qed
  qed
qed

lemma small_set_leaf:
  assumes wf: "vmm_wf v" and n: "node v (page_path va) = Some t"
  shows "small_pages (set_leaf v t (index_at va 12) e s) x = small_pages v x"
proof -
  have "node (set_leaf v t (index_at va 12) e s) r = node v r" if "length r = 2" for r
    using node_set_leaf [OF wf n, of r "index_at va 12" e s] that by (auto split: if_splits)
  moreover have "h \<noteq> t" if "node v r = Some h" "length r = 2" for r h
    using wf_inj [OF wf that(1) , of "page_path va"] n that by auto
  ultimately show ?thesis
    by (cases "node v [index_at x 30, index_at x 39]") (auto simp: small_pages_def tables_set_leaf)
qed

lemma page_entry [consumes 3, case_names absent entry]:
  assumes wf: "vmm_wf v" and va: "index_at va 39 \<noteq> 510" and small: "small_pages v va"
  obtains (absent) v' where "get_page v va mk = Some (0, v')" and "grows v v'" and "\<not> mk \<Longrightarrow> v' = v"
    and "mmu_frame v va = None" and "mk \<Longrightarrow> avail (frames v) < 3"
  | (entry) p v' t e where "get_page v va mk = Some (p, v')" and "p \<noteq> 0" and "grows v v'" and "\<not> mk \<Longrightarrow> v' = v"
    and "node v' (page_path va) = Some t" and "e = tables v' t (index_at va 12)"
    and "\<And>s. load_entry (v'\<lparr>frames := s\<rparr>) p = Some e"
    and "\<And>s d. store_entry (v'\<lparr>frames := s\<rparr>) p d = Some (set_leaf v' t (index_at va 12) d s)"
    and "mmu_frame v va = (if present e then Some (phys_addr e) else None)"
    and "avail (frames v) \<le> avail (frames v') + 3"
proof -
  from get_page_ok [OF wf va small, of mk] obtain p v' where g: "get_page v va mk = Some (p, v')" "grows v v'"
    "\<not> mk \<longrightarrow> v' = v" and p: "p \<noteq> 0 \<longrightarrow> p = elem (pl1_ptr (index_at va 39) (index_at va 30) (index_at va 21)) (index_at va 12) \<and>
      node v' (page_path va) \<noteq> None" and z: "p = 0 \<longrightarrow> node v (page_path va) = None"
    and av: "avail (frames v) \<le> avail (frames v') + 3" "mk \<and> p = 0 \<longrightarrow> avail (frames v) < 3"
    unfolding page_path_def by blast
  have wf': "vmm_wf v'" using g(2) by (rule grows_wf)
  show ?thesis
  proof (cases "p = 0")
    case True
    then show ?thesis using absent g z av mmu_no_table [OF wf va small] by simp
  next
    case False
    then obtain t where t: "node v' (page_path va) = Some t" using p by auto
    have "points (v'\<lparr>frames := s\<rparr>) (pl1_ptr (index_at va 39) (index_at va 30) (index_at va 21)) t" for s
      using points_node1 [OF wf' t [unfolded page_path_def]] by simp
    note pt = load_points [OF this, of "index_at va 12"] store_points [OF this, of "index_at va 12"]
    have leaf: "set_entry (v'\<lparr>frames := s\<rparr>) t i e = set_leaf v' t i e s" for s i e
      by (simp add: set_leaf_def set_entry_def)
    have "mmu_frame v va = mmu_frame v' va" using g(2) va by (simp add: grows_def)
    then show ?thesis
      using entry [OF g(1) False g(2) _ t refl] g(3) pt p False leaf mmu_leaf [OF wf' va t] av(1) by simp
  qed
qed

lemma page_entry_frames:
  "(\<And>s. load_entry (v\<lparr>frames := s\<rparr>) p = Some e) \<Longrightarrow> load_entry v p = Some e"
  "(\<And>s d. store_entry (v\<lparr>frames := s\<rparr>) p d = Some (set_leaf v t i d s)) \<Longrightarrow>
    store_entry v p d = Some (set_leaf v t i d (frames v))"
proof -
  have eq: "v\<lparr>frames := frames v\<rparr> = v" by simp
  show "(\<And>s. load_entry (v\<lparr>frames := s\<rparr>) p = Some e) \<Longrightarrow> load_entry v p = Some e"
    using eq by metis
  show "(\<And>s d. store_entry (v\<lparr>frames := s\<rparr>) p d = Some (set_leaf v t i d s)) \<Longrightarrow>
    store_entry v p d = Some (set_leaf v t i d (frames v))" using eq by metis
qed

lemma grows_mmu: "grows v w \<Longrightarrow> index_at x 39 \<noteq> 510 \<Longrightarrow> mmu_frame w x = mmu_frame v x"
  by (simp add: grows_def)

lemma grows_small: "grows v w \<Longrightarrow> small_pages v x \<Longrightarrow> small_pages w x"
  by (simp add: grows_def)

lemma grows_max_index: "grows v w \<Longrightarrow> max_index (frames w) = max_index (frames v)"
  by (simp add: grows_def)

lemma grows_free: "grows v w \<Longrightarrow> page_free (frames w) f \<Longrightarrow> page_free (frames v) f"
  by (simp add: grows_def)

text \<open>An entry that owns no page may always be written.\<close>

lemma leaf_ok_unowned:
  assumes "vmm_wf v" and "avl e \<noteq> AVL_ALLOCATED"
  shows "leaf_ok v q i e (frames v)"
  using assms wf_owned [OF assms(1)] by (auto simp: leaf_ok_def vmm_wf_def)

lemma same_page_refl [simp]: "same_page x x"
  by (simp add: same_page_def)

lemma vmm_map_page_effect:
  assumes wf: "vmm_wf v" and va: "index_at virt 39 \<noteq> 510" and small: "small_pages v virt"
  shows "\<exists>st v'. vmm_map_page v virt phys = Some (st, v') \<and> vmm_wf v' \<and>
    (\<forall>x. index_at x 39 \<noteq> 510 \<and> \<not> same_page virt x \<longrightarrow> mmu_frame v' x = mmu_frame v x) \<and>
    (st = 0 \<longrightarrow> mmu_frame v virt = None \<and> mmu_frame v' virt = Some (field51 (shift phys))) \<and>
    (st \<noteq> 0 \<longrightarrow> st = -1 \<and> mmu_frame v' virt = mmu_frame v virt) \<and>
    (mmu_frame v virt \<noteq> None \<longrightarrow> st = -1) \<and> (mmu_frame v virt = None \<and> 3 \<le> avail (frames v) \<longrightarrow> st = 0) \<and>
    (\<forall>f. page_free (frames v') f \<longrightarrow> page_free (frames v) f) \<and>
    (\<forall>x. small_pages v x \<longrightarrow> small_pages v' x) \<and> max_index (frames v') = max_index (frames v)"
using wf va small
proof (cases rule: page_entry [where mk = True])
  case (absent v1)
  then show ?thesis using va grows_wf [OF absent(2)] grows_mmu [OF absent(2)] grows_free [OF absent(2)]
      grows_small [OF absent(2)] grows_max_index [OF absent(2)]
    by (simp add: vmm_map_page_def)
next
  case (entry p v1 t e)
  note ld = page_entry_frames(1) [OF entry(7)] and st = page_entry_frames(2) [OF entry(8)]
  note g = grows_wf [OF entry(3)] grows_mmu [OF entry(3)] grows_free [OF entry(3)]
    grows_small [OF entry(3)] grows_max_index [OF entry(3)]
  show ?thesis
  proof (cases "present e")
    case True
    then show ?thesis using entry(1,2,9) ld g va by (simp add: vmm_map_page_def)
  next
    case False
    let ?e = "e\<lparr>present := True, avl := AVL_MAPPED, phys_addr := field51 (shift phys)\<rparr>"
    have ok: "leaf_ok v1 (page_path virt) (index_at virt 12) ?e (frames v1)"
      by (rule leaf_ok_unowned [OF g(1)]) simp
    have "vmm_map_page v virt phys = Some (0, set_leaf v1 t (index_at virt 12) ?e (frames v1))"
      using entry(1,2) ld st False by (simp add: vmm_map_page_def)
    then show ?thesis
      using wf_set_leaf [OF g(1) entry(5) _ _ ok] mmu_set_leaf [OF g(1) entry(5) ok] g va entry(9) False
        small_set_leaf [OF g(1) entry(5)] by simp
  qed
qed

lemma vmm_alloc_page_effect:
  assumes wf: "vmm_wf v" and va: "index_at virt 39 \<noteq> 510" and small: "small_pages v virt"
  shows "\<exists>st v'. vmm_alloc_page v virt = Some (st, v') \<and> vmm_wf v' \<and>
    (\<forall>x. index_at x 39 \<noteq> 510 \<and> \<not> same_page virt x \<longrightarrow> mmu_frame v' x = mmu_frame v x) \<and>
    (st = 0 \<longrightarrow> mmu_frame v virt = None \<and> (\<exists>f. mmu_frame v' virt = Some f \<and>
      node v' (index_at virt 12 # page_path virt) = Some f \<and> page_free (frames v) (unat f) \<and> unat f < 2 ^ 32)) \<and>
    (st \<noteq> 0 \<longrightarrow> (st = -1 \<or> st = - ENOMEM) \<and> mmu_frame v' virt = mmu_frame v virt) \<and>
    (mmu_frame v virt \<noteq> None \<longrightarrow> st = -1) \<and> (mmu_frame v virt = None \<and> 4 \<le> avail (frames v) \<longrightarrow> st = 0) \<and>
    (\<forall>f. page_free (frames v') f \<longrightarrow> page_free (frames v) f) \<and>
    (\<forall>x. small_pages v x \<longrightarrow> small_pages v' x) \<and> max_index (frames v') = max_index (frames v)"
  using wf va small
proof (cases rule: page_entry [where mk = True])
  case (absent v1)
  then show ?thesis using va grows_wf [OF absent(2)] grows_mmu [OF absent(2)] grows_free [OF absent(2)]
      grows_small [OF absent(2)] grows_max_index [OF absent(2)]
    by (simp add: vmm_alloc_page_def)
next
  case (entry p v1 t e)
  note ld = page_entry_frames(1) [OF entry(7)]
  note g = grows_wf [OF entry(3)] grows_mmu [OF entry(3)] grows_free [OF entry(3)]
    grows_small [OF entry(3)] grows_max_index [OF entry(3)]
  obtain phys v2 where r: "alloc_frame v1 = (phys, v2)" by fastforce
  obtain s where v2: "v2 = v1\<lparr>frames := s\<rparr>" and inv: "pmm_inv s"
    and g2: "grows v1 v2" and fr: "phys \<noteq> 0 \<longrightarrow> unat phys = 4096 * unat (field51 (shift phys)) \<and>
      page_free (frames v1) (unat (field51 (shift phys))) \<and> unat (field51 (shift phys)) < 2 ^ 32 \<and>
      (\<forall>h. page_free s h \<longleftrightarrow> page_free (frames v1) h \<and> h \<noteq> unat (field51 (shift phys)))"
    and av: "phys = 0 \<longrightarrow> avail (frames v1) = 0" "avail (frames v1) \<le> avail s + 1"
    and mx: "max_index s = max_index (frames v1)" by (rule alloc_frame_cases [OF g(1) r])
  note g2' = grows_trans [OF entry(3) g2]
  consider "present e" | "\<not> present e" "phys = 0" | "\<not> present e" "phys \<noteq> 0" by blast
  then show ?thesis
  proof cases
    case 1
    then show ?thesis using entry(1,2,9) ld g va by (simp add: vmm_alloc_page_def)
  next
    case 2
    then show ?thesis
      using entry(1,2,9,10) ld r va grows_wf [OF g2] grows_mmu [OF g2'] grows_free [OF g2'] av
        grows_small [OF g2'] grows_max_index [OF g2']
      by (simp add: vmm_alloc_page_def)
  next
    case 3
    let ?f = "field51 (shift phys)"
    let ?e = "e\<lparr>present := True, avl := AVL_ALLOCATED, phys_addr := ?f\<rparr>"
    have ok: "leaf_ok v1 (page_path virt) (index_at virt 12) ?e s"
      using fr 3(2) inv wf_owned [OF g(1)] by (auto simp: leaf_ok_def)
    have "vmm_alloc_page v virt = Some (0, set_leaf v1 t (index_at virt 12) ?e s)"
      using entry(1,2,7,8) ld r v2 3 by (simp add: vmm_alloc_page_def)
    moreover have "node (set_leaf v1 t (index_at virt 12) ?e s) (index_at virt 12 # page_path virt) = Some ?f"
      using node_set_leaf [OF g(1) entry(5)] by simp
    moreover have "page_free (frames v1) (unat ?f)" "unat ?f < 2 ^ 32" "\<And>h. page_free s h \<Longrightarrow> page_free (frames v1) h"
      using fr 3(2) by blast+
    ultimately show ?thesis
      using wf_set_leaf [OF g(1) entry(5) _ _ ok] mmu_set_leaf [OF g(1) entry(5) ok] g va entry(9) 3 mx
        small_set_leaf [OF g(1) entry(5)] by simp
  qed
qed

lemma frame_no_push:
  assumes "unat f < 2 ^ 32"
  shows "frame_no (push_bit 12 f) = unat f"
proof -
  have "unat (push_bit 12 f) = 4096 * unat f" using unat_push_bit_u64 [of 12 f] assms by simp
  then have "push_bit 12 f = of_nat (4096 * unat f)" by (metis of_nat_unat ucast_id)
  then show ?thesis using frame_no_of_nat [OF assms] by simp
qed

lemma mmu_same_page: "same_page x y \<Longrightarrow> mmu_frame v x = mmu_frame v y"
proof -
  assume s: "same_page x y"
  then have "unat (drop_bit 12 x AND 0x1FF) = unat (drop_bit 12 y AND 0x1FF)"
    by (simp add: same_page_def index_at_def)
  then have "drop_bit 12 x AND 0x1FF = drop_bit 12 y AND 0x1FF" by (rule word_unat_eq_iff [THEN iffD2])
  then show ?thesis using s by (simp add: mmu_frame_def same_page_def Let_def)
qed

lemma owned_leaf:
  assumes wf: "vmm_wf v" and n: "node v q = Some t" and l: "length q = 3" and i: "i < 512"
  shows "node v (i # q) = (if avl (tables v t i) = AVL_ALLOCATED then Some (phys_addr (tables v t i)) else None)"
proof -
  have "q \<noteq> []" using l by auto
  then show ?thesis using wf_avl [OF wf n l i] n l i by (auto simp: node_Cons)
qed

lemma leaf_ok_free:
  assumes wf: "vmm_wf v" and n: "node v q = Some t" and l: "length q = 3" and i: "i < 512"
    and e: "avl (tables v t i) = AVL_ALLOCATED" and d: "\<not> present d" "avl d = 0"
  shows "leaf_ok v q i d (pmm_free_frame (frames v) (push_bit 12 (phys_addr (tables v t i))))"
proof -
  let ?f = "phys_addr (tables v t i)"
  have own: "node v (i # q) = Some ?f" using owned_leaf [OF wf n l i] e by simp
  then have f: "unat ?f < 2 ^ 32" using wf_owned [OF wf] l by simp
  have inv: "pmm_inv (frames v)" using wf by (simp add: vmm_wf_def)
  have "\<not> page_free (pmm_free_frame (frames v) (push_bit 12 ?f)) (unat h)"
    if "length p \<le> 4" "p \<noteq> i # q" "node v p = Some h" for p h
  proof -
    have "h \<noteq> ?f" using wf_inj [OF wf own, of p] that l by auto
    then have "unat h \<noteq> unat ?f" by (simp add: word_unat_eq_iff)
    then show ?thesis using wf_owned [OF wf that(3,1)] inv frame_no_push [OF f]
      by (simp add: page_free_free_frame pmm_inv_def)
  qed
  then show ?thesis using inv_free_frame [OF inv] d by (auto simp: leaf_ok_def)
qed

lemma vmm_free_page_effect:
  assumes wf: "vmm_wf v" and va: "index_at virt 39 \<noteq> 510" and small: "small_pages v virt"
  shows "\<exists>v'. vmm_free_page v virt = Some (if mmu_frame v virt = None then -1 else 0, v') \<and> vmm_wf v' \<and>
    (\<forall>x. index_at x 39 \<noteq> 510 \<longrightarrow> mmu_frame v' x = (if same_page virt x then None else mmu_frame v x)) \<and>
    (\<forall>h. page_free (frames v') h \<longleftrightarrow> page_free (frames v) h \<or>
      (\<exists>f. node v (index_at virt 12 # page_path virt) = Some f \<and> h = unat f \<and> h div 64 < unat (max_index (frames v))))"
  using wf va small
proof (cases rule: page_entry [where mk = False])
  case (absent v1)
  then have "node v (index_at virt 12 # page_path virt) = None"
    using mmu_leaf [OF wf va] by (auto simp: node_Cons split: option.splits if_splits)
  then show ?thesis using absent wf mmu_same_page [of virt _ v] by (auto simp: vmm_free_page_def)
next
  case (entry p v1 t e)
  have v1: "v1 = v" using entry(4) by simp
  note E = entry [unfolded v1]
  note ld = page_entry_frames(1) [OF E(7)] and own = owned_leaf [OF wf E(5), of "index_at virt 12"]
  show ?thesis
  proof (cases "present e")
    case False
    then have "node v (index_at virt 12 # page_path virt) = None" using own wf_avl [OF wf E(5)] E(6) by simp
    then show ?thesis using False E(1,2,9) ld wf mmu_same_page [of virt _ v] by (auto simp: vmm_free_page_def)
  next
    case True
    let ?s = "if avl e = AVL_ALLOCATED then pmm_free_frame (frames v) (push_bit 12 (phys_addr e)) else frames v"
    have "vmm_free_page v virt = Some (0, set_leaf v t (index_at virt 12) (default_pte (mode e)) ?s)"
      using E(1,2,8) page_entry_frames(2) [OF E(8)] ld True
      by (simp add: vmm_free_page_def init_pte_def Let_def elem_0)
    moreover have ok: "leaf_ok v (page_path virt) (index_at virt 12) (default_pte (mode e)) ?s"
      using leaf_ok_free [OF wf E(5)] leaf_ok_unowned [OF wf] E(6) by simp
    moreover have "page_free ?s h \<longleftrightarrow> page_free (frames v) h \<or>
        (\<exists>f. node v (index_at virt 12 # page_path virt) = Some f \<and> h = unat f \<and> h div 64 < unat (max_index (frames v)))" for h
      using own E(6) wf_owned [OF wf, of "index_at virt 12 # page_path virt"] wf
      by (auto simp: page_free_free_frame frame_no_push vmm_wf_def pmm_inv_def)
    ultimately show ?thesis
      using wf_set_leaf [OF wf E(5) _ _ ok] mmu_set_leaf [OF wf E(5) ok] E(9) True by simp
  qed
qed

section \<open>Properties\<close>

text \<open>A kernel address space with nothing mapped but the recursive entry, and 62 free pages.\<close>

definition vmm0 :: vmm where
  "vmm0 = \<lparr>cr3 = 0x1000,
     tables = (\<lambda>f i. if f = 1 \<and> i = 510 then (default_pde False False)\<lparr>present := True, phys_addr := 1\<rparr>
       else default_pde False False),
     paging = True, pml4_phys = 0x1000, pml4_virt = IDMAP + 0x1000,
     frames = \<lparr>bitmap = [0xFFFFFFFFFFFFFFFC], max_index = 1, cur_index = 0, free_pages = 62, num_pages = 62\<rparr>,
     boot = slmm_init 0 0\<rparr>"

lemma vmm0_frames:
  "page_free (frames vmm0) f \<longleftrightarrow> 2 \<le> f \<and> f < 64"
  "pmm_inv (frames vmm0)" "avail (frames vmm0) = 62"
proof -
  have b: "bit (0xFFFFFFFFFFFFFFFC :: u64) n \<longleftrightarrow> 2 \<le> n" if "n < 64" for n
  proof -
    have "\<forall>n < 64. bit (0xFFFFFFFFFFFFFFFC :: u64) n \<longleftrightarrow> 2 \<le> n" by code_simp
    then show ?thesis using that by blast
  qed
  show pf: "page_free (frames vmm0) f \<longleftrightarrow> 2 \<le> f \<and> f < 64" for f
  proof (cases "f < 64")
    case True
    then show ?thesis using b [of f] by (simp add: page_free_def vmm0_def)
  next
    case False
    then have "\<not> f div 64 < 1" by simp
    then show ?thesis using False by (simp add: page_free_def vmm0_def)
  qed
  have c: "card {f. page_free (frames vmm0) f} = 62"
  proof -
    have "{f. page_free (frames vmm0) f} = {2..<64}" by (auto simp: pf)
    then show ?thesis by simp
  qed
  show "pmm_inv (frames vmm0)"
    unfolding pmm_inv_def c by (simp add: pmm_wf_def vmm0_def)
  show "avail (frames vmm0) = 62" unfolding avail_def c using pf [of 0] by simp
qed

lemma vmm0_node: "node vmm0 p = (if p = [] then Some 1 else None)"
proof (induction p)
  case Nil
  then show ?case by (simp add: root_def vmm0_def field51_def shift_def)
next
  case (Cons i p)
  then show ?case by (cases "p = []") (auto simp: node_Cons vmm0_def)
qed

lemma vmm0_wf: "vmm_wf vmm0"
proof -
  have r: "root vmm0 = 1" using vmm0_node [of "[]"] by simp
  have "self_mapped vmm0" unfolding self_mapped_def r by (simp add: vmm0_def)
  moreover have "paging vmm0" "\<not> pat (tables vmm0 f i)" "avl (tables vmm0 f i) = 0" for f i
    by (simp_all add: vmm0_def)
  moreover have "\<not> page_free (frames vmm0) 1" using vmm0_frames(1) [of 1] by simp
  ultimately show ?thesis using vmm0_frames(2) unfolding vmm_wf_def vmm0_node by simp
qed

lemma vmm0_small: "small_pages vmm0 va"
  by (simp add: small_pages_def vmm0_node)

text \<open>C16. Mapping a page: the page tables stay well formed and no access faults; exactly the addressed page
  changes its translation, and only when it had none; a mapped page is refused; the mapping succeeds
  whenever three pages are available for tables.\<close>

theorem vmm_map_page_correct:
  assumes "vmm_wf v" and "index_at virt 39 \<noteq> 510" and "small_pages v virt"
  shows "\<exists>st v'. vmm_map_page v virt phys = Some (st, v') \<and> vmm_wf v' \<and>
    (\<forall>x. index_at x 39 \<noteq> 510 \<and> \<not> same_page virt x \<longrightarrow> mmu_frame v' x = mmu_frame v x) \<and>
    (st = 0 \<longrightarrow> mmu_frame v virt = None \<and> mmu_frame v' virt = Some (field51 (shift phys))) \<and>
    (st \<noteq> 0 \<longrightarrow> st = -1 \<and> mmu_frame v' virt = mmu_frame v virt) \<and>
    (mmu_frame v virt \<noteq> None \<longrightarrow> st = -1) \<and> (mmu_frame v virt = None \<and> 3 \<le> avail (frames v) \<longrightarrow> st = 0)"
  using vmm_map_page_effect [OF assms, of phys] by blast

lemma vmm0_unmapped: "index_at va 39 \<noteq> 510 \<Longrightarrow> mmu_frame vmm0 va = None"
  by (rule mmu_no_table [OF vmm0_wf _ vmm0_small]) (simp_all add: vmm0_node page_path_def)

lemma index_HWMAP: "index_at HWMAP 39 = 416" "index_at HWMAP 30 = 0"
  by (simp_all add: index_at_nat HWMAP_def)

theorem vmm_map_page_correct_witness:
  "\<exists>v'. vmm_map_page vmm0 HWMAP 0xFEE00000 = Some (0, v') \<and> vmm_wf v' \<and> mmu_frame v' HWMAP = Some 0xFEE00"
proof -
  have "field51 (shift 0xFEE00000) = 0xFEE00" by (simp add: field51_def shift_def take_bit_eq_mod)
  then show ?thesis
    using vmm_map_page_correct [OF vmm0_wf _ vmm0_small, of HWMAP "0xFEE00000"] vmm0_unmapped [of HWMAP]
    by (auto simp: index_HWMAP vmm0_frames)
qed

text \<open>C1. Allocating a page: on success the addressed page, unmapped before, is backed by a page that was
  free and is now owned by this entry alone; every other translation is unchanged, and a mapped page is
  refused.  With four pages available the allocation succeeds.\<close>

theorem vmm_alloc_page_correct:
  assumes "vmm_wf v" and "index_at virt 39 \<noteq> 510" and "small_pages v virt"
  shows "\<exists>st v'. vmm_alloc_page v virt = Some (st, v') \<and> vmm_wf v' \<and>
    (\<forall>x. index_at x 39 \<noteq> 510 \<and> \<not> same_page virt x \<longrightarrow> mmu_frame v' x = mmu_frame v x) \<and>
    (st = 0 \<longrightarrow> mmu_frame v virt = None \<and> (\<exists>f. mmu_frame v' virt = Some f \<and>
      node v' (index_at virt 12 # page_path virt) = Some f \<and>
      page_free (frames v) (unat f) \<and> \<not> page_free (frames v') (unat f) \<and>
      (\<forall>p. length p \<le> 4 \<and> node v' p = Some f \<longrightarrow> p = index_at virt 12 # page_path virt))) \<and>
    (st \<noteq> 0 \<longrightarrow> (st = -1 \<or> st = - ENOMEM) \<and> mmu_frame v' virt = mmu_frame v virt) \<and>
    (mmu_frame v virt \<noteq> None \<longrightarrow> st = -1) \<and> (mmu_frame v virt = None \<and> 4 \<le> avail (frames v) \<longrightarrow> st = 0)"
proof -
  from vmm_alloc_page_effect [OF assms] obtain st v' where
    r: "vmm_alloc_page v virt = Some (st, v')" and wf: "vmm_wf v'"
    and x: "\<forall>x. index_at x 39 \<noteq> 510 \<and> \<not> same_page virt x \<longrightarrow> mmu_frame v' x = mmu_frame v x"
    and z: "st = 0 \<longrightarrow> mmu_frame v virt = None \<and> (\<exists>f. mmu_frame v' virt = Some f \<and>
      node v' (index_at virt 12 # page_path virt) = Some f \<and> page_free (frames v) (unat f) \<and> unat f < 2 ^ 32)"
    and nz: "st \<noteq> 0 \<longrightarrow> (st = -1 \<or> st = - ENOMEM) \<and> mmu_frame v' virt = mmu_frame v virt"
    and m: "mmu_frame v virt \<noteq> None \<longrightarrow> st = -1" "mmu_frame v virt = None \<and> 4 \<le> avail (frames v) \<longrightarrow> st = 0"
    by (elim exE conjE) (rule that)
  have "\<not> page_free (frames v') (unat f) \<and>
      (\<forall>p. length p \<le> 4 \<and> node v' p = Some f \<longrightarrow> p = index_at virt 12 # page_path virt)"
    if "node v' (index_at virt 12 # page_path virt) = Some f" for f
    using wf_owned [OF wf that] wf_inj [OF wf _ that] by simp
  with r wf x z nz m show ?thesis by blast
qed

lemma index_KHEAP: "index_at KHEAP 39 = 448" "index_at KHEAP 30 = 0"
  by (simp_all add: index_at_nat KHEAP_def)

theorem vmm_alloc_page_correct_witness:
  "\<exists>v' f. vmm_alloc_page vmm0 KHEAP = Some (0, v') \<and> vmm_wf v' \<and> mmu_frame v' KHEAP = Some f \<and>
    2 \<le> unat f \<and> unat f < 64 \<and> \<not> page_free (frames v') (unat f)"
  using vmm_alloc_page_correct [OF vmm0_wf _ vmm0_small, of KHEAP] vmm0_unmapped [of KHEAP]
  by (auto simp: index_KHEAP vmm0_frames)

text \<open>C17. Freeing what was allocated gives everything back: after \<open>vmm_alloc_page\<close> and \<open>vmm_free_page\<close> of
  the same page every address translates as before, and the page that backed it is free again.\<close>

theorem vmm_alloc_free_roundtrip:
  assumes wf: "vmm_wf v" and va: "index_at virt 39 \<noteq> 510" and small: "small_pages v virt"
    and a: "vmm_alloc_page v virt = Some (0, v1)"
  shows "\<exists>v2 f. vmm_free_page v1 virt = Some (0, v2) \<and> vmm_wf v2 \<and> mmu_frame v1 virt = Some f \<and>
    \<not> page_free (frames v1) (unat f) \<and> page_free (frames v2) (unat f) \<and>
    (\<forall>x. index_at x 39 \<noteq> 510 \<longrightarrow> mmu_frame v2 x = mmu_frame v x)"
proof -
  from vmm_alloc_page_effect [OF wf va small] a obtain f where
    wf1: "vmm_wf v1" and x: "\<forall>x. index_at x 39 \<noteq> 510 \<and> \<not> same_page virt x \<longrightarrow> mmu_frame v1 x = mmu_frame v x"
    and m: "mmu_frame v virt = None" "mmu_frame v1 virt = Some f"
    and n: "node v1 (index_at virt 12 # page_path virt) = Some f" and f: "page_free (frames v) (unat f)"
    and s: "small_pages v1 virt" and mx: "max_index (frames v1) = max_index (frames v)"
    using small by auto
  from vmm_free_page_effect [OF wf1 va s] m(2) obtain v2 where
    r: "vmm_free_page v1 virt = Some (0, v2)" "vmm_wf v2"
    and y: "\<forall>x. index_at x 39 \<noteq> 510 \<longrightarrow> mmu_frame v2 x = (if same_page virt x then None else mmu_frame v1 x)"
    and p: "\<forall>h. page_free (frames v2) h \<longleftrightarrow> page_free (frames v1) h \<or> (\<exists>f. node v1 (index_at virt 12 # page_path virt) = Some f \<and>
      h = unat f \<and> h div 64 < unat (max_index (frames v1)))"
    by auto
  have "mmu_frame v2 x' = mmu_frame v x'" if "index_at x' 39 \<noteq> 510" for x'
    using x y m(1) that mmu_same_page [of virt x' v] by auto
  moreover have "page_free (frames v2) (unat f)" using p n f mx by (simp add: page_free_def)
  ultimately show ?thesis using r m(2) wf_owned [OF wf1 n] by auto
qed

theorem vmm_alloc_free_roundtrip_witness:
  "\<exists>v1 v2 f. vmm_alloc_page vmm0 KHEAP = Some (0, v1) \<and> vmm_free_page v1 KHEAP = Some (0, v2) \<and>
    mmu_frame v1 KHEAP = Some f \<and> page_free (frames v2) (unat f) \<and> mmu_frame v2 KHEAP = None"
proof -
  obtain v1 where a: "vmm_alloc_page vmm0 KHEAP = Some (0, v1)"
    using vmm_alloc_page_effect [OF vmm0_wf _ vmm0_small, of KHEAP] vmm0_unmapped [of KHEAP]
    by (auto simp: index_KHEAP vmm0_frames)
  from vmm_alloc_free_roundtrip [OF vmm0_wf _ vmm0_small a] show ?thesis
    using a vmm0_unmapped [of KHEAP] by (fastforce simp: index_KHEAP)
qed

end
