(* ===== verification/Heap.thy ===== *)
theory Heap
  imports Vmm Lists
begin

text \<open>
  The kernel heap of \<^verbatim>\<open>src/kernel/mem/heap.c\<close>: chunks that tile the heap area between two guard chunks,
  linked to their neighbours, with the free ones on a list threaded through their data.  The model keeps
  the chunk headers and the free-list links (\<open>chunk[1]\<close> in the source) in two stores indexed by the
  address of the chunk; in the source they only overlap for a chunk with fewer than 16 data bytes, which
  the invariant excludes.  A split that would make such a chunk, or whose new header would wrap around to
  the old one, has the result \<open>None\<close>: the new header then overwrites the links or the header of the chunk
  that is split, and the accesses that follow go through the overwritten pointers.  Addresses and sizes are natural numbers, and the additions of the source that
  can wrap around are written with \<open>wrap\<close>.  Data bytes are not modelled.
\<close>

section \<open>State\<close>

record chunk_t =
  ck_prev :: ptr
  ck_next :: ptr
  ck_size :: nat
  ck_free :: bool

record heap_t =
  hp_first :: ptr
  hp_free :: ptr
  hp_start :: nat
  hp_size :: nat
  hp_end :: nat
  chunks :: "ptr \<Rightarrow> chunk_t"
  flinks :: links

definition HEAP_HEADER_SIZE :: nat where [simp]: "HEAP_HEADER_SIZE = 32"
definition HEAP_DATA_ALIGN :: nat where [simp]: "HEAP_DATA_ALIGN = 16"
definition HEAP_SBRK_SIZE :: nat where [simp]: "HEAP_SBRK_SIZE = 0x100000"

definition wrap :: "nat \<Rightarrow> nat" where
  "wrap n = n mod 2 ^ 64"

text \<open>\<open>(s + a - 1) & -(a)\<close> for a power of two \<open>a\<close>.\<close>

definition align_size :: "nat \<Rightarrow> nat \<Rightarrow> nat" where
  "align_size s a = wrap (s + a - 1) div a * a"

definition set_chunk :: "heap_t \<Rightarrow> ptr \<Rightarrow> (chunk_t \<Rightarrow> chunk_t) \<Rightarrow> heap_t" where
  "set_chunk h c f = h\<lparr>chunks := (chunks h)(c := f (chunks h c))\<rparr>"

definition chunk_size :: "heap_t \<Rightarrow> ptr \<Rightarrow> nat" where
  "chunk_size h c = ck_next (chunks h c) - c - HEAP_HEADER_SIZE"

definition chunk_next :: "ptr \<Rightarrow> nat \<Rightarrow> ptr" where
  "chunk_next c s = wrap (c + HEAP_HEADER_SIZE + s)"

section \<open>The free list\<close>

definition insert_free_chunk :: "heap_t \<Rightarrow> ptr \<Rightarrow> heap_t" where
  "insert_free_chunk h c =
    (let h = set_chunk h c (\<lambda>k. k\<lparr>ck_free := True\<rparr>);
         h = h\<lparr>flinks := set_next (flinks h) c (hp_free h)\<rparr>;
         h = h\<lparr>flinks := set_prev (flinks h) c 0\<rparr>;
         h = (if hp_free h \<noteq> 0 then h\<lparr>flinks := set_prev (flinks h) (hp_free h) c\<rparr> else h)
     in h\<lparr>hp_free := c\<rparr>)"

definition remove_free_chunk :: "heap_t \<Rightarrow> ptr \<Rightarrow> heap_t" where
  "remove_free_chunk h c =
    (let h = set_chunk h c (\<lambda>k. k\<lparr>ck_free := False\<rparr>);
         h = (if hp_free h = c then h\<lparr>hp_free := lk_next (flinks h c)\<rparr> else h);
         h = (if lk_prev (flinks h c) \<noteq> 0
              then h\<lparr>flinks := set_next (flinks h) (lk_prev (flinks h c)) (lk_next (flinks h c))\<rparr> else h);
         h = (if lk_next (flinks h c) \<noteq> 0
              then h\<lparr>flinks := set_prev (flinks h) (lk_next (flinks h c)) (lk_prev (flinks h c))\<rparr> else h)
     in h)"

section \<open>Splitting and joining chunks\<close>

text \<open>The new free chunk and the adjustment of the chunk that is cut.\<close>

definition cut_chunk :: "heap_t \<Rightarrow> ptr \<Rightarrow> nat \<Rightarrow> heap_t" where
  "cut_chunk h c sz =
    (let nxt = chunk_next c sz;
         h = set_chunk h nxt (\<lambda>k. k\<lparr>ck_prev := c\<rparr>);
         h = set_chunk h nxt (\<lambda>k. k\<lparr>ck_next := ck_next (chunks h c)\<rparr>);
         h = set_chunk h nxt (\<lambda>k. k\<lparr>ck_size := chunk_size h nxt\<rparr>);
         h = insert_free_chunk h nxt;
         h = set_chunk h (ck_next (chunks h c)) (\<lambda>k. k\<lparr>ck_prev := nxt\<rparr>);
         h = set_chunk h c (\<lambda>k. k\<lparr>ck_next := nxt\<rparr>)
     in set_chunk h c (\<lambda>k. k\<lparr>ck_size := sz\<rparr>))"

definition split_chunk :: "heap_t \<Rightarrow> ptr \<Rightarrow> nat \<Rightarrow> heap_t option" where
  "split_chunk h c sz =
    (if ck_size (chunks h c) < wrap (sz + HEAP_DATA_ALIGN + HEAP_HEADER_SIZE) then Some h
     else if sz < HEAP_DATA_ALIGN \<or> 2 ^ 64 \<le> sz + HEAP_DATA_ALIGN + HEAP_HEADER_SIZE then None
     else Some (cut_chunk h c sz))"

definition glue_prev :: "heap_t \<Rightarrow> ptr \<Rightarrow> heap_t" where
  "glue_prev h c =
    (let p = ck_prev (chunks h c);
         h = remove_free_chunk h c;
         h = remove_free_chunk h p;
         h = set_chunk h p (\<lambda>k. k\<lparr>ck_size := ck_size k + ck_size (chunks h c) + HEAP_HEADER_SIZE\<rparr>);
         h = set_chunk h p (\<lambda>k. k\<lparr>ck_next := ck_next (chunks h c)\<rparr>);
         h = set_chunk h (ck_next (chunks h c)) (\<lambda>k. k\<lparr>ck_prev := p\<rparr>)
     in insert_free_chunk h p)"

definition glue_next :: "heap_t \<Rightarrow> ptr \<Rightarrow> heap_t" where
  "glue_next h c =
    (let n = ck_next (chunks h c);
         h = remove_free_chunk h c;
         h = remove_free_chunk h n;
         h = set_chunk h c (\<lambda>k. k\<lparr>ck_size := ck_size k + ck_size (chunks h n) + HEAP_HEADER_SIZE\<rparr>);
         h = set_chunk h c (\<lambda>k. k\<lparr>ck_next := ck_next (chunks h n)\<rparr>);
         h = set_chunk h (ck_next (chunks h c)) (\<lambda>k. k\<lparr>ck_prev := c\<rparr>)
     in insert_free_chunk h c)"

definition glue_chunk :: "heap_t \<Rightarrow> ptr \<Rightarrow> bool \<Rightarrow> bool \<Rightarrow> heap_t" where
  "glue_chunk h c prv nxt =
    (let (h, c) = (if prv \<and> ck_free (chunks h (ck_prev (chunks h c)))
                   then (glue_prev h c, ck_prev (chunks h c)) else (h, c))
     in if nxt \<and> ck_free (chunks h (ck_next (chunks h c))) then glue_next h c else h)"

section \<open>Growing the heap\<close>

text \<open>The loop of \<open>heap_sbrk\<close>: the number of bytes that were backed with pages.\<close>

function sbrk_loop :: "vmm \<Rightarrow> nat \<Rightarrow> nat \<Rightarrow> nat \<Rightarrow> (nat \<times> vmm) option" where
  "sbrk_loop v addr fin sz =
    (if addr < fin
     then do {
       (st, v') \<leftarrow> vmm_alloc_page v (of_nat addr);
       if st \<noteq> 0 then Some (sz, v') else sbrk_loop v' (addr + 4096) fin (sz + 4096)
     }
     else Some (sz, v))"
  by pat_completeness auto
termination
  by (relation "measure (\<lambda>(v, addr, fin, sz). fin - addr)") auto

definition heap_sbrk :: "vmm \<Rightarrow> heap_t \<Rightarrow> nat \<Rightarrow> (nat \<times> vmm \<times> heap_t) option" where
  "heap_sbrk v h sz =
    (let sz = align_size sz HEAP_SBRK_SIZE;
         addr = hp_start h + hp_size h;
         fin = wrap (addr + sz)
     in if fin > hp_start h + unat KHEAP_SIZE then Some (0, v, h)
        else do {
          (sz, v) \<leftarrow> sbrk_loop v addr fin 0;
          Some (sz, v, h\<lparr>hp_size := hp_size h + sz, hp_end := hp_end h + sz\<rparr>)
        })"

definition heap_expand :: "vmm \<Rightarrow> heap_t \<Rightarrow> nat \<Rightarrow> (ptr \<times> vmm \<times> heap_t) option" where
  "heap_expand v h sz =
    (let sz = wrap (sz + HEAP_HEADER_SIZE);
         old = hp_end h - HEAP_HEADER_SIZE
     in do {
       (got, v, h) \<leftarrow> heap_sbrk v h sz;
       if got < sz then Some (0, v, h)
       else let new = hp_end h - HEAP_HEADER_SIZE;
                h = set_chunk h old (\<lambda>k. k\<lparr>ck_next := new\<rparr>);
                h = set_chunk h old (\<lambda>k. k\<lparr>ck_size := chunk_size h old, ck_free := True\<rparr>);
                h = set_chunk h new (\<lambda>k. \<lparr>ck_prev = old, ck_next = 0, ck_size = 0, ck_free = False\<rparr>);
                h = insert_free_chunk h old
            in if ck_free (chunks h (ck_prev (chunks h old)))
               then Some (ck_prev (chunks h old), v, glue_chunk h (ck_prev (chunks h old)) False True)
               else Some (old, v, h)
     })"

section \<open>Allocation\<close>

partial_function (option) find_free_loop :: "heap_t \<Rightarrow> nat \<Rightarrow> ptr \<Rightarrow> ptr option" where
  "find_free_loop h sz c =
    (if c = 0 then Some 0
     else if ck_size (chunks h c) \<ge> sz then Some c
     else find_free_loop h sz (lk_next (flinks h c)))"

definition find_free_chunk :: "vmm \<Rightarrow> heap_t \<Rightarrow> nat \<Rightarrow> (ptr \<times> vmm \<times> heap_t) option" where
  "find_free_chunk v h sz = do {
     c \<leftarrow> find_free_loop h sz (hp_free h);
     if c \<noteq> 0 then Some (c, v, h) else heap_expand v h sz
   }"

text \<open>Before \<open>heap_init\<close> the size of the heap is 0 and memory comes from the boot allocator.\<close>

definition kmalloc_int :: "vmm \<Rightarrow> heap_t \<Rightarrow> nat \<Rightarrow> (ptr \<times> vmm \<times> heap_t) option" where
  "kmalloc_int v h sz =
    (if sz = 0 then Some (0, v, h)
     else if hp_size h \<noteq> 0
     then let sz = align_size sz HEAP_DATA_ALIGN
          in do {
            (c, v, h) \<leftarrow> find_free_chunk v h sz;
            if c = 0 then Some (0, v, h)
            else do {
              h \<leftarrow> split_chunk h c sz;
              Some (c + HEAP_HEADER_SIZE, v, remove_free_chunk h c)
            }
          }
     else case slmm_kmalloc (boot v) (frames v) (of_nat sz) False of
       (addr, b, s) \<Rightarrow> Some (unat addr, v\<lparr>boot := b, frames := s\<rparr>, h))"

definition kmalloc :: "vmm \<Rightarrow> heap_t \<Rightarrow> nat \<Rightarrow> (ptr \<times> vmm \<times> heap_t) option" where
  "kmalloc v h sz = kmalloc_int v h sz"

text \<open>\<open>memset\<close> writes \<open>n\<close> bytes at \<open>p\<close>: it faults on the null pointer, and when the bytes reach the end of the
  address space.\<close>

definition memset_fault :: "ptr \<Rightarrow> nat \<Rightarrow> bool" where
  "memset_fault p n \<longleftrightarrow> n \<noteq> 0 \<and> (p = 0 \<or> 2 ^ 64 \<le> p + n)"

definition kzalloc :: "vmm \<Rightarrow> heap_t \<Rightarrow> nat \<Rightarrow> (ptr \<times> vmm \<times> heap_t) option" where
  "kzalloc v h sz = do {
     (p, v, h) \<leftarrow> kmalloc_int v h sz;
     if memset_fault p sz then None else Some (p, v, h)
   }"

definition kcalloc :: "vmm \<Rightarrow> heap_t \<Rightarrow> nat \<Rightarrow> nat \<Rightarrow> (ptr \<times> vmm \<times> heap_t) option" where
  "kcalloc v h count sz = do {
     (p, v, h) \<leftarrow> kmalloc_int v h (wrap (count * sz));
     if memset_fault p (wrap (count * sz)) then None else Some (p, v, h)
   }"

definition kfree :: "heap_t \<Rightarrow> ptr \<Rightarrow> heap_t" where
  "kfree h p =
    (if p < hp_start h then h
     else if p > hp_end h then h
     else let c = p - HEAP_HEADER_SIZE;
              h = insert_free_chunk h c
          in glue_chunk h c True True)"

definition heap_get_size :: "heap_t \<Rightarrow> nat" where
  "heap_get_size h = hp_size h"

definition heap_init :: "vmm \<Rightarrow> heap_t \<Rightarrow> (vmm \<times> heap_t) option" where
  "heap_init v h =
    (let h = h\<lparr>hp_first := 0, hp_free := 0, hp_start := unat KHEAP, hp_end := unat KHEAP, hp_size := 0\<rparr>
     in do {
       (_, v, h) \<leftarrow> heap_sbrk v h 1;
       let first = hp_start h;
       let middle = first + HEAP_HEADER_SIZE;
       let h = set_chunk h first (\<lambda>k. \<lparr>ck_prev = 0, ck_next = middle, ck_size = 0, ck_free = False\<rparr>);
       let last = hp_end h - HEAP_HEADER_SIZE;
       let h = set_chunk h last (\<lambda>k. \<lparr>ck_prev = middle, ck_next = 0, ck_size = 0, ck_free = False\<rparr>);
       let h = set_chunk h middle (\<lambda>k. k\<lparr>ck_prev := first, ck_next := last\<rparr>);
       let h = set_chunk h middle (\<lambda>k. k\<lparr>ck_size := chunk_size h middle, ck_free := True\<rparr>);
       let h = insert_free_chunk h middle;
       Some (v, h\<lparr>hp_first := first\<rparr>)
     })"

section \<open>The layout of the heap\<close>

text \<open>Consecutive chunks that link to each other and leave no gap.\<close>

fun seg :: "(ptr \<Rightarrow> chunk_t) \<Rightarrow> ptr \<Rightarrow> ptr list \<Rightarrow> ptr \<Rightarrow> bool" where
  "seg m p [] n = True"
| "seg m p (c # cs) n =
    (ck_prev (m c) = p \<and> ck_next (m c) = hd_or cs n \<and> c + 32 + ck_size (m c) = hd_or cs n \<and>
     16 dvd ck_size (m c) \<and> seg m c cs n)"

text \<open>The two guards around the chunks \<open>cs\<close>, the free list \<open>fs\<close>, and no two neighbours that are both free.\<close>

definition layout :: "heap_t \<Rightarrow> ptr list \<Rightarrow> bool" where
  "layout h cs \<longleftrightarrow> 0 < hp_start h \<and> hp_start h + hp_size h = hp_end h \<and> hp_size h \<noteq> 0 \<and>
    hp_end h \<le> hp_start h + unat KHEAP_SIZE \<and> hp_start h + unat KHEAP_SIZE < 2 ^ 64 \<and> 16 dvd hp_start h \<and>
    seg (chunks h) 0 (hp_start h # cs) (hp_end h - 32) \<and> 32 \<le> hp_end h \<and>
    chunks h (hp_end h - 32) = \<lparr>ck_prev = last_or cs (hp_start h), ck_next = 0, ck_size = 0, ck_free = False\<rparr> \<and>
    ck_size (chunks h (hp_start h)) = 0 \<and> \<not> ck_free (chunks h (hp_start h)) \<and>
    (\<forall>c \<in> set cs. 16 \<le> ck_size (chunks h c))"

definition free_list :: "heap_t \<Rightarrow> ptr list \<Rightarrow> bool" where
  "free_list h fs \<longleftrightarrow> distinct fs \<and> chain (flinks h) 0 0 fs 0 \<and> hp_free h = hd_or fs 0"

definition heap_inv :: "heap_t \<Rightarrow> ptr list \<Rightarrow> ptr list \<Rightarrow> bool" where
  "heap_inv h cs fs \<longleftrightarrow> layout h cs \<and> free_list h fs \<and> set fs = {c \<in> set cs. ck_free (chunks h c)} \<and>
    successively (\<lambda>a b. \<not> (ck_free (chunks h a) \<and> ck_free (chunks h b))) cs"

lemma seg_append [simp]:
  "seg m p (xs @ ys) n \<longleftrightarrow> seg m p xs (hd_or ys n) \<and> seg m (last_or xs p) ys n"
  by (induction xs arbitrary: p) auto

lemma seg_frame:
  "(\<And>c. c \<in> set cs \<Longrightarrow> ck_prev (m' c) = ck_prev (m c) \<and> ck_next (m' c) = ck_next (m c) \<and> ck_size (m' c) = ck_size (m c))
    \<Longrightarrow> seg m' p cs n = seg m p cs n"
  by (induction cs arbitrary: p) auto

lemma seg_le: "seg m p cs n \<Longrightarrow> hd_or cs n \<le> n"
  by (induction cs arbitrary: p) fastforce+

lemma seg_bounds: "seg m p cs n \<Longrightarrow> c \<in> set cs \<Longrightarrow> c + 32 + ck_size (m c) \<le> n"
  by (induction cs arbitrary: p) (auto dest: seg_le)

lemma seg_lower: "seg m p cs n \<Longrightarrow> c \<in> set cs \<Longrightarrow> hd_or cs n \<le> c"
  by (induction cs arbitrary: p) fastforce+

lemma seg_above: "seg m p (c # cs) n \<Longrightarrow> d \<in> set cs \<Longrightarrow> c + 32 + ck_size (m c) \<le> d"
  using seg_lower [of m c cs n d] by auto

lemma seg_distinct: "seg m p cs n \<Longrightarrow> distinct cs"
proof (induction cs arbitrary: p)
  case (Cons c cs)
  then show ?case using seg_above [of m p c cs n c] by auto
qed simp

lemma seg_last_notin: "seg m p cs n \<Longrightarrow> n \<notin> set cs"
  using seg_bounds [of m p cs n n] by auto

lemma seg_disjoint:
  assumes "seg m p cs n" and "c \<in> set cs" and "d \<in> set cs" and "c < d"
  shows "c + 32 + ck_size (m c) \<le> d"
  using assms
proof (induction cs arbitrary: p)
  case (Cons e cs)
  then show ?case using seg_above [of m p e cs n] by (cases "c = e") fastforce+
qed simp

section \<open>List operations and chunks\<close>

lemma set_chunk_sel [simp]:
  "chunks (set_chunk h c f) = (chunks h)(c := f (chunks h c))" "flinks (set_chunk h c f) = flinks h"
  "hp_free (set_chunk h c f) = hp_free h" "hp_start (set_chunk h c f) = hp_start h"
  "hp_end (set_chunk h c f) = hp_end h" "hp_size (set_chunk h c f) = hp_size h"
  by (simp_all add: set_chunk_def)

lemma insert_free_sel [simp]:
  "chunks (insert_free_chunk h c) = (chunks h)(c := (chunks h c)\<lparr>ck_free := True\<rparr>)"
  "hp_start (insert_free_chunk h c) = hp_start h" "hp_end (insert_free_chunk h c) = hp_end h"
  "hp_size (insert_free_chunk h c) = hp_size h"
  by (simp_all add: insert_free_chunk_def Let_def)

lemma remove_free_sel [simp]:
  "chunks (remove_free_chunk h c) = (chunks h)(c := (chunks h c)\<lparr>ck_free := False\<rparr>)"
  "hp_start (remove_free_chunk h c) = hp_start h" "hp_end (remove_free_chunk h c) = hp_end h"
  "hp_size (remove_free_chunk h c) = hp_size h"
  by (simp_all add: remove_free_chunk_def Let_def)

lemma free_list_set_chunk [simp]: "free_list (set_chunk h c f) fs = free_list h fs"
  by (simp add: free_list_def)

lemmas chain0_set_other [simp] = chain_set_other [where off = 0, simplified]

lemma free_list_insert:
  assumes "free_list h fs" and "c \<notin> set fs" and "c \<noteq> 0"
  shows "free_list (insert_free_chunk h c) (c # fs)"
  using assms by (cases fs) (auto simp: free_list_def insert_free_chunk_def Let_def)

lemma free_list_remove:
  assumes f: "free_list h fs" and "c \<in> set fs"
  shows "free_list (remove_free_chunk h c) (remove1 c fs)"
proof -
  obtain xs ys where fs: "fs = xs @ c # ys" and "c \<notin> set xs" using assms(2) by (meson split_list_first)
  then have eq: "remove1 c fs = xs @ ys" by (simp add: remove1_append)
  have "c \<noteq> 0" "0 \<notin> set xs" "0 \<notin> set ys"
    using f chain_nonnull fs by (auto simp: free_list_def)
  then show ?thesis
    using f unfolding eq unfolding fs
    by (cases xs rule: rev_cases; cases ys)
      (auto simp: free_list_def remove_free_chunk_def Let_def)
qed

text \<open>The invariant without the condition on neighbours, which fails while chunks are being joined.\<close>

definition base_inv :: "heap_t \<Rightarrow> ptr list \<Rightarrow> ptr list \<Rightarrow> bool" where
  "base_inv h cs fs \<longleftrightarrow> layout h cs \<and> free_list h fs \<and> set fs = {c \<in> set cs. ck_free (chunks h c)}"

abbreviation apart :: "(ptr \<Rightarrow> chunk_t) \<Rightarrow> ptr list \<Rightarrow> bool" where
  "apart m \<equiv> successively (\<lambda>a b. \<not> (ck_free (m a) \<and> ck_free (m b)))"

lemma heap_inv_base: "heap_inv h cs fs \<longleftrightarrow> base_inv h cs fs \<and> apart (chunks h) cs"
  by (auto simp: heap_inv_def base_inv_def)

lemma layout_facts:
  assumes "layout h cs"
  shows "distinct (hp_start h # cs)" "hp_end h - 32 \<notin> set (hp_start h # cs)" "0 \<notin> set cs"
    "c \<in> set cs \<Longrightarrow> hp_start h < c \<and> c + 32 + ck_size (chunks h c) \<le> hp_end h - 32"
    "c \<in> set cs \<Longrightarrow> c + 32 + ck_size (chunks h c) < 2 ^ 64"
proof -
  have s: "seg (chunks h) 0 (hp_start h # cs) (hp_end h - 32)" and z: "0 < hp_start h" using assms by (simp_all add: layout_def)
  show "distinct (hp_start h # cs)" using seg_distinct [OF s] .
  show "hp_end h - 32 \<notin> set (hp_start h # cs)" using seg_last_notin [OF s] .
  have lt: "c \<in> set cs \<Longrightarrow> hp_start h < c" for c using seg_above [OF s, of c] by auto
  then show "0 \<notin> set cs" using z by auto
  show b: "c \<in> set cs \<Longrightarrow> hp_start h < c \<and> c + 32 + ck_size (chunks h c) \<le> hp_end h - 32"
    using seg_bounds [OF s, of c] lt [of c] by auto
  have "hp_end h < 2 ^ 64" using assms unfolding layout_def by linarith
  then show "c + 32 + ck_size (chunks h c) < 2 ^ 64" if "c \<in> set cs" using b [OF that] by linarith
qed

lemma layout_neighbours:
  assumes "layout h (xs @ c # ys)"
  shows "ck_prev (chunks h c) = last_or xs (hp_start h)" "ck_next (chunks h c) = hd_or ys (hp_end h - 32)"
    "c + 32 + ck_size (chunks h c) = hd_or ys (hp_end h - 32)"
  using assms by (auto simp: layout_def)

text \<open>Only the free flag of a chunk changes.\<close>

lemma layout_flag:
  assumes "layout h cs" and "c \<in> set cs" and "chunks h' = (chunks h)(c := (chunks h c)\<lparr>ck_free := b\<rparr>)"
    and "hp_start h' = hp_start h" "hp_end h' = hp_end h" "hp_size h' = hp_size h"
  shows "layout h' cs"
proof -
  have "seg (chunks h') 0 (hp_start h # cs) (hp_end h - 32) = seg (chunks h) 0 (hp_start h # cs) (hp_end h - 32)"
    by (rule seg_frame) (simp add: assms(3))
  moreover have "c \<noteq> hp_start h" "c \<noteq> hp_end h - 32" using layout_facts(1,2) [OF assms(1)] assms(2) by auto
  ultimately show ?thesis using assms by (auto simp: layout_def)
qed

section \<open>Joining and splitting keep the layout\<close>

lemma layout_join:
  assumes l: "layout h (xs @ p # c # ys)" and d: "d = hd_or ys (hp_end h - 32)"
    and k: "ck_prev k = ck_prev (chunks h p)" "ck_next k = d" "ck_size k = ck_size (chunks h p) + ck_size (chunks h c) + 32"
    and m: "chunks h' = (chunks h)(c := k', p := k, d := (chunks h d)\<lparr>ck_prev := p\<rparr>)"
    and h': "hp_start h' = hp_start h" "hp_end h' = hp_end h" "hp_size h' = hp_size h"
  shows "layout h' (xs @ p # ys)"
proof -
  let ?f = "hp_start h" and ?l = "hp_end h - 32"
  note F = layout_facts [OF l]
  have S: "\<forall>e \<in> set (xs @ p # c # ys). 16 \<le> ck_size (chunks h e)" using l by (simp add: layout_def)
  have s: "seg (chunks h) 0 (?f # xs) p" "seg (chunks h) (last_or xs ?f) (p # c # ys) ?l"
    using l by (auto simp: layout_def)
  have dp: "d \<noteq> p" "d \<noteq> c" "d \<noteq> ?f" "d \<notin> set xs" using F(1,2) d by (cases ys; auto)+
  have 1: "seg (chunks h') 0 (?f # xs) p"
    using s(1) F(1) dp by (subst seg_frame [where m = "chunks h"]) (auto simp: m)
  have 2: "seg (chunks h') p ys ?l"
  proof (cases ys)
    case (Cons e es)
    have "seg (chunks h') e es ?l = seg (chunks h) e es ?l"
      by (rule seg_frame) (use F(1) d Cons in \<open>auto simp: m\<close>)
    then show ?thesis using s(2) d Cons dp by (auto simp: m)
  qed simp
  have 3: "seg (chunks h') (last_or xs ?f) (p # ys) ?l"
    using s(2) 2 dp k d by (auto simp: m)
  have "chunks h' ?l = \<lparr>ck_prev = last_or (xs @ p # ys) ?f, ck_next = 0, ck_size = 0, ck_free = False\<rparr>"
    using l F(2) d by (cases ys) (auto simp: m layout_def)
  moreover have "chunks h' ?f = chunks h ?f" using F(1) dp by (auto simp: m)
  moreover have "16 \<le> ck_size (chunks h' e)" if "e \<in> set (xs @ p # ys)" for e
    using that S k(3) F(1) by (auto simp: m)
  ultimately show ?thesis using 1 3 h' l by (simp add: layout_def)
qed

lemma layout_split:
  assumes l: "layout h (xs @ c # ys)" and sz: "16 \<le> sz" "16 dvd sz" "sz + 48 \<le> ck_size (chunks h c)"
    and d: "d = hd_or ys (hp_end h - 32)" and n: "n = c + 32 + sz"
    and k: "ck_prev k = c" "ck_next k = d" "ck_size k = ck_size (chunks h c) - sz - 32"
    and m: "chunks h' = (chunks h)(n := k, d := (chunks h d)\<lparr>ck_prev := n\<rparr>, c := (chunks h c)\<lparr>ck_next := n, ck_size := sz\<rparr>)"
    and h': "hp_start h' = hp_start h" "hp_end h' = hp_end h" "hp_size h' = hp_size h"
  shows "layout h' (xs @ c # n # ys)" "n \<notin> set (xs @ c # ys)"
proof -
  let ?f = "hp_start h" and ?l = "hp_end h - 32"
  note F = layout_facts [OF l]
  have S: "\<forall>e \<in> set (xs @ c # ys). 16 \<le> ck_size (chunks h e)" using l by (simp add: layout_def)
  have s: "seg (chunks h) 0 (?f # xs) c" "seg (chunks h) (last_or xs ?f) (c # ys) ?l"
    using l by (auto simp: layout_def)
  have dn: "d = c + 32 + ck_size (chunks h c)" using s(2) d by simp
  have dc: "d \<noteq> c" "d \<noteq> ?f" "d \<notin> set xs" using F(1,2) d by (cases ys; auto)+
  have nx: "n \<notin> set (?f # xs)" using seg_bounds [OF s(1), of n] n by auto
  have ny: "n \<notin> set ys" using seg_above [OF s(2), of n] n sz by auto
  then show "n \<notin> set (xs @ c # ys)" using nx n by auto
  have nl: "n \<noteq> ?l" "n \<noteq> d" using seg_bounds [OF s(2), of c] n dn sz by auto
  have 1: "seg (chunks h') 0 (?f # xs) c"
    using s(1) F(1) dc nx by (subst seg_frame [where m = "chunks h"]) (auto simp: m)
  have 2: "seg (chunks h') n ys ?l"
  proof (cases ys)
    case (Cons e es)
    have "seg (chunks h') e es ?l = seg (chunks h) e es ?l"
      by (rule seg_frame) (use F(1) ny d Cons in \<open>auto simp: m\<close>)
    then show ?thesis using s(2) d Cons dc nl by (auto simp: m)
  qed simp
  have dvd: "16 dvd ck_size (chunks h c) - sz - 32" using s(2) sz(2) by (intro dvd_diff_nat) auto
  have 3: "seg (chunks h') (last_or xs ?f) (c # n # ys) ?l"
    using s(2) 2 dc nl k d n dn sz dvd by (auto simp: m)
  have "chunks h' ?l = \<lparr>ck_prev = last_or (xs @ c # n # ys) ?f, ck_next = 0, ck_size = 0, ck_free = False\<rparr>"
    using l F(2) d nl by (cases ys) (auto simp: m layout_def)
  moreover have "chunks h' ?f = chunks h ?f" using F(1) dc nx by (auto simp: m)
  moreover have "16 \<le> ck_size (chunks h' e)" if "e \<in> set (xs @ c # n # ys)" for e
    using that S k(3) sz nl by (auto simp: m)
  ultimately show "layout h' (xs @ c # n # ys)" using 1 3 h' l by (simp add: layout_def)
qed

end
