(* ===== verification/HeapInv.thy ===== *)
theory HeapInv
  imports Heap
begin

text \<open>
  The operations of the kernel heap keep its invariant: inserting into and removing from the free list,
  joining and splitting chunks, growing the heap, and with them allocation and release.
\<close>

section \<open>Free flags\<close>

lemma base_insert:
  assumes b: "base_inv h cs fs" and c: "c \<in> set cs" "\<not> ck_free (chunks h c)"
  shows "base_inv (insert_free_chunk h c) cs (c # fs)"
proof -
  have "layout (insert_free_chunk h c) cs"
    by (rule layout_flag [of h cs c]) (use b c in \<open>simp_all add: base_inv_def\<close>)
  moreover have "free_list h fs" "c \<notin> set fs" "0 \<notin> set cs"
    using b c layout_facts(3) [of h cs] by (simp_all add: base_inv_def)
  then have "free_list (insert_free_chunk h c) (c # fs)" using c(1) by (metis free_list_insert)
  ultimately show ?thesis using b c by (auto simp: base_inv_def)
qed

lemma base_remove:
  assumes b: "base_inv h cs fs" and c: "c \<in> set fs"
  shows "base_inv (remove_free_chunk h c) cs (remove1 c fs)"
proof -
  have c': "c \<in> set cs" "distinct fs" using b c by (auto simp: base_inv_def free_list_def)
  have "layout (remove_free_chunk h c) cs"
    by (rule layout_flag [of h cs c]) (use b c' in \<open>simp_all add: base_inv_def\<close>)
  moreover have "free_list (remove_free_chunk h c) (remove1 c fs)"
    using b c free_list_remove [of h fs c] by (simp add: base_inv_def)
  ultimately show ?thesis using b c' by (auto simp: base_inv_def)
qed

text \<open>What joining two free neighbours does, from either side.\<close>

definition joined :: "heap_t \<Rightarrow> ptr \<Rightarrow> ptr \<Rightarrow> heap_t \<Rightarrow> ptr list \<Rightarrow> ptr list \<Rightarrow> ptr list \<Rightarrow> bool" where
  "joined h p c h' xs ys fs \<longleftrightarrow> base_inv h' (xs @ p # ys) (p # remove1 p (remove1 c fs)) \<and>
    ck_size (chunks h' p) = ck_size (chunks h p) + ck_size (chunks h c) + 32 \<and>
    (\<forall>e \<in> set (xs @ ys). ck_size (chunks h' e) = ck_size (chunks h e)) \<and>
    (\<forall>e \<in> set (xs @ p # ys). ck_free (chunks h' e) = ck_free (chunks h e)) \<and>
    hp_start h' = hp_start h \<and> hp_end h' = hp_end h \<and> hp_size h' = hp_size h"

lemma joined_intro:
  assumes b: "base_inv h (xs @ p # c # ys) fs" and free: "ck_free (chunks h p)" "ck_free (chunks h c)"
    and d: "d = hd_or ys (hp_end h - 32)"
    and g: "free_list g (remove1 p (remove1 c fs))" "hp_start g = hp_start h" "hp_end g = hp_end h" "hp_size g = hp_size h"
    and m: "chunks g = (chunks h)(c := k', p := k, d := (chunks h d)\<lparr>ck_prev := p\<rparr>)"
    and k: "ck_prev k = ck_prev (chunks h p)" "ck_next k = d" "ck_size k = ck_size (chunks h p) + ck_size (chunks h c) + 32"
  shows "joined h p c (insert_free_chunk g p) xs ys fs"
proof -
  have l: "layout h (xs @ p # c # ys)" and fl: "free_list h fs"
    and S: "set fs = {e \<in> set (xs @ p # c # ys). ck_free (chunks h e)}" using b by (simp_all add: base_inv_def)
  note F = layout_facts [OF l]
  have dp: "d \<noteq> p" "d \<noteq> c" "d \<notin> set xs" using F(1,2) d by (cases ys; auto)+
  have l': "layout (insert_free_chunk g p) (xs @ p # ys)"
  proof (rule layout_join [OF l d, where k = "k\<lparr>ck_free := True\<rparr>" and k' = k'])
    show "chunks (insert_free_chunk g p) = (chunks h)(c := k', p := k\<lparr>ck_free := True\<rparr>, d := (chunks h d)\<lparr>ck_prev := p\<rparr>)"
      by (rule ext) (use dp in \<open>simp add: m\<close>)
  qed (simp_all add: g(2-4) k)
  have "free_list (insert_free_chunk g p) (p # remove1 p (remove1 c fs))"
    using fl F(3) by (intro free_list_insert [OF g(1)]) (simp_all add: free_list_def)
  moreover have nc: "c \<notin> set (xs @ p # ys)" "p \<notin> set (xs @ ys)" using F(1) by auto
  have fr: "ck_free (chunks (insert_free_chunk g p) e) = ck_free (chunks h e)"
    and sz: "e \<noteq> p \<Longrightarrow> ck_size (chunks (insert_free_chunk g p) e) = ck_size (chunks h e)" if "e \<in> set (xs @ p # ys)" for e
  proof -
    have "e \<noteq> c" using that nc(1) by metis
    then show "ck_free (chunks (insert_free_chunk g p) e) = ck_free (chunks h e)"
      "e \<noteq> p \<Longrightarrow> ck_size (chunks (insert_free_chunk g p) e) = ck_size (chunks h e)"
      using free(1) by (simp_all add: m)
  qed
  have "{e \<in> set (xs @ p # ys). ck_free (chunks (insert_free_chunk g p) e)} = {e \<in> set (xs @ p # ys). ck_free (chunks h e)}"
    using fr by blast
  moreover have "set (p # remove1 p (remove1 c fs)) = insert p (set fs - {c} - {p})"
    using fl by (simp add: free_list_def)
  moreover have "insert p (set fs - {c} - {p}) = {e \<in> set (xs @ p # ys). ck_free (chunks h e)}"
    unfolding S using nc free by auto
  ultimately have "base_inv (insert_free_chunk g p) (xs @ p # ys) (p # remove1 p (remove1 c fs))"
    using l' unfolding base_inv_def by simp
  moreover have "ck_size (chunks (insert_free_chunk g p) p) = ck_size (chunks h p) + ck_size (chunks h c) + 32"
    using dp k(3) by (simp add: m)
  moreover have "\<forall>e \<in> set (xs @ ys). ck_size (chunks (insert_free_chunk g p) e) = ck_size (chunks h e)"
    using sz nc(2) by (metis Un_iff list.set_intros(2) set_append)
  ultimately show ?thesis
    using fr g(2-4) unfolding joined_def by (simp only: insert_free_sel) blast
qed

lemma glue_prev_joined:
  assumes b: "base_inv h (xs @ p # c # ys) fs" and free: "ck_free (chunks h p)" "ck_free (chunks h c)"
  shows "joined h p c (glue_prev h c) xs ys fs"
proof -
  have l: "layout h (xs @ p # c # ys)" using b by (simp add: base_inv_def)
  note F = layout_facts [OF l]
  have nb: "ck_prev (chunks h c) = p" "ck_next (chunks h c) = hd_or ys (hp_end h - 32)"
    using layout_neighbours [of h "xs @ [p]" c ys] l by simp_all
  have pc: "p \<noteq> c" and dp: "hd_or ys (hp_end h - 32) \<noteq> p" "hd_or ys (hp_end h - 32) \<noteq> c" using F(1,2) by (cases ys; auto)+
  have "c \<in> set fs" "p \<in> set fs" using b free by (auto simp: base_inv_def)
  then have b2: "base_inv (remove_free_chunk (remove_free_chunk h c) p) (xs @ p # c # ys) (remove1 p (remove1 c fs))"
    using base_remove [OF base_remove [OF b]] pc by simp
  define g where "g = set_chunk (set_chunk (set_chunk (remove_free_chunk (remove_free_chunk h c) p) p
      (\<lambda>k. k\<lparr>ck_size := ck_size k + ck_size (chunks h c) + 32\<rparr>)) p (\<lambda>k. k\<lparr>ck_next := hd_or ys (hp_end h - 32)\<rparr>))
      (hd_or ys (hp_end h - 32)) (\<lambda>k. k\<lparr>ck_prev := p\<rparr>)"
  have eq: "glue_prev h c = insert_free_chunk g p"
    using nb pc dp by (simp add: glue_prev_def Let_def g_def)
  have ch: "chunks g = (chunks h)(c := (chunks h c)\<lparr>ck_free := False\<rparr>,
      p := (chunks h p)\<lparr>ck_free := False, ck_size := ck_size (chunks h p) + ck_size (chunks h c) + 32,
            ck_next := hd_or ys (hp_end h - 32)\<rparr>,
      hd_or ys (hp_end h - 32) := (chunks h (hd_or ys (hp_end h - 32)))\<lparr>ck_prev := p\<rparr>)"
    by (rule ext) (use pc dp in \<open>simp add: g_def\<close>)
  have "joined h p c (insert_free_chunk g p) xs ys fs"
    by (rule joined_intro [OF b free refl, where k' = "(chunks h c)\<lparr>ck_free := False\<rparr>" and
          k = "(chunks h p)\<lparr>ck_free := False, ck_size := ck_size (chunks h p) + ck_size (chunks h c) + 32,
            ck_next := hd_or ys (hp_end h - 32)\<rparr>"])
      (use b2 ch in \<open>simp_all add: g_def base_inv_def\<close>)
  then show ?thesis by (simp add: eq)
qed

lemma glue_next_joined:
  assumes b: "base_inv h (xs @ c # n # ys) fs" and free: "ck_free (chunks h c)" "ck_free (chunks h n)"
  shows "joined h c n (glue_next h c) xs ys fs"
proof -
  have l: "layout h (xs @ c # n # ys)" using b by (simp add: base_inv_def)
  note F = layout_facts [OF l]
  have nb: "ck_next (chunks h c) = n" "ck_next (chunks h n) = hd_or ys (hp_end h - 32)"
    using layout_neighbours [of h xs c "n # ys"] layout_neighbours [of h "xs @ [c]" n ys] l by simp_all
  have cn: "c \<noteq> n" and dp: "hd_or ys (hp_end h - 32) \<noteq> c" "hd_or ys (hp_end h - 32) \<noteq> n" using F(1,2) by (cases ys; auto)+
  have "c \<in> set fs" "n \<in> set fs" using b free by (auto simp: base_inv_def)
  then have b2: "base_inv (remove_free_chunk (remove_free_chunk h c) n) (xs @ c # n # ys) (remove1 c (remove1 n fs))"
    using base_remove [OF base_remove [OF b]] cn by (simp add: remove1_commute)
  define g where "g = set_chunk (set_chunk (set_chunk (remove_free_chunk (remove_free_chunk h c) n) c
      (\<lambda>k. k\<lparr>ck_size := ck_size k + ck_size (chunks h n) + 32\<rparr>)) c (\<lambda>k. k\<lparr>ck_next := hd_or ys (hp_end h - 32)\<rparr>))
      (hd_or ys (hp_end h - 32)) (\<lambda>k. k\<lparr>ck_prev := c\<rparr>)"
  have eq: "glue_next h c = insert_free_chunk g c"
    using nb cn dp by (simp add: glue_next_def Let_def g_def)
  have ch: "chunks g = (chunks h)(n := (chunks h n)\<lparr>ck_free := False\<rparr>,
      c := (chunks h c)\<lparr>ck_free := False, ck_size := ck_size (chunks h c) + ck_size (chunks h n) + 32,
            ck_next := hd_or ys (hp_end h - 32)\<rparr>,
      hd_or ys (hp_end h - 32) := (chunks h (hd_or ys (hp_end h - 32)))\<lparr>ck_prev := c\<rparr>)"
    by (rule ext) (use cn dp in \<open>simp add: g_def\<close>)
  have "joined h c n (insert_free_chunk g c) xs ys fs"
    by (rule joined_intro [OF b free refl, where k' = "(chunks h n)\<lparr>ck_free := False\<rparr>" and
          k = "(chunks h c)\<lparr>ck_free := False, ck_size := ck_size (chunks h c) + ck_size (chunks h n) + 32,
            ck_next := hd_or ys (hp_end h - 32)\<rparr>"])
      (use b2 ch in \<open>simp_all add: g_def base_inv_def\<close>)
  then show ?thesis by (simp add: eq)
qed

section \<open>Release\<close>

text \<open>The blocks in use: the address of their chunk and their size.\<close>

definition used :: "heap_t \<Rightarrow> ptr list \<Rightarrow> (ptr \<times> nat) set" where
  "used h cs = (\<lambda>c. (c, ck_size (chunks h c))) ` {c \<in> set cs. \<not> ck_free (chunks h c)}"

lemma joined_used:
  assumes "joined h p c h' xs ys fs" "ck_free (chunks h p)" "ck_free (chunks h c)"
  shows "used h' (xs @ p # ys) = used h (xs @ p # c # ys)"
proof -
  have sz: "\<And>e. e \<in> set (xs @ ys) \<Longrightarrow> ck_size (chunks h' e) = ck_size (chunks h e)"
    and fr: "\<And>e. e \<in> set (xs @ p # ys) \<Longrightarrow> ck_free (chunks h' e) = ck_free (chunks h e)"
    using assms(1) unfolding joined_def by blast+
  have "{e \<in> set (xs @ p # ys). \<not> ck_free (chunks h' e)} = {e \<in> set (xs @ ys). \<not> ck_free (chunks h e)}"
    using fr assms(2) by auto
  moreover have "{e \<in> set (xs @ p # c # ys). \<not> ck_free (chunks h e)} = {e \<in> set (xs @ ys). \<not> ck_free (chunks h e)}"
    using assms(2,3) by auto
  ultimately show ?thesis
    unfolding used_def using sz by (intro image_cong) auto
qed

text \<open>The chunk \<open>q\<close> is free, all the others have the flags they have in \<open>h\<close>.\<close>

definition freed :: "heap_t \<Rightarrow> heap_t \<Rightarrow> ptr list \<Rightarrow> ptr \<Rightarrow> ptr list \<Rightarrow> (ptr \<times> nat) set \<Rightarrow> bool" where
  "freed h h' xs q ys u \<longleftrightarrow> (\<exists>fs. base_inv h' (xs @ q # ys) fs) \<and> ck_free (chunks h' q) \<and>
    (\<forall>e \<in> set (xs @ ys). ck_free (chunks h' e) = ck_free (chunks h e)) \<and> used h' (xs @ q # ys) = u"

lemma freed_insert:
  assumes "base_inv h (xs @ c # ys) fs" "\<not> ck_free (chunks h c)"
  shows "freed h (insert_free_chunk h c) xs c ys (used h (xs @ c # ys) - {(c, ck_size (chunks h c))})"
proof -
  have "distinct (xs @ c # ys)"
    using assms(1) layout_facts(1) [of h "xs @ c # ys"] by (simp add: base_inv_def)
  then have c: "c \<notin> set (xs @ ys)" by simp
  have "base_inv (insert_free_chunk h c) (xs @ c # ys) (c # fs)"
    by (rule base_insert [OF assms(1) _ assms(2)]) simp
  moreover have "used (insert_free_chunk h c) (xs @ c # ys) = used h (xs @ c # ys) - {(c, ck_size (chunks h c))}"
    using c by (auto simp: used_def)
  ultimately show ?thesis
    using c unfolding freed_def by (auto simp del: insert_free_sel(1) simp add: insert_free_sel(1))
qed

lemma freed_prev:
  assumes "freed h h' (xs @ [p]) q ys u" "ck_free (chunks h p)"
  shows "freed h (glue_prev h' q) xs p ys u"
proof -
  obtain fs where b: "base_inv h' (xs @ p # q # ys) fs"
    using assms(1) by (auto simp: freed_def)
  have f: "ck_free (chunks h' p)" "ck_free (chunks h' q)"
    using assms by (simp_all add: freed_def)
  note j = glue_prev_joined [OF b f]
  have u: "used (glue_prev h' q) (xs @ p # ys) = u"
    using joined_used [OF j f] assms(1) by (simp add: freed_def)
  have "\<forall>e \<in> set (xs @ p # ys). ck_free (chunks (glue_prev h' q) e) = ck_free (chunks h' e)"
    using j unfolding joined_def by blast
  then show ?thesis
    using j u f assms(1) by (auto simp: freed_def joined_def)
qed

lemma freed_next:
  assumes "freed h h' xs q (n # ys) u" "ck_free (chunks h n)"
  shows "freed h (glue_next h' q) xs q ys u"
proof -
  obtain fs where b: "base_inv h' (xs @ q # n # ys) fs"
    using assms(1) by (auto simp: freed_def)
  have f: "ck_free (chunks h' q)" "ck_free (chunks h' n)"
    using assms by (simp_all add: freed_def)
  note j = glue_next_joined [OF b f]
  have u: "used (glue_next h' q) (xs @ q # ys) = u"
    using joined_used [OF j f] assms(1) by (simp add: freed_def)
  have "\<forall>e \<in> set (xs @ q # ys). ck_free (chunks (glue_next h' q) e) = ck_free (chunks h' e)"
    using j unfolding joined_def by blast
  then show ?thesis
    using j u f assms(1) by (auto simp: freed_def joined_def)
qed

lemma freed_layout: "freed h h' xs q ys u \<Longrightarrow> layout h' (xs @ q # ys)"
  by (auto simp: freed_def base_inv_def)

lemma freed_inv:
  assumes f: "freed h h' xs q ys u" and a: "apart (chunks h) xs" "apart (chunks h) ys"
    and e: "xs = [] \<or> \<not> ck_free (chunks h (last xs))" "ys = [] \<or> \<not> ck_free (chunks h (hd ys))"
  shows "\<exists>fs. heap_inv h' (xs @ q # ys) fs"
proof -
  have fr: "\<And>e. e \<in> set (xs @ ys) \<Longrightarrow> ck_free (chunks h' e) = ck_free (chunks h e)" using f by (auto simp: freed_def)
  have "apart (chunks h') xs = apart (chunks h) xs" "apart (chunks h') ys = apart (chunks h) ys"
    using fr by (intro successively_cong; simp)+
  moreover have "xs = [] \<or> \<not> ck_free (chunks h' (last xs))" "ys = [] \<or> \<not> ck_free (chunks h' (hd ys))"
    using e fr by auto
  ultimately have "apart (chunks h') (xs @ q # ys)"
    using a by (auto simp: successively_append_iff successively_Cons)
  then show ?thesis using f by (auto simp: freed_def heap_inv_base)
qed

text \<open>The two halves of \<open>glue_chunk\<close>.\<close>

lemma freed_glue_prev:
  assumes f: "freed h h' xs c ys u" and a: "apart (chunks h) xs"
  obtains xs2 q h2 where
    "(if ck_free (chunks h' (ck_prev (chunks h' c))) then (glue_prev h' c, ck_prev (chunks h' c)) else (h', c)) = (h2, q)"
    "freed h h2 xs2 q ys u" "apart (chunks h) xs2" "xs2 = [] \<or> \<not> ck_free (chunks h (last xs2))"
proof (cases xs rule: rev_cases)
  case Nil
  note l = freed_layout [OF f]
  have "ck_prev (chunks h' c) = hp_start h'" "\<not> ck_free (chunks h' (hp_start h'))"
    using layout_neighbours(1) [OF l] l by (simp_all add: Nil layout_def)
  then show ?thesis using that [of h' c xs] f a Nil by simp
next
  case (snoc zs p)
  note l = freed_layout [OF f]
  have pr: "ck_prev (chunks h' c) = p" "ck_free (chunks h' p) = ck_free (chunks h p)"
    using layout_neighbours(1) [OF l] f by (simp_all add: snoc freed_def)
  show ?thesis
  proof (cases "ck_free (chunks h p)")
    case True
    have "freed h (glue_prev h' c) zs p ys u" using freed_prev f True snoc by simp
    then show ?thesis
      using that [of "glue_prev h' c" p zs] pr a True by (simp add: snoc successively_append_iff)
  next
    case False
    then show ?thesis using that [of h' c xs] f a pr snoc by simp
  qed
qed

lemma freed_glue_next:
  assumes f: "freed h h' xs q ys u" and a: "apart (chunks h) xs" "apart (chunks h) ys"
    and e: "xs = [] \<or> \<not> ck_free (chunks h (last xs))"
  shows "\<exists>ys' fs. heap_inv (if ck_free (chunks h' (ck_next (chunks h' q))) then glue_next h' q else h') (xs @ q # ys') fs \<and>
    freed h (if ck_free (chunks h' (ck_next (chunks h' q))) then glue_next h' q else h') xs q ys' u"
proof (cases ys)
  case Nil
  note l = freed_layout [OF f]
  have "ck_next (chunks h' q) = hp_end h' - 32" "\<not> ck_free (chunks h' (hp_end h' - 32))"
    using layout_neighbours(2) [OF l] l by (simp_all add: Nil layout_def)
  then show ?thesis using freed_inv [OF f a e] f Nil by auto
next
  case (Cons n zs)
  note l = freed_layout [OF f]
  have nx: "ck_next (chunks h' q) = n" "ck_free (chunks h' n) = ck_free (chunks h n)"
    using layout_neighbours(2) [OF l] f by (simp_all add: Cons freed_def)
  show ?thesis
  proof (cases "ck_free (chunks h n)")
    case True
    have f2: "freed h (glue_next h' q) xs q zs u" using freed_next f True Cons by simp
    have "apart (chunks h) zs" "zs = [] \<or> \<not> ck_free (chunks h (hd zs))"
      using a(2) True by (auto simp: Cons successively_Cons)
    then show ?thesis using freed_inv [OF f2 a(1) _ e] f2 nx True by auto
  next
    case False
    then show ?thesis using freed_inv [OF f a e] f nx Cons by auto
  qed
qed

lemma kfree_effect:
  assumes i: "heap_inv h cs fs" and c: "c \<in> set cs" "\<not> ck_free (chunks h c)"
  shows "\<exists>cs' fs'. heap_inv (kfree h (c + 32)) cs' fs' \<and>
    used (kfree h (c + 32)) cs' = used h cs - {(c, ck_size (chunks h c))}"
proof -
  obtain xs ys where cs: "cs = xs @ c # ys" using c(1) by (meson split_list)
  have b: "base_inv h (xs @ c # ys) fs" and a: "apart (chunks h) xs" "apart (chunks h) ys"
    using i by (auto simp: heap_inv_base cs successively_append_iff successively_Cons)
  obtain xs2 q h2 where g: "(if ck_free (chunks (insert_free_chunk h c) (ck_prev (chunks (insert_free_chunk h c) c)))
        then (glue_prev (insert_free_chunk h c) c, ck_prev (chunks (insert_free_chunk h c) c)) else (insert_free_chunk h c, c)) = (h2, q)"
    and f: "freed h h2 xs2 q ys (used h cs - {(c, ck_size (chunks h c))})" "apart (chunks h) xs2"
      "xs2 = [] \<or> \<not> ck_free (chunks h (last xs2))"
    using freed_glue_prev [OF freed_insert [OF b c(2)] a(1)] cs by metis
  have l: "layout h cs" using b by (simp add: base_inv_def cs)
  have "kfree h (c + 32) = glue_chunk (insert_free_chunk h c) c True True"
    using layout_facts(4) [OF l c(1)] by (auto simp: kfree_def)
  also have "\<dots> = (if ck_free (chunks h2 (ck_next (chunks h2 q))) then glue_next h2 q else h2)"
    unfolding glue_chunk_def simp_thms g by simp
  finally have eq: "kfree h (c + 32) = (if ck_free (chunks h2 (ck_next (chunks h2 q))) then glue_next h2 q else h2)" .
  obtain ys' fs' where "heap_inv (kfree h (c + 32)) (xs2 @ q # ys') fs'"
    "freed h (kfree h (c + 32)) xs2 q ys' (used h cs - {(c, ck_size (chunks h c))})"
    using freed_glue_next [OF f(1,2) a(2) f(3)] unfolding eq by (elim exE conjE)
  then show ?thesis unfolding freed_def by (intro exI conjI) (assumption, elim conjE)
qed

section \<open>Allocation from a free chunk\<close>

text \<open>The walk over the free list ends and finds the first chunk that is large enough.\<close>

lemma find_free_loop_chain:
  "chain (flinks h) 0 p fs 0 \<Longrightarrow>
    find_free_loop h sz (hd_or fs 0) = Some (hd_or (filter (\<lambda>c. sz \<le> ck_size (chunks h c)) fs) 0)"
proof (induction fs arbitrary: p)
  case Nil
  then show ?case by (subst find_free_loop.simps) simp
next
  case (Cons c fs)
  then have "c \<noteq> 0" "lk_next (flinks h c) = hd_or fs 0" "chain (flinks h) 0 c fs 0" by auto
  with Cons.IH [of c] show ?case by (subst find_free_loop.simps) simp
qed

lemma find_free_loop_inv:
  "heap_inv h cs fs \<Longrightarrow>
    find_free_loop h sz (hp_free h) = Some (hd_or (filter (\<lambda>c. sz \<le> ck_size (chunks h c)) fs) 0)"
  using find_free_loop_chain [of h 0 fs sz] by (simp add: heap_inv_def free_list_def)

text \<open>A block taken out of the free chunk \<open>c\<close> of a heap.\<close>

definition taken :: "heap_t \<Rightarrow> ptr list \<Rightarrow> ptr \<Rightarrow> nat \<Rightarrow> heap_t \<Rightarrow> bool" where
  "taken h cs c sz h' \<longleftrightarrow> (\<exists>cs' fs'. heap_inv h' cs' fs' \<and> c \<in> set cs' \<and> sz \<le> ck_size (chunks h' c) \<and>
    used h' cs' = insert (c, ck_size (chunks h' c)) (used h cs))"

lemma take_whole:
  assumes i: "heap_inv h cs fs" and c: "c \<in> set cs" "ck_free (chunks h c)" "sz \<le> ck_size (chunks h c)"
  shows "taken h cs c sz (remove_free_chunk h c)"
proof -
  have "base_inv (remove_free_chunk h c) cs (remove1 c fs)"
    by (rule base_remove) (use i c in \<open>simp_all add: heap_inv_base base_inv_def\<close>)
  moreover have "apart (chunks (remove_free_chunk h c)) cs"
    by (rule successively_mono [of "\<lambda>a b. \<not> (ck_free (chunks h a) \<and> ck_free (chunks h b))"])
      (use i in \<open>auto simp: heap_inv_base\<close>)
  moreover have "used (remove_free_chunk h c) cs = insert (c, ck_size (chunks h c)) (used h cs)"
    using c by (auto simp: used_def)
  ultimately show ?thesis using c unfolding taken_def heap_inv_base by (intro exI [of _ cs] exI [of _ "remove1 c fs"]) simp
qed

lemma cut_base:
  assumes b: "base_inv h (xs @ c # ys) fs"
    and sz: "16 \<le> sz" "16 dvd sz" "sz + 48 \<le> ck_size (chunks h c)"
  shows "base_inv (cut_chunk h c sz) (xs @ c # (c + 32 + sz) # ys) ((c + 32 + sz) # fs)"
    and "\<And>e. e \<in> set (xs @ c # ys) \<Longrightarrow> ck_free (chunks (cut_chunk h c sz) e) = ck_free (chunks h e)"
    and "\<And>e. e \<in> set (xs @ ys) \<Longrightarrow> ck_size (chunks (cut_chunk h c sz) e) = ck_size (chunks h e)"
    and "ck_size (chunks (cut_chunk h c sz) c) = sz" and "ck_free (chunks (cut_chunk h c sz) (c + 32 + sz))"
proof -
  define n where "n = c + 32 + sz"
  define d where "d = hd_or ys (hp_end h - 32)"
  have l: "layout h (xs @ c # ys)" and fl: "free_list h fs" using b by (simp_all add: base_inv_def)
  note F = layout_facts [OF l]
  have nb: "ck_next (chunks h c) = d" "d = c + 32 + ck_size (chunks h c)"
    using layout_neighbours [OF l] by (simp_all add: d_def)
  have ne: "n \<noteq> c" "n \<noteq> d" "d \<noteq> c" using nb sz(3) by (simp_all add: n_def)
  define k where "k = \<lparr>ck_prev = c, ck_next = d, ck_size = ck_size (chunks h c) - sz - 32, ck_free = True\<rparr>"
  define g where "g = h\<lparr>chunks := (chunks h)(n := k)\<rparr>"
  have "n < 2 ^ 64" using F(5) [of c] sz(3) by (simp add: n_def)
  then have w: "wrap (c + 32 + sz) = n" by (simp add: wrap_def n_def)
  have e: "cut_chunk h c sz = set_chunk (set_chunk (set_chunk (insert_free_chunk
      (set_chunk (set_chunk (set_chunk h n (\<lambda>k. k\<lparr>ck_prev := c\<rparr>)) n (\<lambda>k. k\<lparr>ck_next := d\<rparr>)) n (\<lambda>k. k\<lparr>ck_size := d - n - 32\<rparr>)) n)
      d (\<lambda>k. k\<lparr>ck_prev := n\<rparr>)) c (\<lambda>k. k\<lparr>ck_next := n\<rparr>)) c (\<lambda>k. k\<lparr>ck_size := sz\<rparr>)"
    using nb ne by (simp add: cut_chunk_def chunk_next_def w chunk_size_def Let_def)
  have ch: "chunks (cut_chunk h c sz) = (chunks h)(n := k, d := (chunks h d)\<lparr>ck_prev := n\<rparr>, c := (chunks h c)\<lparr>ck_next := n, ck_size := sz\<rparr>)"
    by (rule ext) (use ne nb in \<open>simp add: e k_def n_def\<close>)
  have sel: "hp_start (cut_chunk h c sz) = hp_start h" "hp_end (cut_chunk h c sz) = hp_end h" "hp_size (cut_chunk h c sz) = hp_size h"
    by (simp_all add: e)
  note L = layout_split [OF l sz(1-3) d_def n_def _ _ _ ch sel]
  have l': "layout (cut_chunk h c sz) (xs @ c # n # ys)" "n \<notin> set (xs @ c # ys)" by (rule L; simp add: k_def)+
  show fr: "ck_free (chunks (cut_chunk h c sz) e) = ck_free (chunks h e)" if "e \<in> set (xs @ c # ys)" for e
  proof -
    have "e \<noteq> n" using that l'(2) by metis
    then show ?thesis by (simp add: ch)
  qed
  show "ck_size (chunks (cut_chunk h c sz) e) = ck_size (chunks h e)" if "e \<in> set (xs @ ys)" for e
  proof -
    have "e \<noteq> c" "e \<noteq> n" using that F(1) l'(2) by auto
    then show ?thesis by (simp add: ch)
  qed
  show "ck_size (chunks (cut_chunk h c sz) c) = sz" by (simp add: ch)
  show fn: "ck_free (chunks (cut_chunk h c sz) (c + 32 + sz))" using ne by (simp add: ch n_def [symmetric] k_def)
  have S: "set fs = {e \<in> set (xs @ c # ys). ck_free (chunks h e)}" using b by (simp add: base_inv_def)
  have "n \<notin> set fs" "n \<noteq> 0" using S l'(2) by (auto simp: n_def)
  then have "free_list (cut_chunk h c sz) (n # fs)"
    unfolding e free_list_set_chunk using fl by (intro free_list_insert) simp_all
  moreover have "set (n # fs) = {e \<in> set (xs @ c # n # ys). ck_free (chunks (cut_chunk h c sz) e)}"
    using S fr fn by (auto simp: n_def [symmetric])
  ultimately show "base_inv (cut_chunk h c sz) (xs @ c # (c + 32 + sz) # ys) ((c + 32 + sz) # fs)"
    using l'(1) by (simp add: base_inv_def n_def [symmetric])
qed

lemma take_split:
  assumes i: "heap_inv h cs fs" and c: "c \<in> set cs" "ck_free (chunks h c)"
    and sz: "16 \<le> sz" "16 dvd sz" "sz + 48 \<le> ck_size (chunks h c)"
  shows "taken h cs c sz (remove_free_chunk (cut_chunk h c sz) c)"
proof -
  obtain xs ys where cs: "cs = xs @ c # ys" using c(1) by (meson split_list)
  let ?n = "c + 32 + sz" and ?h = "cut_chunk h c sz"
  let ?g = "remove_free_chunk ?h c"
  have b: "base_inv h (xs @ c # ys) fs" and a: "apart (chunks h) xs" "apart (chunks h) ys" "ys = [] \<or> \<not> ck_free (chunks h (hd ys))"
    using i c(2) by (auto simp: heap_inv_base cs successively_append_iff successively_Cons)
  note S = cut_base [OF b sz]
  have d: "distinct (xs @ c # ?n # ys)" using layout_facts(1) [of ?h "xs @ c # ?n # ys"] S(1) by (simp add: base_inv_def)
  have fr: "ck_free (chunks ?g e) = ck_free (chunks h e)" if "e \<in> set (xs @ ys)" for e
  proof -
    have "e \<noteq> c" "e \<in> set (xs @ c # ys)" using that d by auto
    then show ?thesis using S(2) [of e] by simp
  qed
  have c2: "c \<in> set (?n # fs)" using b c by (auto simp: base_inv_def)
  have "apart (chunks ?g) xs = apart (chunks h) xs" "apart (chunks ?g) ys = apart (chunks h) ys"
    using fr by (intro successively_cong; simp)+
  moreover have "ys = [] \<or> \<not> ck_free (chunks ?g (hd ys))"
    using a(3) fr [of "hd ys"] by (cases ys) (simp_all del: remove_free_sel)
  moreover have "\<not> ck_free (chunks ?g c)" by simp
  ultimately have "apart (chunks ?g) (xs @ c # ?n # ys)"
    using a by (auto simp: successively_append_iff successively_Cons simp del: remove_free_sel)
  then have "heap_inv ?g (xs @ c # ?n # ys) (remove1 c (?n # fs))"
    using base_remove [OF S(1) c2] by (simp only: heap_inv_base)
  moreover have "used ?g (xs @ c # ?n # ys) = insert (c, sz) (used h cs)"
  proof -
    have cn: "c \<notin> set (xs @ ys)" "\<not> ck_free (chunks ?g c)" "ck_free (chunks ?g ?n)" using d S(5) by simp_all
    have "{e \<in> set (xs @ c # ?n # ys). \<not> ck_free (chunks ?g e)} = insert c {e \<in> set (xs @ ys). \<not> ck_free (chunks ?g e)}"
      using cn(2,3) by (auto simp del: remove_free_sel)
    also have "\<dots> = insert c {e \<in> set cs. \<not> ck_free (chunks h e)}"
      using fr c(2) unfolding cs by (intro arg_cong [of _ _ "insert c"] Collect_cong) (auto simp del: remove_free_sel)
    finally have "used ?g (xs @ c # ?n # ys) = (\<lambda>e. (e, ck_size (chunks ?g e))) ` insert c {e \<in> set cs. \<not> ck_free (chunks h e)}"
      by (simp only: used_def)
    also have "\<dots> = insert (c, sz) ((\<lambda>e. (e, ck_size (chunks ?g e))) ` {e \<in> set cs. \<not> ck_free (chunks h e)})"
      using S(4) by simp
    also have "(\<lambda>e. (e, ck_size (chunks ?g e))) ` {e \<in> set cs. \<not> ck_free (chunks h e)} = used h cs"
      unfolding used_def
    proof (rule image_cong [OF refl])
      fix e assume "e \<in> {e \<in> set cs. \<not> ck_free (chunks h e)}"
      then have "e \<in> set (xs @ ys)" "e \<noteq> c" using c(2) cs by auto
      then show "(e, ck_size (chunks ?g e)) = (e, ck_size (chunks h e))" using S(3) [of e] by simp
    qed
    finally show ?thesis .
  qed
  ultimately show ?thesis unfolding taken_def using S(4) by (intro exI [of _ "xs @ c # ?n # ys"] exI [of _ "remove1 c (?n # fs)"]) simp
qed

section \<open>Growing the heap\<close>

declare sbrk_loop.simps [simp del]

lemma sbrk_loop_size:
  assumes "sbrk_loop v addr fin sz = Some (got, v')" and "4096 dvd fin - addr"
  shows "sz \<le> got \<and> 4096 dvd got - sz \<and> got - sz \<le> fin - addr"
  using assms
proof (induction v addr fin sz arbitrary: got v' rule: sbrk_loop.induct)
  case (1 v addr fin sz)
  show ?case
  proof (cases "addr < fin")
    case True
    then obtain st v1 where a: "vmm_alloc_page v (of_nat addr) = Some (st, v1)"
      using "1.prems"(1) by (auto simp: sbrk_loop.simps [of v] split: Option.bind_splits)
    show ?thesis
    proof (cases "st = 0")
      case False
      then show ?thesis using "1.prems"(1) True a by (simp add: sbrk_loop.simps [of v])
    next
      case st: True
      have le: "4096 \<le> fin - addr" using True "1.prems"(2) by (simp add: dvd_imp_le)
      have d: "4096 dvd fin - (addr + 4096)"
        unfolding diff_diff_left [symmetric] by (intro dvd_diff_nat "1.prems"(2) dvd_refl)
      have e: "sbrk_loop v1 (addr + 4096) fin (sz + 4096) = Some (got, v')"
        using "1.prems"(1) True a st by (simp add: sbrk_loop.simps [of v])
      have ih: "sz + 4096 \<le> got \<and> 4096 dvd got - (sz + 4096) \<and> got - (sz + 4096) \<le> fin - (addr + 4096)"
        using "1.IH" [OF True, of "(st, v1)" st v1 got v'] a st e d by simp
      then have "got - sz = (got - (sz + 4096)) + 4096" by arith
      then have "4096 dvd got - sz" using ih by (metis dvd_add dvd_refl)
      then show ?thesis using ih le by arith
    qed
  next
    case False
    then show ?thesis using "1.prems"(1) by (simp add: sbrk_loop.simps [of v])
  qed
qed

lemma sbrk_end:
  assumes "fin = wrap (addr + align_size sz HEAP_SBRK_SIZE)"
  shows "4096 dvd fin - addr"
proof -
  define a where "a = align_size sz HEAP_SBRK_SIZE"
  have "a \<le> wrap (sz + HEAP_SBRK_SIZE - 1)" by (simp add: a_def align_size_def)
  then have lt: "a < 2 ^ 64" by (simp add: wrap_def)
  have "0x100000 dvd a" by (simp add: a_def align_size_def)
  then have d: "4096 dvd a" by (rule dvd_trans [rotated]) simp
  show ?thesis
  proof (cases "addr + a < 2 ^ 64")
    case True
    then have "fin = addr + a" unfolding assms a_def [symmetric] by (simp add: wrap_def)
    then show ?thesis using d by simp
  next
    case False
    have "fin \<le> addr"
    proof (cases "addr < 2 ^ 64")
      case True
      have "fin = (addr + a - 2 ^ 64) mod 2 ^ 64" unfolding assms a_def [symmetric] using False by (simp add: wrap_def le_mod_geq)
      also have "\<dots> \<le> addr + a - 2 ^ 64" by (rule mod_less_eq_dividend)
      finally show ?thesis using lt by arith
    next
      case large: False
      have "fin < 2 ^ 64" using assms by (simp add: wrap_def)
      then show ?thesis using large by arith
    qed
    then show ?thesis by simp
  qed
qed

lemma heap_sbrk_effect:
  assumes "heap_sbrk v h sz = Some (got, v', h')"
  shows "h' = h\<lparr>hp_size := hp_size h + got, hp_end := hp_end h + got\<rparr> \<and> 4096 dvd got \<and>
    (got \<noteq> 0 \<longrightarrow> hp_size h + got \<le> unat KHEAP_SIZE)"
proof -
  define fin where "fin = wrap (hp_start h + hp_size h + align_size sz HEAP_SBRK_SIZE)"
  show ?thesis
  proof (cases "fin > hp_start h + unat KHEAP_SIZE")
    case True
    then show ?thesis using assms by (simp add: heap_sbrk_def Let_def fin_def)
  next
    case False
    then have l: "sbrk_loop v (hp_start h + hp_size h) fin 0 = Some (got, v')"
      and h': "h' = h\<lparr>hp_size := hp_size h + got, hp_end := hp_end h + got\<rparr>"
      using assms by (auto simp: heap_sbrk_def Let_def fin_def split: Option.bind_splits)
    show ?thesis using sbrk_loop_size [OF l sbrk_end [OF fin_def]] False h' by auto
  qed
qed

text \<open>The rear guard becomes a free chunk that reaches up to a new rear guard.\<close>

lemma layout_expand:
  assumes l: "layout h cs" and got: "4096 \<le> got" "4096 dvd got" "hp_size h + got \<le> unat KHEAP_SIZE"
    and o: "old = hp_end h - 32"
    and m: "chunks h' = (chunks h)(old := \<lparr>ck_prev = ck_prev (chunks h old), ck_next = old + got, ck_size = got - 32, ck_free = True\<rparr>,
        old + got := \<lparr>ck_prev = old, ck_next = 0, ck_size = 0, ck_free = False\<rparr>)"
    and h': "hp_start h' = hp_start h" "hp_end h' = hp_end h + got" "hp_size h' = hp_size h + got"
  shows "layout h' (cs @ [old])" "old \<notin> set cs" "old + got \<notin> set cs" "old \<noteq> 0"
proof -
  let ?f = "hp_start h"
  note F = layout_facts [OF l]
  have e: "32 \<le> hp_end h" using l by (simp add: layout_def)
  have s: "seg (chunks h) 0 (?f # cs) old" using l by (simp add: layout_def o)
  have on: "old \<notin> set (?f # cs)" using F(2) by (simp add: o)
  then show "old \<notin> set cs" by simp
  have nn: "old + got \<notin> set (?f # cs)" using seg_bounds [OF s, of "old + got"] by auto
  then show "old + got \<notin> set cs" by simp
  have "?f + 32 + ck_size (chunks h ?f) \<le> old" using seg_bounds [OF s, of ?f] by simp
  then show "old \<noteq> 0" by simp
  have d: "16 dvd got - 32" by (rule dvd_diff_nat) (use got(2) in \<open>auto elim: dvd_trans [rotated]\<close>)
  have 1: "seg (chunks h') 0 (?f # cs) old"
    using s on nn by (subst seg_frame [where m = "chunks h"]) (auto simp: m)
  have g: "chunks h old = \<lparr>ck_prev = last_or cs ?f, ck_next = 0, ck_size = 0, ck_free = False\<rparr>"
    using l by (simp add: layout_def o)
  have "hp_end h + got - 32 = old + got" using e o by simp
  moreover have "chunks h' ?f = chunks h ?f" using on nn by (auto simp: m)
  moreover have "16 \<le> ck_size (chunks h' c)" if "c \<in> set (cs @ [old])" for c
  proof (cases "c = old")
    case True
    then show ?thesis using got(1) by (simp add: m)
  next
    case False
    then have "c \<in> set cs" "c \<noteq> old + got" using that nn by auto
    then show ?thesis using False l by (simp add: m layout_def)
  qed
  ultimately show "layout h' (cs @ [old])"
    using 1 l got h' g d e unfolding layout_def by (simp add: m)
qed

lemma expand_freed:
  assumes b: "base_inv h cs fs" and got: "4096 \<le> got" "4096 dvd got" "hp_size h + got \<le> unat KHEAP_SIZE"
    and o: "old = hp_end h - 32"
    and m: "chunks g = (chunks h)(old := \<lparr>ck_prev = ck_prev (chunks h old), ck_next = old + got, ck_size = got - 32, ck_free = True\<rparr>,
        old + got := \<lparr>ck_prev = old, ck_next = 0, ck_size = 0, ck_free = False\<rparr>)"
    and g: "hp_start g = hp_start h" "hp_end g = hp_end h + got" "hp_size g = hp_size h + got" "free_list g fs"
  shows "freed h (insert_free_chunk g old) cs old [] (used h cs)"
proof -
  let ?h = "insert_free_chunk g old"
  have l: "layout h cs" and S: "set fs = {c \<in> set cs. ck_free (chunks h c)}" using b by (simp_all add: base_inv_def)
  have ch: "chunks ?h = chunks g" by (rule ext) (use got(1) in \<open>simp add: m\<close>)
  note L = layout_expand [OF l got o, of ?h, unfolded ch, OF m]
  have l': "layout ?h (cs @ [old])" and n: "old \<notin> set cs" "old + got \<notin> set cs" "old \<noteq> 0"
    by (rule L; simp add: g)+
  have same: "chunks ?h e = chunks h e" if "e \<in> set cs" for e
  proof -
    have "e \<noteq> old" "e \<noteq> old + got" using that n by auto
    then show ?thesis unfolding ch by (simp add: m)
  qed
  have fo: "ck_free (chunks ?h old)" by simp
  have "free_list ?h (old # fs)" using g(4) n S by (intro free_list_insert) auto
  moreover have "set (old # fs) = {c \<in> set (cs @ [old]). ck_free (chunks ?h c)}"
    using S same fo by (auto simp del: insert_free_sel)
  ultimately have "base_inv ?h (cs @ [old]) (old # fs)" using l' by (simp only: base_inv_def)
  moreover have "{c \<in> set (cs @ [old]). \<not> ck_free (chunks ?h c)} = {c \<in> set cs. \<not> ck_free (chunks h c)}"
    using same fo by (auto simp del: insert_free_sel)
  then have "used ?h (cs @ [old]) = used h cs"
    unfolding used_def using same by (intro image_cong) (auto simp del: insert_free_sel)
  ultimately show ?thesis
    unfolding freed_def append_Nil2 using same fo by (intro conjI ballI exI [of _ "old # fs"]) (assumption | simp only:)+
qed

lemma grown:
  assumes f: "freed h h' cs old [] u" and a: "apart (chunks h) cs"
    and e: "h2 = (if ck_free (chunks h' (ck_prev (chunks h' old))) then glue_chunk h' (ck_prev (chunks h' old)) False True else h')"
      "c = (if ck_free (chunks h' (ck_prev (chunks h' old))) then ck_prev (chunks h' old) else old)"
  shows "\<exists>cs' fs'. heap_inv h2 cs' fs' \<and> c \<in> set cs' \<and> ck_free (chunks h2 c) \<and>
    ck_size (chunks h' old) \<le> ck_size (chunks h2 c) \<and> used h2 cs' = u"
proof (cases "cs = [] \<or> \<not> ck_free (chunks h (last cs))")
  case True
  note l = freed_layout [OF f]
  have "ck_prev (chunks h' old) = last_or cs (hp_start h')" using layout_neighbours(1) [OF l] .
  moreover have "\<not> ck_free (chunks h' (hp_start h'))" using l by (simp add: layout_def)
  moreover have "cs = [] \<or> \<not> ck_free (chunks h' (last cs))" using True f by (auto simp: freed_def)
  ultimately have "h2 = h'" "c = old" using e by (cases cs rule: rev_cases; simp)+
  then show ?thesis using freed_inv [OF f a _ True] f by (auto simp: freed_def)
next
  case False
  then obtain xs p where cs: "cs = xs @ [p]" by (cases cs rule: rev_cases) auto
  obtain fs where b: "base_inv h' (xs @ p # [old]) fs" using f by (auto simp: freed_def cs)
  have l: "layout h' (xs @ p # [old])" using b by (simp add: base_inv_def)
  have fr: "ck_free (chunks h' p)" "ck_free (chunks h' old)" using f False by (simp_all add: freed_def cs)
  have pv: "ck_prev (chunks h' old) = p" using layout_neighbours(1) [of h' "xs @ [p]" old "[]"] l by simp
  have nx: "ck_next (chunks h' p) = old" using layout_neighbours(2) [OF l] by simp
  have eq: "h2 = glue_next h' p" "c = p" using e fr pv nx by (simp_all add: glue_chunk_def)
  note j = glue_next_joined [OF b fr]
  have "freed h' h' xs p [old] u" using f b fr by (auto simp: freed_def cs)
  from freed_next [OF this fr(2)] have f2: "freed h' h2 xs p [] u" by (simp add: eq)
  have fl: "\<And>e. e \<in> set cs \<Longrightarrow> ck_free (chunks h' e) = ck_free (chunks h e)" using f by (auto simp: freed_def)
  have "apart (chunks h') xs = apart (chunks h) xs" using fl by (intro successively_cong) (simp_all add: cs)
  moreover have "xs = [] \<or> \<not> ck_free (chunks h' (last xs))"
    using a fl False by (auto simp: cs successively_append_iff)
  ultimately obtain fs' where "heap_inv h2 (xs @ [p]) fs'"
    using freed_inv [OF f2] a by (auto simp: cs successively_append_iff)
  moreover have "ck_size (chunks h' old) \<le> ck_size (chunks h2 p)" using j by (simp add: joined_def eq)
  ultimately show ?thesis using f2 eq(2) unfolding freed_def by (intro exI [of _ "xs @ [p]"] exI [of _ fs']) simp
qed

lemma if_triple:
  "Some (if P then (a, b, d) else (a', b', d')) = Some (x, y, z) \<Longrightarrow> x = (if P then a else a') \<and> z = (if P then d else d')"
  by (simp split: if_splits)

lemma heap_expand_effect:
  assumes i: "heap_inv h cs fs" and ex: "heap_expand v h sz = Some (c, v', h')" "c \<noteq> 0" and sz: "sz + 32 < 2 ^ 64"
  shows "\<exists>cs' fs'. heap_inv h' cs' fs' \<and> c \<in> set cs' \<and> ck_free (chunks h' c) \<and> sz \<le> ck_size (chunks h' c) \<and>
    used h' cs' = used h cs"
proof -
  define old where "old = hp_end h - 32"
  have w: "wrap (sz + HEAP_HEADER_SIZE) = sz + 32" using sz by (simp add: wrap_def)
  obtain got v1 h1 where s: "heap_sbrk v h (sz + 32) = Some (got, v1, h1)"
    using ex(1) unfolding heap_expand_def Let_def w by (auto split: Option.bind_splits)
  have ge: "sz + 32 \<le> got" using ex s unfolding heap_expand_def Let_def w by (auto split: if_splits)
  note S = heap_sbrk_effect [OF s]
  have got: "4096 \<le> got" "4096 dvd got" "hp_size h + got \<le> unat KHEAP_SIZE" using S ge by (auto dest: dvd_imp_le)
  have b: "base_inv h cs fs" and a: "apart (chunks h) cs" using i by (simp_all add: heap_inv_base)
  have "32 \<le> hp_end h" using b by (simp add: base_inv_def layout_def)
  then have new: "hp_end h1 - 32 = old + got" using S by (simp add: old_def)
  have nsz: "hp_end h1 - (64 + old) = got - 32" using new got(1) by arith
  define g where "g = set_chunk (set_chunk (set_chunk h1 old (\<lambda>k. k\<lparr>ck_next := old + got\<rparr>)) old
      (\<lambda>k. k\<lparr>ck_size := got - 32, ck_free := True\<rparr>)) (old + got) (\<lambda>k. \<lparr>ck_prev = old, ck_next = 0, ck_size = 0, ck_free = False\<rparr>)"
  have "free_list g fs" using b S by (simp add: g_def base_inv_def free_list_def)
  then have f: "freed h (insert_free_chunk g old) cs old [] (used h cs)"
    by (intro expand_freed [OF b got old_def]) (use S in \<open>auto simp: g_def\<close>)
  define H where "H = insert_free_chunk g old"
  have e: "heap_expand v h sz = Some (if ck_free (chunks H (ck_prev (chunks H old)))
      then (ck_prev (chunks H old), v1, glue_chunk H (ck_prev (chunks H old)) False True) else (old, v1, H))"
    using s ge new unfolding heap_expand_def Let_def w
    by (simp add: chunk_size_def H_def g_def old_def [symmetric] nsz del: insert_free_sel)
  have "ck_size (chunks H old) = got - 32" using got(1) by (simp add: H_def g_def)
  then have sz2: "sz \<le> ck_size (chunks H old)" using ge by simp
  have "h' = (if ck_free (chunks H (ck_prev (chunks H old))) then glue_chunk H (ck_prev (chunks H old)) False True else H)"
    "c = (if ck_free (chunks H (ck_prev (chunks H old))) then ck_prev (chunks H old) else old)"
    using if_triple [OF ex(1) [unfolded e]] by (rule conjunct2, rule conjunct1)
  from grown [OF f [folded H_def] a this] obtain cs' fs' where "heap_inv h' cs' fs'" "c \<in> set cs'" "ck_free (chunks h' c)"
    "ck_size (chunks H old) \<le> ck_size (chunks h' c)" "used h' cs' = used h cs"
    by (elim exE conjE)
  then show ?thesis using sz2 le_trans by blast
qed

lemma find_free_chunk_effect:
  assumes i: "heap_inv h cs fs" and f: "find_free_chunk v h sz = Some (c, v', h')" "c \<noteq> 0" and sz: "sz + 32 < 2 ^ 64"
  shows "\<exists>cs' fs'. heap_inv h' cs' fs' \<and> c \<in> set cs' \<and> ck_free (chunks h' c) \<and> sz \<le> ck_size (chunks h' c) \<and>
    used h' cs' = used h cs"
proof (cases "filter (\<lambda>c. sz \<le> ck_size (chunks h c)) fs")
  case Nil
  then have "heap_expand v h sz = Some (c, v', h')" using f find_free_loop_inv [OF i] by (simp add: find_free_chunk_def)
  then show ?thesis using heap_expand_effect [OF i] f(2) sz by blast
next
  case (Cons d ds)
  then have d: "d \<in> set fs" "sz \<le> ck_size (chunks h d)" by (metis filter_eq_ConsD in_set_conv_decomp)+
  then have d': "d \<in> set cs" "ck_free (chunks h d)" "layout h cs" using i by (auto simp: heap_inv_def)
  then have "d \<noteq> 0" using layout_facts(3) by metis
  then have "c = d" "h' = h" using f find_free_loop_inv [OF i, of sz] Cons by (auto simp: find_free_chunk_def)
  then show ?thesis using i d d' by blast
qed

lemma align_size_16:
  assumes "0 < sz" "sz + 15 < 2 ^ 64"
  shows "sz \<le> align_size sz HEAP_DATA_ALIGN \<and> 16 \<le> align_size sz HEAP_DATA_ALIGN \<and> 16 dvd align_size sz HEAP_DATA_ALIGN \<and>
    align_size sz HEAP_DATA_ALIGN \<le> sz + 15"
proof -
  have "wrap (sz + 15) = sz + 15" using assms(2) by (simp add: wrap_def)
  then have e: "align_size sz HEAP_DATA_ALIGN = (sz + 15) div 16 * 16" using assms(1) by (simp add: align_size_def add.commute)
  then show ?thesis using assms(1) by simp arith
qed

lemma take_chunk:
  assumes i: "heap_inv h cs fs" and c: "c \<in> set cs" "ck_free (chunks h c)" "sz \<le> ck_size (chunks h c)"
    and sz: "16 \<le> sz" "16 dvd sz" "sz + 48 < 2 ^ 64"
  shows "\<exists>g. split_chunk h c sz = Some g \<and> taken h cs c sz (remove_free_chunk g c)"
proof (cases "sz + 48 \<le> ck_size (chunks h c)")
  case True
  then have "split_chunk h c sz = Some (cut_chunk h c sz)" using sz by (simp add: split_chunk_def wrap_def)
  then show ?thesis using take_split [OF i c(1,2) sz(1,2) True] by simp
next
  case False
  then have "split_chunk h c sz = Some h" using sz(3) by (simp add: split_chunk_def wrap_def)
  then show ?thesis using take_whole [OF i c] by simp
qed

lemma kmalloc_effect:
  assumes i: "heap_inv h cs fs" and k: "kmalloc v h sz = Some (p, v', h')" "p \<noteq> 0" and sz: "sz + 64 < 2 ^ 64"
  obtains c h1 cs1 fs1 where "heap_inv h1 cs1 fs1" "used h1 cs1 = used h cs" "c \<in> set cs1" "ck_free (chunks h1 c)" "p = c + 32"
    "taken h1 cs1 c (align_size sz HEAP_DATA_ALIGN) h'"
proof -
  define s where "s = align_size sz HEAP_DATA_ALIGN"
  have ne: "hp_size h \<noteq> 0" using i by (simp add: heap_inv_def layout_def)
  have z: "0 < sz"
  proof (rule ccontr)
    assume "\<not> 0 < sz"
    then show False using k by (simp add: kmalloc_def kmalloc_int_def)
  qed
  then have A: "16 \<le> s" "16 dvd s" "s + 48 < 2 ^ 64" using align_size_16 [OF z] sz unfolding s_def by auto
  obtain c h1 where f: "find_free_chunk v h s = Some (c, v', h1)" "c \<noteq> 0" "p = c + 32"
    and h': "\<exists>g. split_chunk h1 c s = Some g \<and> h' = remove_free_chunk g c"
    using k(2) k(1) [unfolded kmalloc_def kmalloc_int_def Let_def s_def [symmetric]] z ne
    by (auto split: Option.bind_splits if_splits)
  have lt: "s + 32 < 2 ^ 64" using A(3) by simp
  obtain cs1 fs1 where "heap_inv h1 cs1 fs1" "c \<in> set cs1" "ck_free (chunks h1 c)" "s \<le> ck_size (chunks h1 c)" "used h1 cs1 = used h cs"
    using find_free_chunk_effect [OF i f(1,2) lt] by (elim exE conjE)
  moreover from this(1-4) have "taken h1 cs1 c s h'" using h' take_chunk [OF _ _ _ _ A] by fastforce
  ultimately show thesis using that f(3) unfolding s_def by blast
qed

section \<open>Initialisation\<close>

lemma heap_init_inv:
  assumes "heap_init v h = Some (v', h')" and "heap_get_size h' \<noteq> 0"
  shows "heap_inv h' [unat KHEAP + 32] [unat KHEAP + 32] \<and> used h' [unat KHEAP + 32] = {}"
proof -
  define h0 where "h0 = h\<lparr>hp_first := 0, hp_free := 0, hp_start := unat KHEAP, hp_end := unat KHEAP, hp_size := 0\<rparr>"
  obtain got h1 where s: "heap_sbrk v h0 1 = Some (got, v', h1)"
    using assms(1) by (auto simp: heap_init_def Let_def h0_def split: Option.bind_splits)
  note S = heap_sbrk_effect [OF s]
  have "hp_size h0 = 0" by (simp add: h0_def)
  then have g: "hp_size h' = got"
    using assms(1) s S by (auto simp: heap_init_def Let_def h0_def [symmetric])
  then have got: "4096 \<le> got" "4096 dvd got" "got \<le> unat KHEAP_SIZE"
    using S assms(2) by (auto simp: heap_get_size_def h0_def dest: dvd_imp_le)
  let ?f = "unat KHEAP"
  let ?m = "?f + 32" and ?l = "?f + got - 32"
  have K: "0 < ?f" "16 dvd ?f" "?f + unat KHEAP_SIZE < 2 ^ 64" by (simp_all add: KHEAP_def KHEAP_SIZE_def)
  have ne: "?f \<noteq> ?m" "?m \<noteq> ?l" "?f \<noteq> ?l" using got(1) by simp_all
  have h1: "hp_start h1 = ?f" "hp_end h1 = ?f + got" "hp_size h1 = got" "hp_free h1 = 0" using S by (simp_all add: h0_def)
  have ch: "chunks h' ?f = \<lparr>ck_prev = 0, ck_next = ?m, ck_size = 0, ck_free = False\<rparr>"
    "chunks h' ?l = \<lparr>ck_prev = ?m, ck_next = 0, ck_size = 0, ck_free = False\<rparr>"
    "chunks h' ?m = \<lparr>ck_prev = ?f, ck_next = ?l, ck_size = got - 96, ck_free = True\<rparr>"
    and sel: "hp_start h' = ?f" "hp_end h' = ?f + got" "hp_free h' = ?m" "lk_prev (flinks h' ?m) = 0" "lk_next (flinks h' ?m) = 0"
    using assms(1) s ne h1 got(1)
    by (auto simp: heap_init_def h0_def [symmetric] chunk_size_def insert_free_chunk_def Let_def)
  have "16 dvd got - 96" by (rule dvd_diff_nat) (use got(2) in \<open>auto elim: dvd_trans [rotated]\<close>)
  then have "layout h' [?m]" using got ch sel g K by (simp add: layout_def)
  moreover have "free_list h' [?m]" using sel by (simp add: free_list_def)
  ultimately show ?thesis using ch by (auto simp: heap_inv_def used_def)
qed

section \<open>Properties\<close>

lemma seg_aligned: "seg m p cs n \<Longrightarrow> 16 dvd hd_or cs n \<Longrightarrow> c \<in> set cs \<Longrightarrow> 16 dvd c"
proof (induction cs arbitrary: p)
  case (Cons d cs)
  then have "hd_or cs n = d + 32 + ck_size (m d)" "16 dvd ck_size (m d)" "16 dvd d" by auto
  then have "16 dvd hd_or cs n" by (simp add: dvd_add)
  then show ?case using Cons by auto
qed simp

lemma used_iff: "(c, s) \<in> used h cs \<longleftrightarrow> c \<in> set cs \<and> \<not> ck_free (chunks h c) \<and> s = ck_size (chunks h c)"
  by (auto simp: used_def)

text \<open>A heap with one page and one free chunk.\<close>

definition heap0 :: heap_t where
  "heap0 = \<lparr>hp_first = 4096, hp_free = 4128, hp_start = 4096, hp_size = 4096, hp_end = 8192,
    chunks = (\<lambda>c. if c = 4096 then \<lparr>ck_prev = 0, ck_next = 4128, ck_size = 0, ck_free = False\<rparr>
      else if c = 4128 then \<lparr>ck_prev = 4096, ck_next = 8160, ck_size = 4000, ck_free = True\<rparr>
      else \<lparr>ck_prev = 4128, ck_next = 0, ck_size = 0, ck_free = False\<rparr>),
    flinks = (\<lambda>_. \<lparr>lk_prev = 0, lk_next = 0\<rparr>)\<rparr>"

lemma heap0_inv: "heap_inv heap0 [4128] [4128]"
  by (auto simp: heap_inv_def layout_def free_list_def heap0_def KHEAP_SIZE_def)

lemma kmalloc_first_fit_eq:
  assumes i: "heap_inv h cs fs" and sz: "0 < sz" and f: "filter (\<lambda>c. align_size sz 16 \<le> ck_size (chunks h c)) fs = c # ds"
  shows "kmalloc v h sz = map_option (\<lambda>g. (c + 32, v, remove_free_chunk g c)) (split_chunk h c (align_size sz 16))"
proof -
  have "c \<in> set fs" using f by (metis filter_eq_ConsD in_set_conv_decomp)
  then have "c \<in> set cs" "layout h cs" using i by (auto simp: heap_inv_def)
  then have "c \<noteq> 0" "hp_size h \<noteq> 0" using layout_facts(3) by (metis, simp add: layout_def)
  then show ?thesis
    using sz f find_free_loop_inv [OF i, of "align_size sz 16"]
    by (simp add: kmalloc_def kmalloc_int_def find_free_chunk_def map_conv_bind_option o_def)
qed

lemma kmalloc_heap0: "kmalloc v heap0 100 = Some (4160, v, remove_free_chunk (cut_chunk heap0 4128 112) 4128)"
proof -
  have "align_size 100 16 = 112" by (simp add: align_size_def wrap_def)
  moreover have "split_chunk heap0 4128 112 = Some (cut_chunk heap0 4128 112)"
    by (simp add: split_chunk_def wrap_def heap0_def)
  ultimately show ?thesis
    using kmalloc_first_fit_eq [OF heap0_inv, of 100 4128 "[]" v] by (simp add: heap0_def)
qed

text \<open>C6. An allocation that succeeds gives a block of at least the requested size, aligned to 16 bytes,
  that overlaps no block in use, header included, and the heap is well formed afterwards: its blocks in
  use are the old ones and the new one.  This holds when the block comes from a free chunk, whole or
  split, and when the heap had to grow first.\<close>

theorem kmalloc_correct:
  assumes "heap_inv h cs fs" and "kmalloc v h sz = Some (p, v', h')" and "p \<noteq> 0" and "sz + 64 < 2 ^ 64"
  shows "\<exists>s cs' fs'. sz \<le> s \<and> 16 dvd p \<and> heap_inv h' cs' fs' \<and> used h' cs' = insert (p - 32, s) (used h cs) \<and>
    (\<forall>(c, t) \<in> used h cs. c + 32 + t \<le> p - 32 \<or> p + s \<le> c)"
proof -
  obtain c h1 cs1 fs1 where h1: "heap_inv h1 cs1 fs1" "used h1 cs1 = used h cs" "c \<in> set cs1" "ck_free (chunks h1 c)" and p: "p = c + 32"
    and t: "taken h1 cs1 c (align_size sz HEAP_DATA_ALIGN) h'"
    using kmalloc_effect [OF assms] by metis
  then obtain cs' fs' where h': "heap_inv h' cs' fs'" "c \<in> set cs'" "align_size sz HEAP_DATA_ALIGN \<le> ck_size (chunks h' c)"
    and u: "used h' cs' = insert (c, ck_size (chunks h' c)) (used h cs)"
    by (auto simp: taken_def)
  have "0 < sz" using assms(2,3) by (cases sz) (simp_all add: kmalloc_def kmalloc_int_def)
  then have sz: "sz \<le> ck_size (chunks h' c)" using align_size_16 [of sz] assms(4) h'(3) by (simp add: le_trans)
  have s: "seg (chunks h') 0 (hp_start h' # cs') (hp_end h' - 32)" "16 dvd hp_start h'" using h'(1) by (simp_all add: heap_inv_def layout_def)
  have "16 dvd c" using seg_aligned [OF s(1)] s(2) h'(2) by simp
  then have al: "16 dvd p" by (simp add: p)
  have "d + 32 + t \<le> c \<or> p + ck_size (chunks h' c) \<le> d" if "(d, t) \<in> used h cs" for d t
  proof -
    have "(d, t) \<in> used h' cs'" "(d, t) \<in> used h1 cs1" using that u h1(2) by simp_all
    moreover from this(2) have "d \<noteq> c" using h1(4) by (auto simp: used_iff)
    ultimately show ?thesis
      using seg_disjoint [OF s(1), of d c] seg_disjoint [OF s(1), of c d] h'(2) by (auto simp: used_iff p neq_iff)
  qed
  then show ?thesis using sz al h'(1) u p by (intro exI [of _ "ck_size (chunks h' c)"] exI [of _ cs'] exI [of _ fs']) auto
qed

theorem kmalloc_correct_witness:
  "\<exists>s cs' fs'. 100 \<le> s \<and> 16 dvd (4160 :: nat) \<and> heap_inv (remove_free_chunk (cut_chunk heap0 4128 112) 4128) cs' fs' \<and>
    used (remove_free_chunk (cut_chunk heap0 4128 112) 4128) cs' = insert (4160 - 32, s) (used heap0 [4128]) \<and>
    (\<forall>(c, t) \<in> used heap0 [4128]. c + 32 + t \<le> 4160 - 32 \<or> 4160 + s \<le> c)"
  by (rule kmalloc_correct [OF heap0_inv kmalloc_heap0]) simp_all

text \<open>C7. Releasing a block in use takes exactly that block out of use, joins it with the free chunks
  before and after it, and leaves the heap well formed: no two neighbouring chunks are free.\<close>

theorem kfree_correct:
  assumes "heap_inv h cs fs" and "(c, s) \<in> used h cs"
  shows "\<exists>cs' fs'. heap_inv (kfree h (c + 32)) cs' fs' \<and> used (kfree h (c + 32)) cs' = used h cs - {(c, s)}"
  using kfree_effect [OF assms(1), of c] assms(2) by (simp add: used_iff)

text \<open>A heap whose chunk is in use.\<close>

definition heap1 :: heap_t where
  "heap1 = remove_free_chunk heap0 4128"

lemma heap1_inv: "heap_inv heap1 [4128] []"
  by (auto simp: heap_inv_def layout_def free_list_def heap1_def heap0_def remove_free_chunk_def set_chunk_def Let_def KHEAP_SIZE_def)

theorem kfree_correct_witness:
  "(4128, 4000) \<in> used heap1 [4128] \<and>
    (\<exists>cs' fs'. heap_inv (kfree heap1 (4128 + 32)) cs' fs' \<and> used (kfree heap1 (4128 + 32)) cs' = used heap1 [4128] - {(4128, 4000)})"
proof -
  have u: "(4128, 4000) \<in> used heap1 [4128]" by (simp add: used_iff heap1_def heap0_def)
  show ?thesis using kfree_correct [OF heap1_inv u] u by blast
qed

text \<open>C38. The search of the free list ends on a well-formed heap, with the first chunk that is large
  enough or with NULL.  When there is such a chunk, \<open>kmalloc\<close> returns the block in it without growing
  the heap, for every size up to 64 bytes below the end of the address space.\<close>

theorem find_free_first_fit:
  assumes "heap_inv h cs fs" and "0 < sz" and "sz + 64 < 2 ^ 64"
  shows "find_free_loop h (align_size sz 16) (hp_free h) = Some (hd_or (filter (\<lambda>c. align_size sz 16 \<le> ck_size (chunks h c)) fs) 0) \<and>
    (\<forall>c ds. filter (\<lambda>c. align_size sz 16 \<le> ck_size (chunks h c)) fs = c # ds \<longrightarrow>
      (\<exists>g. split_chunk h c (align_size sz 16) = Some g \<and> kmalloc v h sz = Some (c + 32, v, remove_free_chunk g c)))"
proof (intro conjI allI impI)
  show "find_free_loop h (align_size sz 16) (hp_free h) = Some (hd_or (filter (\<lambda>c. align_size sz 16 \<le> ck_size (chunks h c)) fs) 0)"
    by (rule find_free_loop_inv [OF assms(1)])
  fix c ds assume f: "filter (\<lambda>c. align_size sz 16 \<le> ck_size (chunks h c)) fs = c # ds"
  have "c \<in> set (filter (\<lambda>c. align_size sz 16 \<le> ck_size (chunks h c)) fs)" unfolding f by simp
  then have c: "c \<in> set cs" "ck_free (chunks h c)" "align_size sz 16 \<le> ck_size (chunks h c)"
    using assms(1) by (auto simp: heap_inv_def)
  have A: "16 \<le> align_size sz 16" "16 dvd align_size sz 16" "align_size sz 16 + 48 < 2 ^ 64"
    using align_size_16 [OF assms(2)] assms(3) by auto
  show "\<exists>g. split_chunk h c (align_size sz 16) = Some g \<and> kmalloc v h sz = Some (c + 32, v, remove_free_chunk g c)"
    using take_chunk [OF assms(1) c A] kmalloc_first_fit_eq [OF assms(1,2) f] by auto
qed

theorem find_free_first_fit_witness:
  "find_free_loop heap0 112 4128 = Some 4128 \<and>
    kmalloc vmm0 heap0 100 = Some (4160, vmm0, remove_free_chunk (cut_chunk heap0 4128 112) 4128)"
proof -
  have "align_size 100 16 = 112" by (simp add: align_size_def wrap_def)
  then show ?thesis using find_free_first_fit [OF heap0_inv, of 100 vmm0]
    by (auto simp: heap0_def split_chunk_def wrap_def)
qed

text \<open>C39. The rounding of a size wraps around: for each of the 15 largest sizes the rounded size is 0, so
  \<open>kmalloc\<close> does not refuse the request but takes the first chunk of the free list; when this chunk is too
  small to be split, the caller gets a block of 16 or 32 bytes.\<close>

theorem kmalloc_huge_size_wraps:
  assumes "heap_inv h cs (c # fs)" and "ck_size (chunks h c) < 48" and "2 ^ 64 - 16 < sz" and "sz < 2 ^ 64"
  shows "kmalloc v h sz = Some (c + 32, v, remove_free_chunk h c) \<and>
    ck_size (chunks (remove_free_chunk h c) c) \<in> {16, 32}"
proof
  have "wrap (sz + 16 - 1) = sz + 15 - 2 ^ 64" using assms(3,4) by (simp add: wrap_def le_mod_geq)
  then have z: "align_size sz 16 = 0" using assms(4) by (simp add: align_size_def)
  have "split_chunk h c 0 = Some h" using assms(2) by (simp add: split_chunk_def wrap_def)
  then show "kmalloc v h sz = Some (c + 32, v, remove_free_chunk h c)"
    using kmalloc_first_fit_eq [OF assms(1), of sz c fs v] assms(3) by (simp add: z)
  have "c \<in> set cs" and l: "layout h cs" using assms(1) by (auto simp: heap_inv_def)
  then obtain xs ys where cs: "cs = xs @ c # ys" by (meson split_list)
  have "16 dvd ck_size (chunks h c)" "16 \<le> ck_size (chunks h c)" using l by (auto simp: cs layout_def)
  then obtain k where "ck_size (chunks h c) = 16 * k" "1 \<le> k" "k < 3" using assms(2) by (auto elim!: dvdE)
  then have "ck_size (chunks h c) \<in> {16, 32}" by (auto simp: less_Suc_eq numeral_3_eq_3)
  then show "ck_size (chunks (remove_free_chunk h c) c) \<in> {16, 32}" by simp
qed

text \<open>A heap with a free chunk of 32 bytes before a chunk in use.\<close>

definition heap2 :: heap_t where
  "heap2 = \<lparr>hp_first = 4096, hp_free = 4128, hp_start = 4096, hp_size = 4096, hp_end = 8192,
    chunks = (\<lambda>c. if c = 4096 then \<lparr>ck_prev = 0, ck_next = 4128, ck_size = 0, ck_free = False\<rparr>
      else if c = 4128 then \<lparr>ck_prev = 4096, ck_next = 4192, ck_size = 32, ck_free = True\<rparr>
      else if c = 4192 then \<lparr>ck_prev = 4128, ck_next = 8160, ck_size = 3936, ck_free = False\<rparr>
      else \<lparr>ck_prev = 4192, ck_next = 0, ck_size = 0, ck_free = False\<rparr>),
    flinks = (\<lambda>_. \<lparr>lk_prev = 0, lk_next = 0\<rparr>)\<rparr>"

lemma heap2_inv: "heap_inv heap2 [4128, 4192] [4128]"
  by (auto simp: heap_inv_def layout_def free_list_def heap2_def KHEAP_SIZE_def)

theorem kmalloc_huge_size_wraps_witness:
  "kmalloc vmm0 heap2 (2 ^ 64 - 1) = Some (4160, vmm0, remove_free_chunk heap2 4128) \<and>
    ck_size (chunks (remove_free_chunk heap2 4128) 4128) = 32"
proof -
  have "ck_size (chunks heap2 4128) = 32" by (simp add: heap2_def)
  then show ?thesis using kmalloc_huge_size_wraps [OF heap2_inv, of "2 ^ 64 - 1" vmm0] by simp
qed

end
