(* ===== verification/HeapPages.thy ===== *)
theory HeapPages
  imports HeapInv
begin

text \<open>
  The heap of \<open>Heap\<close> over the page tables of \<open>Vmm\<close>: growing the heap maps exactly the new pages, so that the heap
  between its start and its end is always backed by pages, and no operation of the heap faults in the page tables.
\<close>

section \<open>The heap and its pages\<close>

text \<open>The addresses of the heap area.\<close>

definition heap_area :: "nat \<Rightarrow> bool" where
  "heap_area a \<longleftrightarrow> unat KHEAP \<le> a \<and> a < unat KHEAP + unat KHEAP_SIZE"

lemma unat_heap_area: "heap_area a \<Longrightarrow> unat (of_nat a :: u64) = a"
  by (simp add: heap_area_def KHEAP_def KHEAP_SIZE_def unat_of_nat)

lemma heap_area_div: "heap_area a \<Longrightarrow> a div 2 ^ 48 = 0xFFFF"
  by (rule div_nat_eqI) (simp_all add: heap_area_def KHEAP_def KHEAP_SIZE_def)

lemma heap_area_index: "heap_area a \<Longrightarrow> 448 \<le> index_at (of_nat a) 39 \<and> index_at (of_nat a) 39 < 480"
proof -
  assume h: "heap_area a"
  then have "0x1FFFFC0 \<le> a div 2 ^ 39"
    by (subst less_eq_div_iff_mult_less_eq) (simp_all add: heap_area_def KHEAP_def KHEAP_SIZE_def)
  then obtain j where j: "a div 2 ^ 39 = 0x1FFFFC0 + j" by (metis le_iff_add)
  have "a div 2 ^ 39 < 0x1FFFFE0"
    using h by (intro less_mult_imp_div_less) (simp add: heap_area_def KHEAP_def KHEAP_SIZE_def)
  then have "j < 32" using j by simp
  moreover have "a div 2 ^ 39 = 448 + j + 512 * 65535" using j by simp
  ultimately have "448 \<le> a div 2 ^ 39 mod 512 \<and> a div 2 ^ 39 mod 512 < 480" by (simp only: mod_mult_self2) simp
  then show ?thesis using h by (simp add: index_at_nat unat_heap_area)
qed

lemma div_512_cong: "x div 512 = y div 512 \<Longrightarrow> x mod 512 = y mod 512 \<Longrightarrow> x = (y :: nat)"
  by (metis div_mult_mod_eq)

lemma heap_same_page:
  assumes a: "heap_area a" "heap_area b"
  shows "same_page (of_nat a) (of_nat b) \<longleftrightarrow> a div 4096 = b div 4096"
proof
  assume s: "same_page (of_nat a) (of_nat b)"
  have d: "x div 2 ^ 12 div 512 = x div 2 ^ 21" "x div 2 ^ 21 div 512 = x div 2 ^ 30"
    "x div 2 ^ 30 div 512 = x div 2 ^ 39" "x div 2 ^ 39 div 512 = x div 2 ^ 48" for x :: nat
    by (simp_all add: div_mult2_eq [symmetric])
  have e: "a div 2 ^ 12 mod 512 = b div 2 ^ 12 mod 512" "a div 2 ^ 21 mod 512 = b div 2 ^ 21 mod 512"
    "a div 2 ^ 30 mod 512 = b div 2 ^ 30 mod 512" "a div 2 ^ 39 mod 512 = b div 2 ^ 39 mod 512"
    using s unfolding same_page_def index_at_nat unat_heap_area [OF a(1)] unat_heap_area [OF a(2)] by simp_all
  have 39: "a div 2 ^ 39 = b div 2 ^ 39"
    by (rule div_512_cong) (use e heap_area_div a in \<open>simp_all only: d\<close>)
  have 30: "a div 2 ^ 30 = b div 2 ^ 30" by (rule div_512_cong) (use e 39 in \<open>simp_all only: d\<close>)
  have 21: "a div 2 ^ 21 = b div 2 ^ 21" by (rule div_512_cong) (use e 30 in \<open>simp_all only: d\<close>)
  have "a div 2 ^ 12 = b div 2 ^ 12" by (rule div_512_cong) (use e 21 in \<open>simp_all only: d\<close>)
  then show "a div 4096 = b div 4096" by simp
next
  assume e: "a div 4096 = b div 4096"
  have d: "x div 2 ^ 21 = x div 4096 div 2 ^ 9" "x div 2 ^ 30 = x div 4096 div 2 ^ 18" "x div 2 ^ 39 = x div 4096 div 2 ^ 27"
    "x div 2 ^ 12 = x div 4096" for x :: nat
    by (simp_all add: div_mult2_eq [symmetric])
  show "same_page (of_nat a) (of_nat b)"
    unfolding same_page_def index_at_nat unat_heap_area [OF a(1)] unat_heap_area [OF a(2)] by (simp only: d e)
qed

definition heap_small :: "vmm \<Rightarrow> bool" where
  "heap_small v \<longleftrightarrow> (\<forall>a. heap_area a \<longrightarrow> small_pages v (of_nat a))"

definition backed :: "vmm \<Rightarrow> nat \<Rightarrow> nat \<Rightarrow> bool" where
  "backed v lo hi \<longleftrightarrow> (\<forall>a. lo \<le> a \<and> a < hi \<longrightarrow> mmu_frame v (of_nat a) \<noteq> None)"

text \<open>The translations outside the pages from \<open>lo\<close> up to \<open>hi\<close> are the same.\<close>

definition same_outside :: "vmm \<Rightarrow> vmm \<Rightarrow> nat \<Rightarrow> nat \<Rightarrow> bool" where
  "same_outside v v' lo hi \<longleftrightarrow>
    (\<forall>x. index_at x 39 \<noteq> 510 \<and> \<not> (448 \<le> index_at x 39 \<and> index_at x 39 < 480) \<longrightarrow> mmu_frame v' x = mmu_frame v x) \<and>
    (\<forall>a. heap_area a \<and> (a < lo \<or> hi \<le> a) \<longrightarrow> mmu_frame v' (of_nat a) = mmu_frame v (of_nat a))"

lemma alloc_heap_page:
  assumes wf: "vmm_wf v" and h: "heap_area addr" "4096 dvd addr" and s: "heap_small v"
  obtains st v' where "vmm_alloc_page v (of_nat addr) = Some (st, v')" "vmm_wf v'" "heap_small v'"
    "st = 0 \<longrightarrow> backed v' addr (addr + 4096) \<and> same_outside v v' addr (addr + 4096)"
    "st \<noteq> 0 \<longrightarrow> same_outside v v' addr addr"
    "mmu_frame v (of_nat addr) = None \<and> 4 \<le> avail (frames v) \<longrightarrow> st = 0"
proof -
  have i: "index_at (of_nat addr) 39 \<noteq> 510" using heap_area_index [OF h(1)] by simp
  have sm: "small_pages v (of_nat addr)" using s h(1) by (simp add: heap_small_def)
  obtain st v' where r: "vmm_alloc_page v (of_nat addr) = Some (st, v')" and w: "vmm_wf v'"
    and o': "\<forall>x. index_at x 39 \<noteq> 510 \<and> \<not> same_page (of_nat addr) x \<longrightarrow> mmu_frame v' x = mmu_frame v x"
    and z': "st = 0 \<longrightarrow> mmu_frame v (of_nat addr) = None \<and> (\<exists>f. mmu_frame v' (of_nat addr) = Some f \<and>
      node v' (index_at (of_nat addr) 12 # page_path (of_nat addr)) = Some f \<and> page_free (frames v) (unat f) \<and> unat f < 2 ^ 32)"
    and nz': "st \<noteq> 0 \<longrightarrow> (st = -1 \<or> st = - ENOMEM) \<and> mmu_frame v' (of_nat addr) = mmu_frame v (of_nat addr)"
    and ok: "mmu_frame v (of_nat addr) = None \<and> 4 \<le> avail (frames v) \<longrightarrow> st = 0"
    and s': "\<forall>x. small_pages v x \<longrightarrow> small_pages v' x"
    using vmm_alloc_page_effect [OF wf i sm] by (elim exE conjE) (rule that)
  note o = o' [rule_format, OF conjI]
  have z: "mmu_frame v' (of_nat addr) \<noteq> None" if "st = 0" using z' that by blast
  have nz: "mmu_frame v' (of_nat addr) = mmu_frame v (of_nat addr)" if "st \<noteq> 0" using nz' that by blast
  have out: "mmu_frame v' x = mmu_frame v x" if "index_at x 39 \<noteq> 510 \<and> \<not> (448 \<le> index_at x 39 \<and> index_at x 39 < 480)" for x
    using o [of x] that heap_area_index [OF h(1)] by (auto simp: same_page_def)
  have pg: "a div 4096 = addr div 4096 \<longleftrightarrow> addr \<le> a \<and> a < addr + 4096" for a
    using h(2) by (auto elim!: dvdE)
  have other: "mmu_frame v' (of_nat a) = mmu_frame v (of_nat a)" if "heap_area a" "\<not> (addr \<le> a \<and> a < addr + 4096)" for a
  proof (rule o)
    show "index_at (of_nat a) 39 \<noteq> 510" using heap_area_index [OF that(1)] by simp
    show "\<not> same_page (of_nat addr) (of_nat a)" using that heap_same_page [OF h(1) that(1)] pg [of a] by metis
  qed
  have same: "mmu_frame u (of_nat a) = mmu_frame u (of_nat addr)" if "addr \<le> a" "a < addr + 4096" for a u
  proof -
    have "addr + 4096 \<le> unat KHEAP + unat KHEAP_SIZE"
      using h by (auto simp: heap_area_def KHEAP_def KHEAP_SIZE_def elim!: dvdE)
    then have "heap_area a" using that h(1) by (simp add: heap_area_def)
    then have "same_page (of_nat addr) (of_nat a)" using heap_same_page [OF h(1)] that pg [of a] by simp
    from mmu_same_page [OF this, of u] show ?thesis by simp
  qed
  have 1: "backed v' addr (addr + 4096) \<and> same_outside v v' addr (addr + 4096)" if "st = 0"
  proof
    show "backed v' addr (addr + 4096)" unfolding backed_def using z [OF that] same [of _ v'] by presburger
    show "same_outside v v' addr (addr + 4096)" unfolding same_outside_def using out other by (meson not_le)
  qed
  have 2: "same_outside v v' addr addr" if "st \<noteq> 0"
    unfolding same_outside_def
  proof (intro conjI allI impI)
    fix a assume "heap_area a \<and> (a < addr \<or> addr \<le> a)"
    then show "mmu_frame v' (of_nat a) = mmu_frame v (of_nat a)"
      using nz [OF that] same [of a v] same [of a v'] other [of a] by (cases "addr \<le> a \<and> a < addr + 4096") simp_all
  qed (rule out)
  have "heap_small v'" using s s' by (simp add: heap_small_def)
  then show thesis using that [OF r w] 1 2 ok by blast
qed

lemma same_outside_trans:
  assumes "same_outside v v1 lo mid" "same_outside v1 v2 mid hi" "lo \<le> mid" "mid \<le> hi"
  shows "same_outside v v2 lo hi"
  unfolding same_outside_def
proof (intro conjI allI impI)
  fix a assume "heap_area a \<and> (a < lo \<or> hi \<le> a)"
  then have "heap_area a \<and> (a < lo \<or> mid \<le> a)" "heap_area a \<and> (a < mid \<or> hi \<le> a)" using assms(3,4) by auto
  then show "mmu_frame v2 (of_nat a) = mmu_frame v (of_nat a)" using assms(1,2) unfolding same_outside_def by metis
next
  fix x assume "index_at x 39 \<noteq> 510 \<and> \<not> (448 \<le> index_at x 39 \<and> index_at x 39 < 480)"
  then show "mmu_frame v2 x = mmu_frame v x" using assms(1,2) unfolding same_outside_def by metis
qed

lemma same_outside_refl: "same_outside v v lo hi"
  by (simp add: same_outside_def)

lemma backed_outside:
  assumes "backed v lo mid" "same_outside v v' mid hi" "unat KHEAP \<le> lo" "mid \<le> unat KHEAP + unat KHEAP_SIZE"
  shows "backed v' lo mid"
  unfolding backed_def
proof (intro allI impI)
  fix a assume a: "lo \<le> a \<and> a < mid"
  then have "heap_area a" using assms(3,4) by (simp add: heap_area_def)
  then show "mmu_frame v' (of_nat a) \<noteq> None" using a assms(1,2) by (simp add: backed_def same_outside_def)
qed

lemma backed_empty [simp]: "backed v a a"
  by (auto simp: backed_def)

lemma backed_append: "backed v lo mid \<Longrightarrow> backed v mid hi \<Longrightarrow> backed v lo hi"
  unfolding backed_def by (meson not_le)

lemma sbrk_loop_maps:
  assumes "vmm_wf v" "heap_small v" "4096 dvd addr" "4096 dvd fin" "unat KHEAP \<le> addr" "fin \<le> unat KHEAP + unat KHEAP_SIZE"
  shows "\<exists>got v'. sbrk_loop v addr fin sz = Some (sz + got, v') \<and> vmm_wf v' \<and> heap_small v' \<and> backed v' addr (addr + got) \<and>
    same_outside v v' addr (addr + got) \<and> addr + got \<le> max addr fin \<and>
    (addr < fin \<and> mmu_frame v (of_nat addr) = None \<and> 4 \<le> avail (frames v) \<longrightarrow> got \<noteq> 0)"
  using assms
proof (induction v addr fin sz rule: sbrk_loop.induct)
  case (1 v addr fin sz)
  show ?case
  proof (cases "addr < fin")
    case False
    then show ?thesis
      using "1.prems" same_outside_refl by (intro exI [of _ 0] exI [of _ v]) (simp add: sbrk_loop.simps [of v])
  next
    case True
    have h: "heap_area addr" using True "1.prems"(5,6) by (simp add: heap_area_def)
    obtain st v1 where r: "vmm_alloc_page v (of_nat addr) = Some (st, v1)" "vmm_wf v1" "heap_small v1"
      and z: "st = 0 \<longrightarrow> backed v1 addr (addr + 4096) \<and> same_outside v v1 addr (addr + 4096)"
      and nz: "st \<noteq> 0 \<longrightarrow> same_outside v v1 addr addr"
      and ok: "mmu_frame v (of_nat addr) = None \<and> 4 \<le> avail (frames v) \<longrightarrow> st = 0"
      by (rule alloc_heap_page [OF "1.prems"(1) h "1.prems"(3,2)])
    show ?thesis
    proof (cases "st = 0")
      case False
      then show ?thesis
        using True r nz ok by (intro exI [of _ 0] exI [of _ v1]) (auto simp: sbrk_loop.simps [of v] backed_def)
    next
      case st: True
      have le: "addr + 4096 \<le> fin" using True "1.prems"(3,4) by (auto elim!: dvdE)
      have p: "4096 dvd addr + 4096" "unat KHEAP \<le> addr + 4096" using "1.prems"(3,5) by auto
      obtain g v2 where i: "sbrk_loop v1 (addr + 4096) fin (sz + 4096) = Some (sz + 4096 + g, v2)" "vmm_wf v2" "heap_small v2"
        and b: "backed v2 (addr + 4096) (addr + 4096 + g)" and s: "same_outside v1 v2 (addr + 4096) (addr + 4096 + g)"
        and m: "addr + 4096 + g \<le> max (addr + 4096) fin"
        using "1.IH" [OF True, of "(st, v1)" st v1] r st p "1.prems"(4,6) by auto
      have "backed v2 addr (addr + 4096)"
        by (rule backed_outside [OF _ s]) (use z st "1.prems"(5,6) le in auto)
      then have "backed v2 addr (addr + 4096 + g)" by (rule backed_append [OF _ b])
      moreover have "same_outside v v2 addr (addr + 4096 + g)"
        by (rule same_outside_trans [OF _ s]) (use z st in auto)
      moreover have "sbrk_loop v addr fin sz = Some (sz + (4096 + g), v2)"
        using True r st i by (simp add: sbrk_loop.simps [of v] add.assoc)
      ultimately show ?thesis using i m le by (intro exI [of _ "4096 + g"] exI [of _ v2]) (simp add: add.assoc)
    qed
  qed
qed

text \<open>The heap lies in its area, in whole pages, and every page is mapped.\<close>

definition heap_ok :: "vmm \<Rightarrow> heap_t \<Rightarrow> bool" where
  "heap_ok v h \<longleftrightarrow> vmm_wf v \<and> heap_small v \<and> hp_start h = unat KHEAP \<and> hp_end h = hp_start h + hp_size h \<and>
    hp_size h \<le> unat KHEAP_SIZE \<and> 4096 dvd hp_size h \<and> backed v (hp_start h) (hp_end h)"

lemma heap_sbrk_maps:
  assumes ok: "heap_ok v h"
  shows "\<exists>got v' h'. heap_sbrk v h sz = Some (got, v', h') \<and> heap_ok v' h' \<and> same_outside v v' (hp_end h) (hp_end h') \<and>
    h' = h\<lparr>hp_size := hp_size h + got, hp_end := hp_end h + got\<rparr>"
proof -
  define fin where "fin = wrap (hp_start h + hp_size h + align_size sz HEAP_SBRK_SIZE)"
  show ?thesis
  proof (cases "fin > hp_start h + unat KHEAP_SIZE")
    case True
    then show ?thesis using ok same_outside_refl by (simp add: heap_sbrk_def Let_def fin_def)
  next
    case False
    have K: "4096 dvd unat KHEAP" by (simp add: KHEAP_def)
    have o: "vmm_wf v" "heap_small v" "hp_start h = unat KHEAP" "hp_end h = unat KHEAP + hp_size h" "hp_size h \<le> unat KHEAP_SIZE"
      "4096 dvd hp_size h" "backed v (unat KHEAP) (hp_end h)" using ok unfolding heap_ok_def by auto
    have e: "4096 dvd hp_end h" using o(4,6) K by simp
    have "0x100000 dvd align_size sz HEAP_SBRK_SIZE" by (simp add: align_size_def)
    then have "4096 dvd align_size sz HEAP_SBRK_SIZE" by (rule dvd_trans [rotated]) simp
    then have f: "4096 dvd fin" using e o(3,4) unfolding fin_def wrap_def by (intro dvd_mod) simp_all
    obtain got v' where l: "sbrk_loop v (hp_end h) fin 0 = Some (0 + got, v')" "vmm_wf v'" "heap_small v'"
      and b: "backed v' (hp_end h) (hp_end h + got)" "same_outside v v' (hp_end h) (hp_end h + got)"
      and m: "hp_end h + got \<le> max (hp_end h) fin"
      using sbrk_loop_maps [OF o(1,2) e f, of 0] o(3,4) False by auto
    have d: "4096 dvd got"
      using heap_sbrk_effect [of v h sz got v' "h\<lparr>hp_size := hp_size h + got, hp_end := hp_end h + got\<rparr>"] l(1) False o(3,4)
      by (simp add: heap_sbrk_def Let_def fin_def)
    have "backed v' (unat KHEAP) (hp_end h)" by (rule backed_outside [OF o(7) b(2)]) (use o(4,5) in auto)
    then have "backed v' (unat KHEAP) (hp_end h + got)" using b(1) by (rule backed_append)
    moreover have "hp_size h + got \<le> unat KHEAP_SIZE" using m False o(3,4,5) by auto
    ultimately show ?thesis
      using l b(2) d False o by (simp add: heap_sbrk_def Let_def fin_def heap_ok_def)
  qed
qed

section \<open>The operations of the heap\<close>

lemma glue_sel [simp]:
  "hp_start (glue_prev h c) = hp_start h" "hp_end (glue_prev h c) = hp_end h" "hp_size (glue_prev h c) = hp_size h"
  "hp_start (glue_next h c) = hp_start h" "hp_end (glue_next h c) = hp_end h" "hp_size (glue_next h c) = hp_size h"
  "hp_start (glue_chunk h c a b) = hp_start h" "hp_end (glue_chunk h c a b) = hp_end h" "hp_size (glue_chunk h c a b) = hp_size h"
  by (simp_all add: glue_prev_def glue_next_def glue_chunk_def Let_def)

lemma split_sel:
  "split_chunk h c s = Some g \<Longrightarrow> hp_start g = hp_start h \<and> hp_end g = hp_end h \<and> hp_size g = hp_size h"
  by (auto simp: split_chunk_def cut_chunk_def Let_def split: if_splits)

lemma heap_ok_cong:
  "heap_ok v h \<Longrightarrow> hp_start h' = hp_start h \<Longrightarrow> hp_end h' = hp_end h \<Longrightarrow> hp_size h' = hp_size h \<Longrightarrow> heap_ok v h'"
  unfolding heap_ok_def by auto

text \<open>An operation that returns, and leaves the heap backed by pages and all other translations alone.\<close>

definition heap_step :: "vmm \<Rightarrow> heap_t \<Rightarrow> vmm \<Rightarrow> heap_t \<Rightarrow> bool" where
  "heap_step v h v' h' \<longleftrightarrow> heap_ok v' h' \<and> same_outside v v' (hp_end h) (hp_end h')"

lemma heap_expand_maps:
  assumes "heap_ok v h"
  shows "\<exists>c v' h'. heap_expand v h sz = Some (c, v', h') \<and> heap_step v h v' h'"
proof -
  obtain got v' h1 where s: "heap_sbrk v h (wrap (sz + HEAP_HEADER_SIZE)) = Some (got, v', h1)" "heap_ok v' h1"
    "same_outside v v' (hp_end h) (hp_end h1)"
    using heap_sbrk_maps [OF assms] by blast
  define old new where "old = hp_end h - HEAP_HEADER_SIZE" and "new = hp_end h1 - HEAP_HEADER_SIZE"
  define g where "g = set_chunk h1 old (\<lambda>k. k\<lparr>ck_next := new\<rparr>)"
  define H where "H = insert_free_chunk (set_chunk (set_chunk g old (\<lambda>k. k\<lparr>ck_size := chunk_size g old, ck_free := True\<rparr>))
    new (\<lambda>k. \<lparr>ck_prev = old, ck_next = 0, ck_size = 0, ck_free = False\<rparr>)) old"
  have H: "hp_start H = hp_start h1" "hp_end H = hp_end h1" "hp_size H = hp_size h1" by (simp_all add: H_def g_def)
  have e: "heap_expand v h sz = (if got < wrap (sz + HEAP_HEADER_SIZE) then Some (0, v', h1)
      else if ck_free (chunks H (ck_prev (chunks H old)))
      then Some (ck_prev (chunks H old), v', glue_chunk H (ck_prev (chunks H old)) False True) else Some (old, v', H))"
    unfolding heap_expand_def Let_def s(1) bind.bind_lunit prod.case H_def g_def old_def new_def by (rule refl)
  obtain c h' where e: "heap_expand v h sz = Some (c, v', h')"
    and h': "hp_start h' = hp_start h1" "hp_end h' = hp_end h1" "hp_size h' = hp_size h1"
  proof -
    consider (no) "got < wrap (sz + HEAP_HEADER_SIZE)"
      | (glue) "\<not> got < wrap (sz + HEAP_HEADER_SIZE)" "ck_free (chunks H (ck_prev (chunks H old)))"
      | (new) "\<not> got < wrap (sz + HEAP_HEADER_SIZE)" "\<not> ck_free (chunks H (ck_prev (chunks H old)))" by blast
    then show thesis
    proof cases
      case no
      then show thesis using that [OF trans [OF e if_P]] by simp
    next
      case glue
      then show thesis using that [OF trans [OF e trans [OF if_not_P if_P]]] H by simp
    next
      case new
      then show thesis using that [OF trans [OF e trans [OF if_not_P if_not_P]]] H by simp
    qed
  qed
  have "heap_ok v' h'" using heap_ok_cong [OF s(2)] h' by simp
  then show ?thesis using e s(3) h'(2) by (auto simp: heap_step_def)
qed

lemma kmalloc_maps:
  assumes i: "heap_inv h cs fs" and ok: "heap_ok v h" and sz: "sz + 64 < 2 ^ 64"
  shows "\<exists>p v' h'. kmalloc v h sz = Some (p, v', h') \<and> heap_step v h v' h'"
proof (cases "sz = 0")
  case True
  then show ?thesis using ok same_outside_refl by (simp add: kmalloc_def kmalloc_int_def heap_step_def)
next
  case False
  define s where "s = align_size sz HEAP_DATA_ALIGN"
  have ne: "hp_size h \<noteq> 0" using i by (simp add: heap_inv_def layout_def)
  obtain c v' h1 where f: "find_free_chunk v h s = Some (c, v', h1)" "heap_step v h v' h1"
  proof -
    obtain r where r: "find_free_loop h s (hp_free h) = Some r" using find_free_loop_inv [OF i] by blast
    show thesis
    proof (cases "r = 0")
      case True
      obtain c v' h1 where "heap_expand v h s = Some (c, v', h1)" "heap_step v h v' h1"
        using heap_expand_maps [OF ok] by blast
      then show thesis using that r True by (simp add: find_free_chunk_def)
    next
      case False
      have "heap_step v h v h" using ok same_outside_refl by (simp add: heap_step_def)
      then show thesis using that r False by (simp add: find_free_chunk_def)
    qed
  qed
  show ?thesis
  proof (cases "c = 0")
    case True
    then show ?thesis using f \<open>sz \<noteq> 0\<close> ne by (simp add: kmalloc_def kmalloc_int_def s_def)
  next
    case c: False
    have s: "16 \<le> s" "16 dvd s" "s + 48 < 2 ^ 64" "s + 32 < 2 ^ 64"
      using align_size_16 [of sz] \<open>sz \<noteq> 0\<close> sz by (auto simp: s_def)
    from find_free_chunk_effect [OF i f(1) c s(4)] obtain cs' fs'
      where "heap_inv h1 cs' fs'" "c \<in> set cs'" "ck_free (chunks h1 c)" "s \<le> ck_size (chunks h1 c)" by (elim exE conjE)
    from take_chunk [OF this s(1-3)] obtain g where g: "split_chunk h1 c s = Some g" by (elim exE conjE)
    then have "kmalloc v h sz = Some (c + 32, v', remove_free_chunk g c)"
      using f(1) \<open>sz \<noteq> 0\<close> ne c by (simp add: kmalloc_def kmalloc_int_def s_def)
    moreover have "heap_step v h v' (remove_free_chunk g c)"
      using f(2) heap_ok_cong [of v' h1] split_sel [OF g] by (simp add: heap_step_def)
    ultimately show ?thesis by blast
  qed
qed

lemma kfree_maps: "heap_ok v h \<Longrightarrow> heap_ok v (kfree h p)"
  by (rule heap_ok_cong [of v h]) (simp_all add: kfree_def Let_def)

lemma heap_init_maps:
  assumes "vmm_wf v" "heap_small v" "mmu_frame v KHEAP = None" "4 \<le> avail (frames v)"
  shows "\<exists>v' h'. heap_init v h = Some (v', h') \<and> heap_ok v' h' \<and> heap_get_size h' \<noteq> 0 \<and>
    same_outside v v' (hp_start h') (hp_end h')"
proof -
  define h0 where "h0 = h\<lparr>hp_first := 0, hp_free := 0, hp_start := unat KHEAP, hp_end := unat KHEAP, hp_size := 0\<rparr>"
  have "heap_ok v h0" using assms by (simp add: heap_ok_def h0_def)
  then obtain got v' h1 where s: "heap_sbrk v h0 1 = Some (got, v', h1)" "heap_ok v' h1"
    "same_outside v v' (hp_end h0) (hp_end h1)" and h1: "h1 = h0\<lparr>hp_size := hp_size h0 + got, hp_end := hp_end h0 + got\<rparr>"
    using heap_sbrk_maps by blast
  have w: "wrap (unat KHEAP + 0x100000) = unat KHEAP + 0x100000" by (simp add: wrap_def KHEAP_def)
  have a: "align_size 1 0x100000 = 0x100000" by (simp add: align_size_def wrap_def)
  have "\<exists>g v'. sbrk_loop v (unat KHEAP) (unat KHEAP + 0x100000) 0 = Some (0 + g, v') \<and> g \<noteq> 0"
    using sbrk_loop_maps [OF assms(1,2), of "unat KHEAP" "unat KHEAP + 0x100000" 0] assms(3,4)
    by (auto simp: KHEAP_def KHEAP_SIZE_def)
  then have g: "got \<noteq> 0"
    using s(1) a w by (auto simp: heap_sbrk_def Let_def h0_def KHEAP_SIZE_def)
  obtain h' where e: "heap_init v h = Some (v', h')"
    and h': "hp_start h' = hp_start h1" "hp_end h' = hp_end h1" "hp_size h' = hp_size h1"
    unfolding heap_init_def Let_def h0_def [symmetric] s(1) by simp
  have "heap_ok v' h'" using heap_ok_cong [OF s(2)] h' by simp
  moreover have "heap_get_size h' \<noteq> 0" using g h' h1 by (simp add: heap_get_size_def)
  moreover have "same_outside v v' (hp_start h') (hp_end h')" using s(3) h' h1 by (simp add: h0_def)
  ultimately show ?thesis using e by blast
qed

lemma kmalloc_inside:
  assumes "heap_inv h cs fs" "kmalloc v h sz = Some (p, v', h')" "p \<noteq> 0" "sz + 64 < 2 ^ 64"
  shows "hp_start h' \<le> p \<and> p + sz \<le> hp_end h'"
proof -
  obtain c h1 cs1 fs1 where p: "p = c + 32" and t: "taken h1 cs1 c (align_size sz HEAP_DATA_ALIGN) h'"
    using kmalloc_effect [OF assms] by metis
  obtain cs' where l: "layout h' cs'" "c \<in> set cs'" and s: "align_size sz HEAP_DATA_ALIGN \<le> ck_size (chunks h' c)"
    using t by (auto simp: taken_def heap_inv_def)
  have "0 < sz" using assms(2,3) by (cases sz) (simp_all add: kmalloc_def kmalloc_int_def)
  then have "sz \<le> ck_size (chunks h' c)" using align_size_16 [of sz] assms(4) s by (simp add: le_trans)
  then show ?thesis using layout_facts(4) [OF l] p by arith
qed

end
