(* ===== verification/Mmap.thy ===== *)
theory Mmap
  imports Vmm
begin

text \<open>
  Memory maps of processes (\<^verbatim>\<open>src/kernel/mem/map.c\<close>) and the mapping of device memory
  (\<^verbatim>\<open>src/kernel/mem/mmio.c\<close>), on top of the virtual memory manager.  A memory map is the list of its regions in
  the order of their addresses; a region is named by its position.  Loops over the pages of a region are partial
  functions: \<open>None\<close> is a page fault or a loop that never ends.
\<close>

definition PAGE_ALIGN :: "u64 \<Rightarrow> u64" where
  "PAGE_ALIGN a = (a + PAGE_SIZE - 1) AND ALIGN_MASK"

definition PAT_UC :: u8 where "PAT_UC = 0x03"
definition PAT_WC :: u8 where "PAT_WC = 0x04"

definition MAP_FREE :: u64 where "MAP_FREE = 1"
definition MAP_DIRECT :: u64 where "MAP_DIRECT = 4"
definition MAP_UC :: u64 where "MAP_UC = 8"
definition MAP_WC :: u64 where "MAP_WC = 16"
definition MAP_EXEC :: u64 where "MAP_EXEC = 32"
definition MAP_READONLY :: u64 where "MAP_READONLY = 64"

record mm_region_t =
  r_flags :: u64
  r_addr :: u64
  r_phys :: u64
  r_length :: u64

section \<open>Regions\<close>

fun best_loop :: "mm_region_t list \<Rightarrow> nat \<Rightarrow> u64 \<Rightarrow> (nat \<times> u64) option \<Rightarrow> (nat \<times> u64) option" where
  "best_loop [] i len best = best"
| "best_loop (r # rs) i len best =
    (if r_flags r AND MAP_FREE = 0 then best_loop rs (i + 1) len best
     else if r_length r < len then best_loop rs (i + 1) len best
     else case best of
       Some (b, l) \<Rightarrow> best_loop rs (i + 1) len (if r_length r < l then Some (i, r_length r) else best)
     | None \<Rightarrow> best_loop rs (i + 1) len (Some (i, r_length r)))"

definition find_free_region :: "mm_region_t list \<Rightarrow> u64 \<Rightarrow> nat option" where
  "find_free_region rs len = map_option fst (best_loop rs 0 len None)"

fun region_loop :: "mm_region_t list \<Rightarrow> nat \<Rightarrow> u64 \<Rightarrow> nat option" where
  "region_loop [] i a = None"
| "region_loop (r # rs) i a =
    (if a \<ge> r_addr r \<and> a < r_addr r + r_length r then Some i else region_loop rs (i + 1) a)"

definition find_region :: "mm_region_t list \<Rightarrow> u64 \<Rightarrow> nat option" where
  "find_region rs a = region_loop rs 0 a"

text \<open>\<open>got\<close> tells whether the heap has a block for the new region.\<close>

definition split_region :: "mm_region_t list \<Rightarrow> nat \<Rightarrow> u64 \<Rightarrow> bool \<Rightarrow> int \<times> mm_region_t list" where
  "split_region rs i len got =
    (let r = rs ! i
     in if r_length r - len < PAGE_SIZE then (0, rs)
        else if \<not> got then (- ENOMEM, rs)
        else let new = \<lparr>r_flags = MAP_FREE, r_addr = r_addr r + len, r_phys = 0, r_length = r_length r - len\<rparr>
             in (0, take i rs @ [r\<lparr>r_flags := 0, r_length := len\<rparr>, new] @ drop (i + 1) rs))"

text \<open>Caching and access rights of a page, from the flags of its region.\<close>

definition set_attributes :: "mm_region_t \<Rightarrow> u64 \<Rightarrow> vmm \<Rightarrow> vmm option" where
  "set_attributes r a v = do {
     (s, v) \<leftarrow> (if r_flags r AND MAP_UC \<noteq> 0 then vmm_set_caching v a PAT_UC
                else if r_flags r AND MAP_WC \<noteq> 0 then vmm_set_caching v a PAT_WC
                else Some (0, v));
     (s, v) \<leftarrow> vmm_set_mode v a (r_flags r AND MAP_READONLY = 0) (r_flags r AND MAP_EXEC \<noteq> 0);
     Some v
   }"

partial_function (option) map_loop :: "mm_region_t \<Rightarrow> u64 \<Rightarrow> vmm \<Rightarrow> (u64 \<times> vmm) option" where
  "map_loop r off v =
    (if off < r_length r then
       do {
         (s, v) \<leftarrow> vmm_map_page v (r_addr r + off) (r_phys r + off);
         if s < 0 then Some (off, v)
         else do { v \<leftarrow> set_attributes r (r_addr r + off) v; map_loop r (off + PAGE_SIZE) v }
       }
     else Some (off, v))"

definition map_region :: "mm_region_t \<Rightarrow> vmm \<Rightarrow> (int \<times> vmm) option" where
  "map_region r v = do { (off, v) \<leftarrow> map_loop r 0 v; Some (if off < r_length r then -1 else 0, v) }"

partial_function (option) remap_loop :: "mm_region_t \<Rightarrow> u64 \<Rightarrow> vmm \<Rightarrow> (u64 \<times> vmm) option" where
  "remap_loop r off v =
    (if off < r_length r then
       do {
         (s, v) \<leftarrow> vmm_remap_page v (r_addr r + off) (r_phys r + off);
         if s < 0 then Some (off, v) else remap_loop r (off + PAGE_SIZE) v
       }
     else Some (off, v))"

definition remap_region :: "mm_region_t \<Rightarrow> vmm \<Rightarrow> (int \<times> vmm) option" where
  "remap_region r v = do { (off, v) \<leftarrow> remap_loop r 0 v; Some (if off < r_length r then -1 else 0, v) }"

partial_function (option) allocate_loop :: "mm_region_t \<Rightarrow> u64 \<Rightarrow> vmm \<Rightarrow> (u64 \<times> vmm) option" where
  "allocate_loop r off v =
    (if off < r_length r then
       do {
         (s, v) \<leftarrow> vmm_alloc_page v (r_addr r + off);
         if s < 0 then Some (off, v)
         else do { v \<leftarrow> set_attributes r (r_addr r + off) v; allocate_loop r (off + PAGE_SIZE) v }
       }
     else Some (off, v))"

definition allocate_region :: "mm_region_t \<Rightarrow> vmm \<Rightarrow> (int \<times> vmm) option" where
  "allocate_region r v = do { (off, v) \<leftarrow> allocate_loop r 0 v; Some (if off < r_length r then -1 else 0, v) }"

partial_function (option) unmap_loop :: "mm_region_t \<Rightarrow> u64 \<Rightarrow> vmm \<Rightarrow> (u64 \<times> vmm) option" where
  "unmap_loop r off v =
    (if off < r_length r then
       do {
         (s, v) \<leftarrow> vmm_free_page v (r_addr r + off);
         if s < 0 then Some (off, v) else unmap_loop r (off + PAGE_SIZE) v
       }
     else Some (off, v))"

definition unmap_region :: "mm_region_t \<Rightarrow> vmm \<Rightarrow> (int \<times> vmm) option" where
  "unmap_region r v = do { (off, v) \<leftarrow> unmap_loop r 0 v; Some (if off < r_length r then -1 else 0, v) }"

section \<open>Operations on a memory map\<close>

record mapping_result =
  res_status :: int
  res_virt :: u64
  res_map :: "mm_region_t list"
  res_vmm :: vmm

definition mm_map :: "mm_region_t list \<Rightarrow> vmm \<Rightarrow> u64 \<Rightarrow> u64 \<Rightarrow> bool \<Rightarrow> mapping_result option" where
  "mm_map rs v len flags got =
    (let len = PAGE_ALIGN len
     in case find_free_region rs len of
       None \<Rightarrow> Some \<lparr>res_status = - ENOMEM, res_virt = 0, res_map = rs, res_vmm = v\<rparr>
     | Some i \<Rightarrow>
         (case split_region rs i len got of (s, rs) \<Rightarrow>
           if s < 0 then Some \<lparr>res_status = s, res_virt = 0, res_map = rs, res_vmm = v\<rparr>
           else do {
             (s, v) \<leftarrow> allocate_region (rs ! i) v;
             if s < 0 then Some \<lparr>res_status = s, res_virt = 0, res_map = rs, res_vmm = v\<rparr>
             else Some \<lparr>res_status = 0, res_virt = r_addr (rs ! i), res_map = rs[i := (rs ! i)\<lparr>r_flags := flags\<rparr>], res_vmm = v\<rparr>
           }))"

definition mm_unmap :: "mm_region_t list \<Rightarrow> vmm \<Rightarrow> u64 \<Rightarrow> mapping_result option" where
  "mm_unmap rs v virt =
    (case find_region rs virt of
       None \<Rightarrow> Some \<lparr>res_status = - EINVAL, res_virt = virt, res_map = rs, res_vmm = v\<rparr>
     | Some i \<Rightarrow> do {
         (s, v) \<leftarrow> unmap_region (rs ! i) v;
         if s < 0 then Some \<lparr>res_status = s, res_virt = virt, res_map = rs, res_vmm = v\<rparr>
         else Some \<lparr>res_status = 0, res_virt = virt, res_map = rs[i := (rs ! i)\<lparr>r_flags := MAP_FREE\<rparr>], res_vmm = v\<rparr>
       })"

definition mm_map_direct :: "mm_region_t list \<Rightarrow> vmm \<Rightarrow> u64 \<Rightarrow> u64 \<Rightarrow> u64 \<Rightarrow> bool \<Rightarrow> mapping_result option" where
  "mm_map_direct rs v phys len flags got =
    (let len = PAGE_ALIGN len
     in case find_free_region rs len of
       None \<Rightarrow> Some \<lparr>res_status = - ENOMEM, res_virt = 0, res_map = rs, res_vmm = v\<rparr>
     | Some i \<Rightarrow>
         (case split_region rs i len got of (s, rs) \<Rightarrow>
           if s < 0 then Some \<lparr>res_status = s, res_virt = 0, res_map = rs, res_vmm = v\<rparr>
           else let r = (rs ! i)\<lparr>r_phys := phys, r_flags := flags OR MAP_DIRECT\<rparr>; rs = rs[i := r]
                in do {
                  (s, v) \<leftarrow> map_region r v;
                  if s < 0 then Some \<lparr>res_status = s, res_virt = 0, res_map = rs, res_vmm = v\<rparr>
                  else Some \<lparr>res_status = 0, res_virt = r_addr r, res_map = rs, res_vmm = v\<rparr>
                }))"

definition mm_remap_direct :: "mm_region_t list \<Rightarrow> vmm \<Rightarrow> u64 \<Rightarrow> u64 \<Rightarrow> mapping_result option" where
  "mm_remap_direct rs v virt phys =
    (case find_region rs virt of
       None \<Rightarrow> Some \<lparr>res_status = - EINVAL, res_virt = virt, res_map = rs, res_vmm = v\<rparr>
     | Some i \<Rightarrow>
         if r_flags (rs ! i) AND MAP_DIRECT = 0
         then Some \<lparr>res_status = - EINVAL, res_virt = virt, res_map = rs, res_vmm = v\<rparr>
         else let r = (rs ! i)\<lparr>r_phys := phys\<rparr>
              in do {
                (s, v) \<leftarrow> remap_region r v;
                Some \<lparr>res_status = 0, res_virt = virt, res_map = rs[i := r], res_vmm = v\<rparr>
              })"

definition mm_init :: "u64 \<Rightarrow> u64 \<Rightarrow> mm_region_t list" where
  "mm_init a len = [\<lparr>r_flags = MAP_FREE, r_addr = a, r_phys = 0, r_length = len\<rparr>]"

section \<open>Device memory\<close>

text \<open>The size rounded up to whole pages, and the loop over \<open>n\<close> pages, whose offset is a 32-bit variable.\<close>

definition mmio_pages :: "u64 \<Rightarrow> u64" where
  "mmio_pages bytes = (if bytes AND ALIGN_TEST \<noteq> 0 then (bytes AND ALIGN_MASK) + PAGE_SIZE else bytes) div PAGE_SIZE"

primrec mmio_loop :: "nat \<Rightarrow> u64 \<Rightarrow> u64 \<Rightarrow> u32 \<Rightarrow> u8 \<Rightarrow> vmm \<Rightarrow> (int \<times> vmm) option" where
  "mmio_loop 0 va pa offset pt v = Some (0, v)"
| "mmio_loop (Suc n) va pa offset pt v = do {
     (s, v) \<leftarrow> vmm_map_page v (va + ucast offset) (pa + ucast offset);
     if s \<noteq> 0 then Some (- EFAIL, v)
     else do {
       (s, v) \<leftarrow> vmm_set_caching v (va + ucast offset) pt;
       mmio_loop n va pa (offset + 0x1000) pt v
     }
   }"

text \<open>The status, the two addresses and the next free offset; the result pointers are not null.\<close>

definition mmio_alloc_uc_region ::
  "u64 \<Rightarrow> vmm \<Rightarrow> u64 \<Rightarrow> u32 \<Rightarrow> (int \<times> u64 \<times> u64 \<times> u64 \<times> vmm) option" where
  "mmio_alloc_uc_region mmio_offset v bytes align =
    (if bytes = 0 then Some (- EINVAL, 0, 0, mmio_offset, v)
     else if align = 0 then Some (- EINVAL, 0, 0, mmio_offset, v)
     else let pages = mmio_pages bytes;
              al = (if ucast align AND ALIGN_TEST \<noteq> 0 then ucast ((ucast align AND ALIGN_MASK) + PAGE_SIZE) else align) div (0x1000 :: u32)
          in do {
            (pa, f) \<leftarrow> pmm_alloc_frames (frames v) (ucast pages) al;
            let v = v\<lparr>frames := f\<rparr>;
            if pa = 0 then Some (- ENOMEM, 0, 0, mmio_offset, v)
            else do {
              let va = HWMAP + mmio_offset;
              let mmio_offset = mmio_offset + pages * PAGE_SIZE;
              (s, v) \<leftarrow> mmio_loop (unat pages) va pa 0 PAT_UC v;
              Some (s, va, pa, mmio_offset, v)
            }
          })"

definition mmio_map_wc_region :: "u64 \<Rightarrow> vmm \<Rightarrow> u64 \<Rightarrow> u64 \<Rightarrow> (int \<times> u64 \<times> u64 \<times> vmm) option" where
  "mmio_map_wc_region mmio_offset v a bytes =
    (if a = 0 then Some (- EINVAL, 0, mmio_offset, v)
     else if bytes = 0 then Some (- EINVAL, 0, mmio_offset, v)
     else let pa = (if a AND ALIGN_TEST \<noteq> 0 then a AND ALIGN_MASK else a);
              pages = mmio_pages (bytes + (a - pa));
              va = HWMAP + mmio_offset;
              mmio_offset = mmio_offset + pages * PAGE_SIZE
          in do {
            (s, v) \<leftarrow> mmio_loop (unat pages) va pa 0 PAT_WC v;
            Some (s, va + (a - pa), mmio_offset, v)
          })"

section \<open>Regions tile the range of a memory map\<close>

text \<open>The regions from address \<open>a\<close> on follow each other without gaps up to \<open>e\<close>.\<close>

fun tiles :: "nat \<Rightarrow> mm_region_t list \<Rightarrow> nat \<Rightarrow> bool" where
  "tiles a [] e \<longleftrightarrow> a = e"
| "tiles a (r # rs) e \<longleftrightarrow> unat (r_addr r) = a \<and> tiles (a + unat (r_length r)) rs e"

lemma tiles_append: "tiles a (xs @ ys) e \<longleftrightarrow> (\<exists>b. tiles a xs b \<and> tiles b ys e)"
  by (induction xs arbitrary: a) auto

lemma tiles_le: "tiles a rs e \<Longrightarrow> a \<le> e"
  by (induction rs arbitrary: a) force+

lemma tiles_update:
  assumes "tiles a rs e" "r_addr r = r_addr (rs ! i)" "r_length r = r_length (rs ! i)"
  shows "tiles a (rs[i := r]) e"
  using assms by (induction rs arbitrary: a i) (auto split: nat.splits)

lemma tiles_attributes:
  "tiles a rs e \<Longrightarrow> tiles a (rs[i := (rs ! i)\<lparr>r_flags := f\<rparr>]) e"
  "tiles a rs e \<Longrightarrow> tiles a (rs[i := (rs ! i)\<lparr>r_phys := p\<rparr>]) e"
  by (simp_all add: tiles_update)

lemma tiles_split:
  assumes "tiles a rs e" "e < 2 ^ 64" "i < length rs" "len \<le> r_length (rs ! i)" "split_region rs i len got = (s, rs')"
  shows "tiles a rs' e"
proof (cases "rs' = rs")
  case False
  define r where "r = rs ! i"
  have rs': "rs' = take i rs @ [r\<lparr>r_flags := 0, r_length := len\<rparr>,
      \<lparr>r_flags = MAP_FREE, r_addr = r_addr r + len, r_phys = 0, r_length = r_length r - len\<rparr>] @ drop (i + 1) rs"
    using assms(5) False by (auto simp: split_region_def Let_def r_def split: if_splits)
  have "rs = take i rs @ r # drop (i + 1) rs"
    using assms(3) by (simp add: r_def id_take_nth_drop)
  then obtain b where b: "tiles a (take i rs) b" "unat (r_addr r) = b" "tiles (b + unat (r_length r)) (drop (i + 1) rs) e"
    using assms(1) tiles_append [of a "take i rs" "r # drop (i + 1) rs" e] by auto
  have le: "unat len \<le> unat (r_length r)"
    using assms(4) by (simp add: r_def word_le_nat_alt)
  have "b + unat (r_length r) < 2 ^ 64"
    using tiles_le [OF b(3)] assms(2) by simp
  then have "unat (r_addr r + len) = b + unat len"
    using b(2) le by (simp add: unat_word_ariths)
  moreover have "unat (r_length r - len) = unat (r_length r) - unat len"
    using assms(4) by (simp add: r_def unat_sub)
  ultimately show ?thesis
    using b le unfolding rs' tiles_append by (intro exI [of _ b]) simp
qed (use assms in simp)

text \<open>The best fit: a free region of the smallest sufficient length.\<close>

definition fits :: "u64 \<Rightarrow> mm_region_t \<Rightarrow> bool" where
  "fits len r \<longleftrightarrow> r_flags r AND MAP_FREE \<noteq> 0 \<and> len \<le> r_length r"

definition best_upto :: "mm_region_t list \<Rightarrow> u64 \<Rightarrow> (nat \<times> u64) option \<Rightarrow> bool" where
  "best_upto rs len best \<longleftrightarrow> (case best of
     None \<Rightarrow> \<forall>r \<in> set rs. \<not> fits len r
   | Some (i, l) \<Rightarrow> i < length rs \<and> l = r_length (rs ! i) \<and> fits len (rs ! i) \<and> (\<forall>r \<in> set rs. fits len r \<longrightarrow> l \<le> r_length r))"

lemma best_loop_spec: "best_upto ds len best \<Longrightarrow> best_upto (ds @ rs) len (best_loop rs (length ds) len best)"
proof (induction rs arbitrary: ds best)
  case (Cons r rs)
  have step: "best_upto (ds @ [r]) len
    (if r_flags r AND MAP_FREE = 0 then best else if r_length r < len then best
     else case best of Some (b, l) \<Rightarrow> (if r_length r < l then Some (length ds, r_length r) else best)
       | None \<Rightarrow> Some (length ds, r_length r))"
    using Cons.prems
    by (auto simp: best_upto_def fits_def nth_append not_less split: option.splits if_splits intro: order.trans less_imp_le)
  show ?case
    using Cons.IH [OF step] by (auto split: option.splits if_splits)
qed simp

text \<open>C36. \<open>find_free_region\<close> returns a free region that is long enough and no longer than any other such region, and
  finds one whenever there is one.\<close>

theorem find_free_region_best_fit:
  "case find_free_region rs len of
     None \<Rightarrow> \<forall>r \<in> set rs. \<not> fits len r
   | Some i \<Rightarrow> i < length rs \<and> fits len (rs ! i) \<and> (\<forall>r \<in> set rs. fits len r \<longrightarrow> r_length (rs ! i) \<le> r_length r)"
  using best_loop_spec [of "[]" len None rs]
  by (auto simp: find_free_region_def best_upto_def split: option.splits)

lemma find_free_region_fits: "find_free_region rs len = Some i \<Longrightarrow> i < length rs \<and> len \<le> r_length (rs ! i)"
  using best_loop_spec [of "[]" len None rs]
  by (auto simp: find_free_region_def best_upto_def fits_def)

definition map0 :: "mm_region_t list" where
  "map0 = [\<lparr>r_flags = MAP_FREE, r_addr = 0x10000, r_phys = 0, r_length = 0x8000\<rparr>,
    \<lparr>r_flags = 0, r_addr = 0x18000, r_phys = 0, r_length = 0x1000\<rparr>,
    \<lparr>r_flags = MAP_FREE, r_addr = 0x19000, r_phys = 0, r_length = 0x2000\<rparr>]"

theorem find_free_region_best_fit_witness: "find_free_region map0 0x2000 = Some 2 \<and> fits 0x2000 (map0 ! 2)"
proof -
  have e: "find_free_region map0 0x2000 = Some 2"
    by (simp add: find_free_region_def map0_def MAP_FREE_def)
  show ?thesis
    using find_free_region_best_fit [where rs = map0 and len = "0x2000"] unfolding e by simp
qed

lemma tiles_start: "tiles a rs e \<Longrightarrow> j < length rs \<Longrightarrow> a \<le> unat (r_addr (rs ! j))"
proof (induction rs arbitrary: a j)
  case (Cons r rs)
  then show ?case
    by (cases j) force+
qed simp

text \<open>A region and its successors: the end of one is not beyond the start of a later one.\<close>

lemma tiles_disjoint:
  "tiles a rs e \<Longrightarrow> j < length rs \<Longrightarrow> i < j \<Longrightarrow> unat (r_addr (rs ! i)) + unat (r_length (rs ! i)) \<le> unat (r_addr (rs ! j))"
proof (induction rs arbitrary: a i j)
  case (Cons r rs)
  obtain j' where j: "j = Suc j'"
    using Cons.prems(3) by (cases j) auto
  show ?case
  proof (cases i)
    case 0
    have "tiles (unat (r_addr r) + unat (r_length r)) rs e" "j' < length rs"
      using Cons.prems j by auto
    then have "unat (r_addr r) + unat (r_length r) \<le> unat (r_addr (rs ! j'))"
      by (rule tiles_start)
    then show ?thesis
      using 0 j by simp
  next
    case (Suc i')
    then show ?thesis
      using Cons.IH [of "a + unat (r_length r)" j' i'] Cons.prems j by simp
  qed
qed simp

lemma mm_map_tiles:
  assumes "tiles a rs e" "e < 2 ^ 64" "mm_map rs v len flags got = Some res"
  shows "tiles a (res_map res) e"
proof (cases "find_free_region rs (PAGE_ALIGN len)")
  case (Some i)
  obtain s rs' where sp: "split_region rs i (PAGE_ALIGN len) got = (s, rs')"
    by fastforce
  have t: "tiles a rs' e"
    using tiles_split [OF assms(1,2) _ _ sp] find_free_region_fits [OF Some] by blast
  have "res_map res = rs' \<or> res_map res = rs'[i := (rs' ! i)\<lparr>r_flags := flags\<rparr>]"
    using assms(3) Some sp by (auto simp: mm_map_def Let_def split: if_splits bind_splits)
  then show ?thesis
    using t tiles_update [OF t, of "(rs' ! i)\<lparr>r_flags := flags\<rparr>" i] by auto
qed (use assms in \<open>auto simp: mm_map_def Let_def\<close>)

lemma mm_map_direct_tiles:
  assumes "tiles a rs e" "e < 2 ^ 64" "mm_map_direct rs v phys len flags got = Some res"
  shows "tiles a (res_map res) e"
proof (cases "find_free_region rs (PAGE_ALIGN len)")
  case (Some i)
  obtain s rs' where sp: "split_region rs i (PAGE_ALIGN len) got = (s, rs')"
    by fastforce
  have t: "tiles a rs' e"
    using tiles_split [OF assms(1,2) _ _ sp] find_free_region_fits [OF Some] by blast
  have "res_map res = rs' \<or> res_map res = rs'[i := (rs' ! i)\<lparr>r_phys := phys, r_flags := flags OR MAP_DIRECT\<rparr>]"
    using assms(3) Some sp by (auto simp: mm_map_direct_def Let_def split: if_splits bind_splits)
  then show ?thesis
    using t tiles_update [OF t, of "(rs' ! i)\<lparr>r_phys := phys, r_flags := flags OR MAP_DIRECT\<rparr>" i] by auto
qed (use assms in \<open>auto simp: mm_map_direct_def Let_def\<close>)

lemma mm_unmap_tiles:
  assumes "tiles a rs e" "mm_unmap rs v virt = Some res"
  shows "tiles a (res_map res) e"
  using assms by (auto simp: mm_unmap_def tiles_attributes(1) split: option.splits bind_splits if_splits)

lemma mm_remap_direct_tiles:
  assumes "tiles a rs e" "mm_remap_direct rs v virt phys = Some res"
  shows "tiles a (res_map res) e"
  using assms by (auto simp: mm_remap_direct_def Let_def split: option.splits bind_splits if_splits intro: tiles_attributes)

text \<open>What happens to a memory map over time; the page tables may change in between.\<close>

inductive mm_step :: "mm_region_t list \<Rightarrow> mm_region_t list \<Rightarrow> bool" where
  map: "mm_step rs (res_map res)" if "mm_map rs v len flags got = Some res"
| unmap: "mm_step rs (res_map res)" if "mm_unmap rs v virt = Some res"
| direct: "mm_step rs (res_map res)" if "mm_map_direct rs v phys len flags got = Some res"
| remap: "mm_step rs (res_map res)" if "mm_remap_direct rs v virt phys = Some res"

lemma mm_step_tiles: "mm_step rs rs' \<Longrightarrow> tiles a rs e \<Longrightarrow> e < 2 ^ 64 \<Longrightarrow> tiles a rs' e"
  by (induction rule: mm_step.induct)
    (blast intro: mm_map_tiles mm_map_direct_tiles mm_unmap_tiles mm_remap_direct_tiles)+

lemma mm_steps_tiles: "mm_step\<^sup>*\<^sup>* rs rs' \<Longrightarrow> tiles a rs e \<Longrightarrow> e < 2 ^ 64 \<Longrightarrow> tiles a rs' e"
  by (induction rule: rtranclp_induct) (blast intro: mm_step_tiles)+

text \<open>C35. However a memory map is used after its creation, successfully or not, its regions cover its range without gaps
  and never overlap.\<close>

theorem mm_regions_disjoint:
  assumes "unat base + unat len < 2 ^ 64" "mm_step\<^sup>*\<^sup>* (mm_init base len) rs" "i < j" "j < length rs"
  shows "tiles (unat base) rs (unat base + unat len) \<and>
    unat (r_addr (rs ! i)) + unat (r_length (rs ! i)) \<le> unat (r_addr (rs ! j))"
proof -
  have "tiles (unat base) (mm_init base len) (unat base + unat len)"
    by (simp add: mm_init_def)
  from mm_steps_tiles [OF assms(2) this assms(1)] show ?thesis
    using tiles_disjoint assms(3,4) by blast
qed

text \<open>An empty request splits the region before any page is touched.\<close>

theorem mm_regions_disjoint_witness:
  "\<exists>rs. mm_step\<^sup>*\<^sup>* (mm_init 0x10000 0x4000) rs \<and> 1 < length rs \<and>
    unat (r_addr (rs ! 0)) + unat (r_length (rs ! 0)) \<le> unat (r_addr (rs ! 1))"
proof -
  have p: "PAGE_ALIGN 0 = 0"
    by (simp add: PAGE_ALIGN_def)
  obtain res where m: "mm_map (mm_init 0x10000 0x4000) vmm0 0 0 True = Some res" and l: "length (res_map res) = 2"
    by (simp add: mm_map_def p mm_init_def find_free_region_def split_region_def MAP_FREE_def
        allocate_region_def allocate_loop.simps Let_def)
  have s: "mm_step\<^sup>*\<^sup>* (mm_init 0x10000 0x4000) (res_map res)"
    using mm_step.map [OF m] by blast
  have "unat (0x10000 :: u64) + unat (0x4000 :: u64) < 2 ^ 64"
    by simp
  from mm_regions_disjoint [OF this s, of 0 1] show ?thesis
    using s l by auto
qed

text \<open>C37. The flags given to \<open>mm_map\<close> have no effect on the page tables: the pages are set up before the flags are stored
  in the region, so a request for read-only, executable or uncached memory gets the same pages as any other.\<close>

theorem mm_map_ignores_flags:
  "map_option (\<lambda>r. (res_status r, res_virt r, res_vmm r)) (mm_map rs v len flags got) =
   map_option (\<lambda>r. (res_status r, res_virt r, res_vmm r)) (mm_map rs v len flags' got)"
proof (cases "find_free_region rs (PAGE_ALIGN len)")
  case (Some i)
  obtain s rs' where sp: "split_region rs i (PAGE_ALIGN len) got = (s, rs')"
    by fastforce
  show ?thesis
    using Some sp by (cases "allocate_region (rs' ! i) v") (auto simp: mm_map_def Let_def)
qed (simp add: mm_map_def Let_def)

end
