(* ===== verification/Timer.thy ===== *)
theory Timer
  imports Prelude
begin

text \<open>
  One-shot timers (\<^verbatim>\<open>src/kernel/time/timer.c\<close>): a list of timers in the order of their deadlines and the
  earliest deadline, which the periodic tick tests first.  Times are 64-bit nanoseconds; the tests for an expired
  deadline are done on the signed difference.  The clock is an argument, and the callbacks that a tick makes are
  its result.
\<close>

record timer_t =
  tm_deadline :: u64
  tm_period :: u64
  tm_callback :: nat

record timers =
  tms :: "nat \<Rightarrow> timer_t"
  tm_list :: "nat list"
  next_deadline :: u64

definition timers_init :: "(nat \<Rightarrow> timer_t) \<Rightarrow> timers" where
  "timers_init m = \<lparr>tms = m, tm_list = [], next_deadline = -1\<rparr>"

abbreviation "slack \<equiv> 500000 :: u64"

definition expired :: "u64 \<Rightarrow> u64 \<Rightarrow> bool" where
  "expired ts d \<longleftrightarrow> \<not> sint (ts - d + slack) < 0"

text \<open>The loop of \<open>timer_tick\<close>: the timers that fire, the rest and the new earliest deadline.\<close>

fun tick_loop :: "(nat \<Rightarrow> timer_t) \<Rightarrow> u64 \<Rightarrow> nat list \<Rightarrow> u64 \<Rightarrow> nat list \<times> nat list \<times> u64" where
  "tick_loop m ts [] nd = ([], [], nd)"
| "tick_loop m ts (t # l) nd =
    (if expired ts (tm_deadline (m t)) then
       let nd = (case l of [] \<Rightarrow> 0 | u # _ \<Rightarrow> tm_deadline (m u));
           (fired, rest, nd) = tick_loop m ts l nd
       in (t # fired, rest, nd)
     else ([], t # l, nd))"

definition timer_tick :: "u64 \<Rightarrow> timers \<Rightarrow> nat list \<times> timers" where
  "timer_tick ts s =
    (if next_deadline s = 0 then ([], s)
     else if \<not> expired ts (next_deadline s) then ([], s)
     else case tick_loop (tms s) ts (tm_list s) (next_deadline s) of
       (fired, rest, nd) \<Rightarrow> (fired, s\<lparr>tm_list := rest, next_deadline := nd\<rparr>))"

fun insert_timer :: "(nat \<Rightarrow> timer_t) \<Rightarrow> nat \<Rightarrow> nat list \<Rightarrow> nat list" where
  "insert_timer m tm [] = [tm]"
| "insert_timer m tm (t # l) =
    (if tm_deadline (m t) > tm_deadline (m tm) then tm # t # l else t # insert_timer m tm l)"

definition timer_start :: "u64 \<Rightarrow> nat \<Rightarrow> timers \<Rightarrow> int \<times> timers" where
  "timer_start ts tm s =
    (if tm_callback (tms s tm) = 0 then (- EINVAL, s)
     else let d = ts + tm_period (tms s tm);
              m = (tms s)(tm := (tms s tm)\<lparr>tm_deadline := d\<rparr>);
              nd = (if d < next_deadline s then d else if next_deadline s = 0 then d else next_deadline s)
          in (0, s\<lparr>tms := m, tm_list := insert_timer m tm (tm_list s), next_deadline := nd\<rparr>))"

definition timer_cancel :: "nat \<Rightarrow> timers \<Rightarrow> timers" where
  "timer_cancel tm s =
    (let l = remove1 tm (tm_list s)
     in s\<lparr>tm_list := l, next_deadline := (case l of [] \<Rightarrow> 0 | t # _ \<Rightarrow> tm_deadline (tms s t))\<rparr>)"

section \<open>Timers fire in order\<close>

text \<open>The list is sorted by deadlines, none of which is 0, and the earliest deadline is that of its head; without
  timers it is 0, or the initial largest value.\<close>

definition timers_ok :: "timers \<Rightarrow> bool" where
  "timers_ok s \<longleftrightarrow> sorted (map (\<lambda>t. tm_deadline (tms s t)) (tm_list s)) \<and> distinct (tm_list s) \<and>
    (\<forall>t \<in> set (tm_list s). tm_deadline (tms s t) \<noteq> 0) \<and>
    (case tm_list s of [] \<Rightarrow> next_deadline s \<in> {0, -1} | t # _ \<Rightarrow> next_deadline s = tm_deadline (tms s t))"

lemma insert_timer_set: "set (insert_timer m tm l) = insert tm (set l)"
  by (induction l) auto

lemma insert_timer_distinct: "tm \<notin> set l \<Longrightarrow> distinct l \<Longrightarrow> distinct (insert_timer m tm l)"
  by (induction l) (auto simp: insert_timer_set)

lemma insert_timer_sorted:
  "sorted (map (\<lambda>t. tm_deadline (m t)) l) \<Longrightarrow> sorted (map (\<lambda>t. tm_deadline (m t)) (insert_timer m tm l))"
proof (induction l)
  case (Cons t l)
  have le: "tm_deadline (m t) \<le> tm_deadline (m u)" if "u \<in> set l" for u
    using Cons.prems that by simp
  show ?case
  proof (cases "tm_deadline (m t) > tm_deadline (m tm)")
    case True
    then have "tm_deadline (m tm) \<le> tm_deadline (m u)" if "u \<in> set l" for u
      using le [OF that] by (rule order.trans [OF less_imp_le])
    then show ?thesis
      using True Cons.prems by simp
  next
    case False
    then have "tm_deadline (m t) \<le> tm_deadline (m tm)" by simp
    then show ?thesis
      using Cons le False by (simp add: insert_timer_set del: not_less)
  qed
qed simp

lemma insert_timer_head:
  "insert_timer m tm l = (case l of [] \<Rightarrow> [tm] | t # l' \<Rightarrow> if tm_deadline (m t) > tm_deadline (m tm) then tm # l else t # insert_timer m tm l')"
  by (cases l) auto

lemma timer_start_ok:
  assumes "timers_ok s" "tm \<notin> set (tm_list s)" "ts + tm_period (tms s tm) \<noteq> 0"
  shows "timers_ok (snd (timer_start ts tm s))"
proof (cases "tm_callback (tms s tm) = 0")
  case False
  define d where "d = ts + tm_period (tms s tm)"
  define m where "m = (tms s)(tm := (tms s tm)\<lparr>tm_deadline := d\<rparr>)"
  have m: "tm_deadline (m t) = tm_deadline (tms s t)" if "t \<in> set (tm_list s)" for t
    using assms(2) that by (auto simp: m_def)
  have mm: "tm_deadline (m tm) = d"
    by (simp add: m_def)
  have same: "map (\<lambda>t. tm_deadline (m t)) (tm_list s) = map (\<lambda>t. tm_deadline (tms s t)) (tm_list s)"
    using m by (intro map_cong) auto
  have "sorted (map (\<lambda>t. tm_deadline (m t)) (insert_timer m tm (tm_list s)))"
    using assms(1) by (intro insert_timer_sorted) (simp add: same timers_ok_def)
  moreover have "distinct (insert_timer m tm (tm_list s))"
    using assms(1,2) by (simp add: insert_timer_distinct timers_ok_def)
  moreover have "\<forall>t \<in> set (insert_timer m tm (tm_list s)). tm_deadline (m t) \<noteq> 0"
    using assms(1,3) m mm by (auto simp: insert_timer_set timers_ok_def d_def)
  moreover have "\<exists>t l. insert_timer m tm (tm_list s) = t # l \<and>
    (if d < next_deadline s then d else if next_deadline s = 0 then d else next_deadline s) = tm_deadline (m t)"
  proof (cases "tm_list s")
    case Nil
    then have "next_deadline s = 0 \<or> next_deadline s = -1"
      using assms(1) by (simp add: timers_ok_def)
    then show ?thesis
      using Nil mm word_n1_ge [of d] by (auto simp: order_le_less)
  next
    case (Cons t l)
    then have "next_deadline s = tm_deadline (m t)" "tm_deadline (m t) \<noteq> 0"
      using assms(1) m [of t] by (simp_all add: timers_ok_def)
    then show ?thesis
      using Cons mm by simp
  qed
  ultimately have "timers_ok (s\<lparr>tms := m, tm_list := insert_timer m tm (tm_list s),
      next_deadline := (if d < next_deadline s then d else if next_deadline s = 0 then d else next_deadline s)\<rparr>)"
    unfolding timers_ok_def by (elim exE conjE) simp
  then show ?thesis
    unfolding timer_start_def Let_def d_def [symmetric] m_def [symmetric] using False by simp
qed (use assms in \<open>simp add: timer_start_def\<close>)

lemma timer_cancel_ok: "timers_ok s \<Longrightarrow> timers_ok (timer_cancel tm s)"
proof -
  assume ok: "timers_ok s"
  have "sorted (map (\<lambda>t. tm_deadline (tms s t)) (remove1 tm (tm_list s)))"
    using ok sorted_map_remove1 by (auto simp: timers_ok_def)
  then show ?thesis
    using ok by (auto simp: timer_cancel_def timers_ok_def Let_def split: list.split dest: set_remove1_subset [THEN subsetD])
qed

text \<open>The tests on signed differences are comparisons of times, as long as the times are below 2^62.\<close>

lemma diff_range:
  "0 \<le> a \<Longrightarrow> a < 2 ^ 62 \<Longrightarrow> 0 \<le> b \<Longrightarrow> b < 2 ^ 62 \<Longrightarrow> - (2 ^ 63) \<le> a - b + 500000 \<and> a - b + 500000 < (2 ^ 63 :: int)"
  by simp

lemma expired_iff:
  assumes "unat ts < 2 ^ 62" "unat d < 2 ^ 62"
  shows "expired ts d \<longleftrightarrow> unat d \<le> unat ts + 500000"
proof -
  have e: "uint ts = int (unat ts)" "uint d = int (unat d)"
    by simp_all
  have t: "uint ts < 2 ^ 62" "uint d < 2 ^ 62"
    unfolding e using assms by (metis of_nat_less_iff of_nat_numeral of_nat_power)+
  have "sint (ts - d + slack) = uint ts - uint d + 500000"
  proof -
    have "ts - d + slack = word_of_int (uint ts - uint d + 500000)"
      by simp
    moreover have "- (2 ^ 63) \<le> uint ts - uint d + 500000" "uint ts - uint d + 500000 < 2 ^ 63"
      using diff_range [OF uint_ge_0 t(1) uint_ge_0 t(2)] by simp_all
    ultimately show ?thesis
      by (simp only: sint_sbintrunc') (simp add: signed_take_bit_int_eq_self)
  qed
  then show ?thesis
    unfolding expired_def e by linarith
qed

lemma tick_loop_spec:
  assumes "sorted (map (\<lambda>t. tm_deadline (m t)) l)" "\<And>t. t \<in> set l \<Longrightarrow> unat (tm_deadline (m t)) < 2 ^ 62" "unat ts < 2 ^ 62"
  shows "tick_loop m ts l nd = (filter (\<lambda>t. expired ts (tm_deadline (m t))) l, filter (\<lambda>t. \<not> expired ts (tm_deadline (m t))) l,
    (if filter (\<lambda>t. expired ts (tm_deadline (m t))) l = [] then nd
     else case filter (\<lambda>t. \<not> expired ts (tm_deadline (m t))) l of [] \<Rightarrow> 0 | u # _ \<Rightarrow> tm_deadline (m u)))"
  using assms
proof (induction l arbitrary: nd)
  case (Cons t l)
  show ?case
  proof (cases "expired ts (tm_deadline (m t))")
    case True
    define F where "F = filter (\<lambda>t. expired ts (tm_deadline (m t))) l"
    define R where "R = filter (\<lambda>t. \<not> expired ts (tm_deadline (m t))) l"
    have ih: "tick_loop m ts l n = (F, R, (if F = [] then n else case R of [] \<Rightarrow> 0 | u # _ \<Rightarrow> tm_deadline (m u)))" for n
      unfolding F_def R_def using Cons.prems by (intro Cons.IH) simp_all
    have "F = [] \<Longrightarrow> R = l"
      unfolding F_def R_def by (simp add: filter_empty_conv filter_id_conv)
    then show ?thesis
      using True by (simp add: ih F_def [symmetric] R_def [symmetric] Let_def)
  next
    case False
    have "\<not> expired ts (tm_deadline (m u))" if "u \<in> set l" for u
      using False Cons.prems that by (auto simp: expired_iff word_le_nat_alt)
    then show ?thesis
      using False by (simp add: filter_id_conv filter_empty_conv)
  qed
qed simp

text \<open>Every deadline lies within the range in which differences are exact.\<close>

definition in_range :: "timers \<Rightarrow> bool" where
  "in_range s \<longleftrightarrow> (\<forall>t \<in> set (tm_list s). unat (tm_deadline (tms s t)) < 2 ^ 62)"

lemma timer_tick_spec:
  assumes "timers_ok s" "in_range s" "unat now < 2 ^ 62" "timer_tick now s = (fired, s')"
  shows "fired = filter (\<lambda>t. expired now (tm_deadline (tms s t))) (tm_list s) \<and>
    tm_list s' = filter (\<lambda>t. \<not> expired now (tm_deadline (tms s t))) (tm_list s) \<and> tms s' = tms s \<and> timers_ok s'"
proof -
  define E where "E = (\<lambda>t. expired now (tm_deadline (tms s t)))"
  have srt: "sorted (map (\<lambda>t. tm_deadline (tms s t)) (tm_list s))"
    using assms(1) by (simp add: timers_ok_def)
  show ?thesis
  proof (cases "next_deadline s \<noteq> 0 \<and> expired now (next_deadline s)")
    case True
    have l: "tick_loop (tms s) now (tm_list s) (next_deadline s) = (filter E (tm_list s), filter (\<lambda>t. \<not> E t) (tm_list s),
      (if filter E (tm_list s) = [] then next_deadline s
       else case filter (\<lambda>t. \<not> E t) (tm_list s) of [] \<Rightarrow> 0 | u # _ \<Rightarrow> tm_deadline (tms s u)))"
      unfolding E_def using srt assms(2,3) by (intro tick_loop_spec) (auto simp: in_range_def)
    have s': "fired = filter E (tm_list s)" "s' = s\<lparr>tm_list := filter (\<lambda>t. \<not> E t) (tm_list s),
      next_deadline := (if filter E (tm_list s) = [] then next_deadline s
       else case filter (\<lambda>t. \<not> E t) (tm_list s) of [] \<Rightarrow> 0 | u # _ \<Rightarrow> tm_deadline (tms s u))\<rparr>"
      using assms(4) True by (auto simp: timer_tick_def l)
    have "filter E (tm_list s) = [] \<Longrightarrow> filter (\<lambda>t. \<not> E t) (tm_list s) = tm_list s"
      by (simp add: filter_empty_conv filter_id_conv)
    then have "timers_ok s'"
      using assms(1) srt by (auto simp: s' timers_ok_def sorted_filter split: list.splits)
    then show ?thesis
      using s' by (simp add: E_def)
  next
    case False
    then have s': "fired = []" "s' = s"
      using assms(4) by (auto simp: timer_tick_def split: if_splits)
    have "\<not> E t" if "t \<in> set (tm_list s)" for t
    proof (cases "tm_list s")
      case (Cons u l)
      then have u: "next_deadline s = tm_deadline (tms s u)" "tm_deadline (tms s u) \<noteq> 0"
        using assms(1) by (simp_all add: timers_ok_def)
      have "tm_deadline (tms s u) \<le> tm_deadline (tms s t)"
        using srt that Cons by auto
      then show ?thesis
        using False u assms(2,3) that Cons by (auto simp: E_def expired_iff in_range_def word_le_nat_alt)
    qed (use that in simp)
    then show ?thesis
      using s' assms(1) unfolding E_def by (simp add: filter_empty_conv filter_id_conv)
  qed
qed

text \<open>C34. Starting and cancelling timers and the tick keep the timers in the order of their deadlines, with the earliest
  deadline that of the first one.\<close>

theorem timer_ops_keep_order:
  assumes "timers_ok s" "tm \<notin> set (tm_list s)" "ts + tm_period (tms s tm) \<noteq> 0" "in_range s" "unat now < 2 ^ 62"
  shows "timers_ok (snd (timer_start ts tm s)) \<and> timers_ok (timer_cancel u s) \<and> timers_ok (snd (timer_tick now s))"
  using timer_start_ok [OF assms(1-3)] timer_cancel_ok [OF assms(1)]
    timer_tick_spec [OF assms(1,4,5) surjective_pairing] by blast

definition timers0 :: timers where
  "timers0 = timers_init (\<lambda>t. \<lparr>tm_deadline = 0, tm_period = 1000000, tm_callback = 1\<rparr>)"

lemma timers0_ok: "timers_ok timers0" "in_range timers0"
  by (simp_all add: timers0_def timers_init_def timers_ok_def in_range_def)

theorem timer_ops_keep_order_witness:
  "timers_ok (snd (timer_start 5 7 timers0)) \<and> timers_ok (timer_cancel 7 timers0) \<and> timers_ok (snd (timer_tick 5 timers0))"
  by (rule timer_ops_keep_order [OF timers0_ok(1) _ _ timers0_ok(2)]) (simp_all add: timers0_def timers_init_def)

text \<open>C33. A tick makes the callbacks of exactly the timers that are due within half a millisecond, in the order of their
  deadlines, and keeps the others.\<close>

theorem timer_tick_fires_due:
  assumes "timers_ok s" "in_range s" "unat now < 2 ^ 62"
  shows "fst (timer_tick now s) = filter (\<lambda>t. unat (tm_deadline (tms s t)) \<le> unat now + 500000) (tm_list s) \<and>
    tm_list (snd (timer_tick now s)) = filter (\<lambda>t. unat (tm_deadline (tms s t)) > unat now + 500000) (tm_list s)"
proof -
  have "expired now (tm_deadline (tms s t)) \<longleftrightarrow> unat (tm_deadline (tms s t)) \<le> unat now + 500000" if "t \<in> set (tm_list s)" for t
    using assms(2,3) that by (simp add: expired_iff in_range_def)
  then show ?thesis
    using timer_tick_spec [OF assms surjective_pairing] by (auto simp: not_le intro!: filter_cong)
qed

theorem timer_tick_fires_due_witness: "fst (timer_tick 700000 (snd (timer_start 5 7 timers0))) = [7]"
proof -
  define s where "s = snd (timer_start 5 7 timers0)"
  have s: "s = \<lparr>tms = (\<lambda>t. \<lparr>tm_deadline = 0, tm_period = 1000000, tm_callback = 1\<rparr>)(7 := \<lparr>tm_deadline = 1000005, tm_period = 1000000, tm_callback = 1\<rparr>),
    tm_list = [7], next_deadline = 1000005\<rparr>"
    by (simp add: s_def timer_start_def timers0_def timers_init_def Let_def)
  have "timers_ok s" "in_range s"
    by (simp_all add: s timers_ok_def in_range_def)
  from timer_tick_fires_due [OF this, of 700000] show ?thesis
    unfolding s_def [symmetric] by (simp add: s)
qed

end
