(* ===== verification/Fd.thy ===== *)
theory Fd
  imports Prelude "HOL-Library.Multiset"
begin

text \<open>
  File descriptors (\<^verbatim>\<open>src/kernel/vfs/fd.c\<close>): the descriptors of each process, the open files they refer to and
  the reference counts of these files.  Blocks are given by the allocator, which an argument stands for: the address
  of the new block, or 0 when there is none.
\<close>

record fd_t =
  fd_id :: nat
  fd_file :: nat

record file_t =
  f_refs :: nat
  f_flags :: nat
  f_seek :: nat
  f_dentry :: nat
  f_inode :: nat
  f_data :: nat

text \<open>The part of a process that holds its descriptors.\<close>

record fd_table =
  fd_next :: nat
  fd_list :: "nat list"

record fd_state =
  fds :: "nat \<Rightarrow> fd_t"
  files :: "nat \<Rightarrow> file_t"
  procs :: "nat \<Rightarrow> fd_table"

definition empty_file :: file_t where
  "empty_file = \<lparr>f_refs = 0, f_flags = 0, f_seek = 0, f_dentry = 0, f_inode = 0, f_data = 0\<rparr>"

abbreviation add_ref :: "nat \<Rightarrow> (nat \<Rightarrow> file_t) \<Rightarrow> nat \<Rightarrow> file_t" where
  "add_ref f fs \<equiv> fs(f := (fs f)\<lparr>f_refs := f_refs (fs f) + 1\<rparr>)"

text \<open>The common end of \<open>fd_create\<close> and \<open>fd_clone\<close>: the descriptor at \<open>a\<close> of the process \<open>p\<close> refers to \<open>f\<close>.\<close>

definition fd_install :: "nat \<Rightarrow> nat \<Rightarrow> nat \<Rightarrow> fd_state \<Rightarrow> fd_state" where
  "fd_install p a f st =
    (let t = procs st p
     in st\<lparr>fds := (fds st)(a := \<lparr>fd_id = fd_next t, fd_file = f\<rparr>),
           files := add_ref f (files st),
           procs := (procs st)(p := t\<lparr>fd_next := fd_next t + 1, fd_list := a # fd_list t\<rparr>)\<rparr>)"


fun find_loop :: "(nat \<Rightarrow> fd_t) \<Rightarrow> nat \<Rightarrow> nat list \<Rightarrow> nat" where
  "find_loop m n [] = 0"
| "find_loop m n (a # as) = (if fd_id (m a) = n then a else find_loop m n as)"

definition fd_find :: "nat \<Rightarrow> nat \<Rightarrow> fd_state \<Rightarrow> nat" where
  "fd_find p n st = find_loop (fds st) n (fd_list (procs st p))"

text \<open>The file that has to be closed, or 0.\<close>

definition fd_delete :: "nat \<Rightarrow> nat \<Rightarrow> fd_state \<Rightarrow> nat \<times> fd_state" where
  "fd_delete p a st =
    (let f = fd_file (fds st a);
         refs = f_refs (files st f) - 1;
         st = st\<lparr>procs := (procs st)(p := (procs st p)\<lparr>fd_list := remove1 a (fd_list (procs st p))\<rparr>),
                 files := (files st)(f := (files st f)\<lparr>f_refs := refs\<rparr>)\<rparr>
     in (if refs = 0 then f else 0, st))"


section \<open>Descriptor numbers and reference counts\<close>

text \<open>\<open>P\<close> is the set of processes.  Every descriptor belongs to one process, under a number of its own, and the
  reference count of a file is the number of descriptors that refer to it.\<close>

definition fd_inv :: "nat set \<Rightarrow> fd_state \<Rightarrow> bool" where
  "fd_inv P st \<longleftrightarrow> finite P \<and>
    (\<forall>p \<in> P. 0 \<notin> set (fd_list (procs st p)) \<and> distinct (map (\<lambda>a. fd_id (fds st a)) (fd_list (procs st p))) \<and>
      (\<forall>a \<in> set (fd_list (procs st p)). fd_id (fds st a) < fd_next (procs st p) \<and> fd_file (fds st a) \<noteq> 0)) \<and>
    (\<forall>p \<in> P. \<forall>q \<in> P. p \<noteq> q \<longrightarrow> set (fd_list (procs st p)) \<inter> set (fd_list (procs st q)) = {}) \<and>
    (\<forall>f. f_refs (files st f) = (\<Sum>p \<in> P. length (filter (\<lambda>a. fd_file (fds st a) = f) (fd_list (procs st p)))))"

lemma fd_invD:
  assumes "fd_inv P st" "p \<in> P"
  shows "0 \<notin> set (fd_list (procs st p))" "distinct (map (\<lambda>a. fd_id (fds st a)) (fd_list (procs st p)))"
    "\<And>a. a \<in> set (fd_list (procs st p)) \<Longrightarrow> fd_id (fds st a) < fd_next (procs st p)"
    "\<And>a. a \<in> set (fd_list (procs st p)) \<Longrightarrow> fd_file (fds st a) \<noteq> 0"
  using assms by (simp_all add: fd_inv_def)

text \<open>The block \<open>a\<close> is not used by a descriptor.\<close>

definition fresh_fd :: "nat set \<Rightarrow> nat \<Rightarrow> fd_state \<Rightarrow> bool" where
  "fresh_fd P a st \<longleftrightarrow> a \<noteq> 0 \<and> (\<forall>p \<in> P. a \<notin> set (fd_list (procs st p)))"

lemma find_loop_distinct:
  "distinct (map (\<lambda>a. fd_id (m a)) as) \<Longrightarrow> a \<in> set as \<Longrightarrow> find_loop m (fd_id (m a)) as = a"
  by (induction as) auto

lemma find_loop_none: "(\<And>a. a \<in> set as \<Longrightarrow> fd_id (m a) \<noteq> n) \<Longrightarrow> find_loop m n as = 0"
  by (induction as) auto


text \<open>Deleting a descriptor of the process \<open>p\<close>.\<close>

lemma delete_inv:
  assumes "fd_inv P st" "p \<in> P" "a \<in> set (fd_list (procs st p))" "fd_delete p a st = (r, st')"
  shows "fd_inv P st'"
proof -
  define f where "f = fd_file (fds st a)"
  define n where "n = (\<lambda>q g. length (filter (\<lambda>b. fd_file (fds st b) = g) (fd_list (procs st q))))"
  have st': "fds st' = fds st" "files st' = (files st)(f := (files st f)\<lparr>f_refs := f_refs (files st f) - 1\<rparr>)"
    "procs st' = (procs st)(p := (procs st p)\<lparr>fd_list := remove1 a (fd_list (procs st p))\<rparr>)"
    using assms(4) by (auto simp: fd_delete_def Let_def f_def)
  have lists: "fd_list (procs st' q) = (if q = p then remove1 a (fd_list (procs st p)) else fd_list (procs st q))"
    "fd_next (procs st' q) = fd_next (procs st q)" for q
    by (simp_all add: st')
  have cnt: "length (filter (\<lambda>b. fd_file (fds st' b) = g) (fd_list (procs st' q))) = n q g - (if q = p \<and> g = f then 1 else 0)" for q g
    using assms(3) by (auto simp: lists st' n_def f_def filter_remove1 length_remove1)
  have pos: "0 < n p f"
    using assms(3) by (auto simp: n_def f_def filter_empty_conv)
  have refs: "f_refs (files st g) = (\<Sum>q \<in> P. n q g)" for g
    using assms(1) by (simp add: fd_inv_def n_def)
  have fin: "finite P"
    using assms(1) by (simp add: fd_inv_def)
  have "f_refs (files st' g) = (\<Sum>q \<in> P. length (filter (\<lambda>b. fd_file (fds st' b) = g) (fd_list (procs st' q))))" for g
  proof (cases "g = f")
    case True
    have "(\<Sum>q \<in> P. n q f) = n p f + (\<Sum>q \<in> P - {p}. n q f)"
      by (rule sum.remove [OF fin assms(2)])
    moreover have "(\<Sum>q \<in> P. n q f - (if q = p then 1 else 0)) = n p f - 1 + (\<Sum>q \<in> P - {p}. n q f)"
      by (subst sum.remove [OF fin assms(2)]) (auto intro!: sum.cong)
    ultimately show ?thesis
      unfolding True cnt using pos refs [of f] by (simp add: st'(2))
  next
    case False
    then show ?thesis
      unfolding cnt by (simp add: st'(2) refs)
  qed
  moreover have "0 \<notin> set (fd_list (procs st' q)) \<and> distinct (map (\<lambda>b. fd_id (fds st' b)) (fd_list (procs st' q))) \<and>
      (\<forall>b \<in> set (fd_list (procs st' q)). fd_id (fds st' b) < fd_next (procs st' q) \<and> fd_file (fds st' b) \<noteq> 0)" if "q \<in> P" for q
    using fd_invD [OF assms(1) that] notin_set_remove1
    by (auto simp: lists st'(1) distinct_map dest: set_remove1_subset [THEN subsetD] intro: inj_on_subset [OF _ set_remove1_subset])
  moreover have "set (fd_list (procs st' q)) \<inter> set (fd_list (procs st' r)) = {}" if "q \<in> P" "r \<in> P" "q \<noteq> r" for q r
  proof -
    have "set (fd_list (procs st' x)) \<subseteq> set (fd_list (procs st x))" for x
      by (simp add: lists set_remove1_subset)
    moreover have "set (fd_list (procs st q)) \<inter> set (fd_list (procs st r)) = {}"
      using assms(1) that by (simp add: fd_inv_def)
    ultimately show ?thesis by blast
  qed
  ultimately show ?thesis
    using fin unfolding fd_inv_def by blast
qed


lemma install_find:
  assumes "fd_inv P st" "p \<in> P" "fresh_fd P a st"
  shows "fd_find p (fd_next (procs st p)) (fd_install p a f st) = a"
  by (simp add: fd_find_def fd_install_def Let_def)


text \<open>Two processes; descriptor 11 of the first one refers to the file 21.\<close>

definition fd0 :: fd_state where
  "fd0 = \<lparr>fds = (\<lambda>a. \<lparr>fd_id = 0, fd_file = 21\<rparr>), files = (\<lambda>f. if f = 21 then empty_file\<lparr>f_refs := 1\<rparr> else empty_file),
    procs = (\<lambda>p. if p = 1 then \<lparr>fd_next = 1, fd_list = [11]\<rparr> else \<lparr>fd_next = 0, fd_list = []\<rparr>)\<rparr>"

lemma fd0_inv: "fd_inv {1, 2} fd0"
  by (simp add: fd_inv_def fd0_def empty_file_def)


text \<open>C32. Deleting a descriptor hands the file back for closing exactly when no descriptor of any process refers to it
  any more, and a descriptor is found under its number, and only under it, until it is deleted.\<close>

theorem fd_delete_last_reference:
  assumes "fd_inv P st" "p \<in> P" "a \<in> set (fd_list (procs st p))" "fd_delete p a st = (r, st')"
  shows "fd_find p (fd_id (fds st a)) st = a \<and> fd_find p (fd_id (fds st a)) st' = 0 \<and>
    r = (if \<exists>q \<in> P. \<exists>b \<in> set (fd_list (procs st' q)). fd_file (fds st' b) = fd_file (fds st a) then 0 else fd_file (fds st a))"
proof -
  define f where "f = fd_file (fds st a)"
  have st': "fds st' = fds st" "procs st' = (procs st)(p := (procs st p)\<lparr>fd_list := remove1 a (fd_list (procs st p))\<rparr>)"
    "f_refs (files st' f) = f_refs (files st f) - 1" "r = (if f_refs (files st' f) = 0 then f else 0)"
    using assms(4) by (auto simp: fd_delete_def Let_def f_def)
  note inv = fd_invD [OF assms(1,2)]
  have "find_loop (fds st) (fd_id (fds st a)) (remove1 a (fd_list (procs st p))) = 0"
    using inv(2) assms(3) by (intro find_loop_none) (auto simp: distinct_map inj_on_def dest: set_remove1_subset [THEN subsetD])
  then have find: "fd_find p (fd_id (fds st a)) st = a" "fd_find p (fd_id (fds st a)) st' = 0"
    using find_loop_distinct [OF inv(2) assms(3)] by (simp_all add: fd_find_def st')
  have "fd_inv P st'"
    by (rule delete_inv [OF assms])
  then have "f_refs (files st' f) = 0 \<longleftrightarrow> (\<forall>q \<in> P. filter (\<lambda>b. fd_file (fds st' b) = f) (fd_list (procs st' q)) = [])"
    by (simp add: fd_inv_def)
  then have "f_refs (files st' f) = 0 \<longleftrightarrow> \<not> (\<exists>q \<in> P. \<exists>b \<in> set (fd_list (procs st' q)). fd_file (fds st' b) = f)"
    by (auto simp: filter_empty_conv)
  then show ?thesis
    using find st'(4) unfolding f_def by auto
qed

theorem fd_delete_last_reference_witness: "fst (fd_delete 1 11 fd0) = 21"
  using fd_delete_last_reference [OF fd0_inv _ _ surjective_pairing, of 1 11]
  by (simp add: fd0_def fd_delete_def)

end
