(* ===== verification/Pipes.thy ===== *)
theory Pipes
  imports Prelude "HOL-Library.Monad_Syntax"
begin

text \<open>
  Pipes: the ring buffer of \<^verbatim>\<open>src/kernel/vfs/pipes.c\<close> and the file operations of
  \<^verbatim>\<open>src/kernel/vfs/pipefs.c\<close>.  A call that has to sleep ends with a result that says what it waits for, and a
  second function continues it when the thread is woken up.  The value \<open>None\<close> is a call that waits for the mutex
  of its side of the pipe.
\<close>

definition PIPE_BUFFER_SIZE :: nat where
  "PIPE_BUFFER_SIZE = 4 * 1024 + 1"

definition O_READ :: nat where "O_READ = 0x01"
definition O_WRITE :: nat where "O_WRITE = 0x02"
definition O_NONBLOCK :: nat where "O_NONBLOCK = 0x40"

text \<open>One side of a pipe: its flags, whether its mutex is held, and the threads that sleep in its queue.\<close>

record pipe_io_t =
  io_flags :: nat
  io_locked :: bool
  io_queue :: "nat list"

record pipe_t =
  p_rd :: pipe_io_t
  p_wr :: pipe_io_t
  p_head :: nat
  p_tail :: nat
  p_data :: "u8 list"

definition nonblock :: "pipe_io_t \<Rightarrow> bool" where
  "nonblock io \<longleftrightarrow> io_flags io AND O_NONBLOCK \<noteq> 0"

definition pipe_create :: "nat \<Rightarrow> nat \<Rightarrow> pipe_t" where
  "pipe_create rflags wflags =
    \<lparr>p_rd = \<lparr>io_flags = rflags, io_locked = False, io_queue = []\<rparr>,
     p_wr = \<lparr>io_flags = wflags, io_locked = False, io_queue = []\<rparr>,
     p_head = 0, p_tail = 0, p_data = replicate PIPE_BUFFER_SIZE 0\<rparr>"

definition pipe_delete :: "pipe_t \<Rightarrow> int" where
  "pipe_delete p =
    (if length (io_queue (p_rd p)) > 0 then - EBUSY
     else if length (io_queue (p_wr p)) > 0 then - EBUSY else 0)"

definition pipe_empty :: "pipe_t \<Rightarrow> bool" where
  "pipe_empty p \<longleftrightarrow> p_head p = p_tail p"

abbreviation upd_rd :: "(pipe_io_t \<Rightarrow> pipe_io_t) \<Rightarrow> pipe_t \<Rightarrow> pipe_t" where
  "upd_rd f p \<equiv> p\<lparr>p_rd := f (p_rd p)\<rparr>"

abbreviation upd_wr :: "(pipe_io_t \<Rightarrow> pipe_io_t) \<Rightarrow> pipe_t \<Rightarrow> pipe_t" where
  "upd_wr f p \<equiv> p\<lparr>p_wr := f (p_wr p)\<rparr>"

abbreviation "wake io \<equiv> io\<lparr>io_queue := []\<rparr>"
abbreviation "unlock io \<equiv> io\<lparr>io_locked := False\<rparr>"

section \<open>Writing\<close>

datatype wr_result = Written int | Write_Sleeps "u8 list" nat

definition put_byte :: "u8 \<Rightarrow> pipe_t \<Rightarrow> pipe_t" where
  "put_byte b p = p\<lparr>p_data := (p_data p)[p_head p := b], p_head := (p_head p + 1) mod PIPE_BUFFER_SIZE\<rparr>"

fun write_loop :: "nat \<Rightarrow> u8 list \<Rightarrow> nat \<Rightarrow> pipe_t \<Rightarrow> wr_result \<times> pipe_t" where
  "write_loop self [] len p = (Written (int len), upd_wr unlock (upd_rd wake p))"
| "write_loop self (b # buf) len p =
    (if (p_head p + 1) mod PIPE_BUFFER_SIZE = p_tail p then
       if nonblock (p_wr p) then (Written (int len), upd_wr unlock (upd_rd wake p))
       else (Write_Sleeps (b # buf) len, upd_wr (\<lambda>io. io\<lparr>io_queue := io_queue io @ [self]\<rparr>) (upd_rd wake p))
     else write_loop self buf (len + 1) (put_byte b p))"

definition pipe_write :: "nat \<Rightarrow> u8 list \<Rightarrow> pipe_t \<Rightarrow> (wr_result \<times> pipe_t) option" where
  "pipe_write self buf p =
    (if io_locked (p_wr p) then if nonblock (p_wr p) then Some (Written (- EBUSY), p) else None
     else Some (write_loop self buf 0 (upd_wr (\<lambda>io. io\<lparr>io_locked := True\<rparr>) p)))"

text \<open>A sleeping writer is woken up, with a signal or without.  The buffer is not tested again.\<close>

fun write_resume :: "nat \<Rightarrow> bool \<Rightarrow> wr_result \<Rightarrow> pipe_t \<Rightarrow> wr_result \<times> pipe_t" where
  "write_resume self intr (Write_Sleeps (b # buf) len) p =
    (if intr then (Written (- EINTR), upd_wr unlock p) else write_loop self buf (len + 1) (put_byte b p))"
| "write_resume self intr r p = (r, p)"

section \<open>Reading\<close>

datatype rd_result = Read int "u8 list" | Read_Sleeps nat

fun read_loop :: "nat \<Rightarrow> u8 list \<Rightarrow> pipe_t \<Rightarrow> rd_result \<times> pipe_t" where
  "read_loop 0 acc p = (Read (int (length acc)) acc, upd_rd unlock (upd_wr wake p))"
| "read_loop (Suc n) acc p =
    (if p_head p = p_tail p then (Read (int (length acc)) acc, upd_rd unlock (upd_wr wake p))
     else read_loop n (acc @ [p_data p ! p_tail p]) (p\<lparr>p_tail := (p_tail p + 1) mod PIPE_BUFFER_SIZE\<rparr>))"

definition pipe_read :: "nat \<Rightarrow> nat \<Rightarrow> pipe_t \<Rightarrow> (rd_result \<times> pipe_t) option" where
  "pipe_read self maxlen p =
    (if io_locked (p_rd p) then if nonblock (p_rd p) then Some (Read (- EBUSY) [], p) else None
     else let p = upd_rd (\<lambda>io. io\<lparr>io_locked := True\<rparr>) p
          in if p_head p = p_tail p then
               if nonblock (p_rd p) then Some (Read 0 [], upd_rd unlock p)
               else Some (Read_Sleeps maxlen, upd_rd (\<lambda>io. io\<lparr>io_queue := io_queue io @ [self]\<rparr>) p)
             else Some (read_loop maxlen [] p))"

fun read_resume :: "bool \<Rightarrow> rd_result \<Rightarrow> pipe_t \<Rightarrow> rd_result \<times> pipe_t" where
  "read_resume intr (Read_Sleeps maxlen) p =
    (if intr then (Read (- EINTR) [], upd_rd unlock p) else read_loop maxlen [] p)"
| "read_resume intr r p = (r, p)"

section \<open>File operations (pipefs.c)\<close>

text \<open>The two files of a pipe, 0 once they are closed, and whether the pipe was freed.\<close>

record pipefs_t =
  fs_pipe :: pipe_t
  fs_rd :: nat
  fs_wr :: nat
  fs_freed :: bool

definition pipefs_read :: "nat \<Rightarrow> nat \<Rightarrow> pipefs_t \<Rightarrow> (rd_result \<times> pipefs_t) option" where
  "pipefs_read self n fs =
    (if fs_wr fs = 0 \<and> pipe_empty (fs_pipe fs) then Some (Read 0 [], fs)
     else do { (r, p) \<leftarrow> pipe_read self n (fs_pipe fs); Some (r, fs\<lparr>fs_pipe := p\<rparr>) })"

definition pipefs_write :: "nat \<Rightarrow> u8 list \<Rightarrow> pipefs_t \<Rightarrow> (wr_result \<times> pipefs_t) option" where
  "pipefs_write self buf fs =
    (if fs_rd fs = 0 then Some (Written (- EPIPE), fs)
     else do { (r, p) \<leftarrow> pipe_write self buf (fs_pipe fs); Some (r, fs\<lparr>fs_pipe := p\<rparr>) })"

definition pipefs_close :: "nat \<Rightarrow> nat \<Rightarrow> pipefs_t \<Rightarrow> pipefs_t option" where
  "pipefs_close self file fs = do {
     let fs = (if file = fs_rd fs then fs\<lparr>fs_rd := 0\<rparr> else fs);
     fs \<leftarrow> (if file = fs_wr fs then
              let fs = fs\<lparr>fs_wr := 0\<rparr>
              in if fs_rd fs \<noteq> 0
                 then do { (r, p) \<leftarrow> pipe_write self [] (fs_pipe fs); Some (fs\<lparr>fs_pipe := p\<rparr>) }
                 else Some fs
            else Some fs);
     Some (if fs_rd fs = 0 \<and> fs_wr fs = 0 then fs\<lparr>fs_freed := True\<rparr> else fs)
   }"

text \<open>\<open>vfs_mkpipe\<close> once its allocations succeeded: \<open>rd\<close> and \<open>wr\<close> are the new files.\<close>

definition vfs_mkpipe :: "nat \<Rightarrow> nat \<Rightarrow> pipefs_t" where
  "vfs_mkpipe rd wr = \<lparr>fs_pipe = pipe_create 0 0, fs_rd = rd, fs_wr = wr, fs_freed = False\<rparr>"

section \<open>The buffer is a bounded queue\<close>

definition pipe_ok :: "pipe_t \<Rightarrow> bool" where
  "pipe_ok p \<longleftrightarrow> p_head p < PIPE_BUFFER_SIZE \<and> p_tail p < PIPE_BUFFER_SIZE \<and> length (p_data p) = PIPE_BUFFER_SIZE"

definition fill :: "pipe_t \<Rightarrow> nat" where
  "fill p = (p_head p + PIPE_BUFFER_SIZE - p_tail p) mod PIPE_BUFFER_SIZE"

definition contents :: "pipe_t \<Rightarrow> u8 list" where
  "contents p = map (\<lambda>i. p_data p ! ((p_tail p + i) mod PIPE_BUFFER_SIZE)) [0..<fill p]"

lemma length_contents [simp]: "length (contents p) = fill p"
  by (simp add: contents_def)

lemma PIPE_BUFFER_SIZE_pos: "0 < PIPE_BUFFER_SIZE"
  by (simp add: PIPE_BUFFER_SIZE_def)

text \<open>Arithmetic in a ring of size \<open>n\<close>.\<close>

lemma ring_sub: "h < n \<Longrightarrow> t < n \<Longrightarrow> (h + n - t) mod n = (if t \<le> h then h - t else h + n - (t :: nat))"
  by (auto simp: le_mod_geq)

lemma ring_suc: "h < n \<Longrightarrow> Suc h mod n = (if Suc h < n then Suc h else 0)"
  by (cases "Suc h = n") auto



lemma fill_zero: "pipe_ok p \<Longrightarrow> fill p = 0 \<longleftrightarrow> p_head p = p_tail p"
  by (auto simp: fill_def pipe_ok_def ring_sub)



lemma put_byte_fill:
  "pipe_ok p \<Longrightarrow> fill (put_byte b p) = (if fill p + 1 = PIPE_BUFFER_SIZE then 0 else fill p + 1)"
  by (auto simp: fill_def pipe_ok_def put_byte_def ring_sub ring_suc split: if_splits)




text \<open>Changes of the two sides leave the buffer alone.\<close>

lemma contents_io [simp]: "contents (p\<lparr>p_rd := a\<rparr>) = contents p" "contents (p\<lparr>p_wr := a\<rparr>) = contents p"
  "pipe_ok (p\<lparr>p_rd := a\<rparr>) = pipe_ok p" "pipe_ok (p\<lparr>p_wr := a\<rparr>) = pipe_ok p"
  "fill (p\<lparr>p_rd := a\<rparr>) = fill p" "fill (p\<lparr>p_wr := a\<rparr>) = fill p"
  by (simp_all add: contents_def pipe_ok_def fill_def)







text \<open>C30. A writer that sleeps because the pipe is full is woken up by a read of no bytes, which takes nothing out;
  the writer does not look again and stores its next byte: if it is its last one, the indices become equal and all
  4096 bytes in the pipe are lost.\<close>

theorem pipe_overrun:
  assumes "pipe_ok p" "fill p = PIPE_BUFFER_SIZE - 1" "\<not> io_locked (p_rd p)" "io_queue (p_wr p) = [w]"
  shows "\<exists>p1 p2. pipe_read self 0 p = Some (Read 0 [], p1) \<and> io_queue (p_wr p1) = [] \<and> contents p1 = contents p \<and>
    write_resume w False (Write_Sleeps [b] n) p1 = (Written (int (n + 1)), p2) \<and> contents p2 = []"
proof -
  have ne: "p_head p \<noteq> p_tail p"
    using fill_zero [OF assms(1)] assms(2) by (simp add: PIPE_BUFFER_SIZE_def)
  define p1 where "p1 = upd_rd unlock (upd_wr wake (upd_rd (\<lambda>io. io\<lparr>io_locked := True\<rparr>) p))"
  have p1: "pipe_read self 0 p = Some (Read 0 [], p1)"
    using assms(3) ne by (simp add: pipe_read_def p1_def)
  have ok: "pipe_ok p1" "fill p1 = PIPE_BUFFER_SIZE - 1" "contents p1 = contents p"
    using assms(1,2) by (simp_all add: p1_def)
  have "fill (put_byte b p1) = 0"
    using put_byte_fill [OF ok(1), of b] ok(2) by (simp add: PIPE_BUFFER_SIZE_def)
  then have "contents (put_byte b p1) = []"
    by (simp add: contents_def)
  then have "contents (upd_wr unlock (upd_rd wake (put_byte b p1))) = []"
    by simp
  then show ?thesis
    using p1 ok(3) by (simp add: p1_def)
qed

definition full_pipe :: pipe_t where
  "full_pipe = (pipe_create 0 0)\<lparr>p_head := PIPE_BUFFER_SIZE - 1,
     p_wr := \<lparr>io_flags = 0, io_locked = True, io_queue = [2]\<rparr>\<rparr>"

theorem pipe_overrun_witness:
  "\<exists>p1 r p2. pipe_read 1 0 full_pipe = Some (Read 0 [], p1) \<and> write_resume 2 False (Write_Sleeps [9] 5) p1 = (r, p2) \<and>
    contents p2 = []"
proof -
  have "(PIPE_BUFFER_SIZE - 1 + PIPE_BUFFER_SIZE - 0) mod PIPE_BUFFER_SIZE = PIPE_BUFFER_SIZE - 1"
    using PIPE_BUFFER_SIZE_pos by (subst ring_sub) auto
  then have "pipe_ok full_pipe" "fill full_pipe = PIPE_BUFFER_SIZE - 1" "\<not> io_locked (p_rd full_pipe)" "io_queue (p_wr full_pipe) = [2]"
    using PIPE_BUFFER_SIZE_pos by (simp_all add: full_pipe_def pipe_create_def pipe_ok_def fill_def)
  from pipe_overrun [OF this, of 1 9 5] obtain p1 p2 where
    "pipe_read 1 0 full_pipe = Some (Read 0 [], p1)" "contents p2 = []"
    "write_resume 2 False (Write_Sleeps [9] 5) p1 = (Written (int (5 + 1)), p2)"
    by (elim exE conjE)
  then show ?thesis
    by (intro exI conjI)
qed

end
