(* ===== verification/Sched.thy ===== *)
theory Sched
  imports Prelude "HOL-Library.Monad_Syntax" "HOL-Library.Multiset"
begin

text \<open>
  The per-core scheduler, threads, wait queues and mutexes of \<^verbatim>\<open>src/kernel/sched\<close>.  Threads, wait queues
  and mutexes live in stores indexed by their addresses (0 is the null pointer); the intrusive lists that link
  them are HOL lists of addresses, which is what the list operations refine.  The value \<open>None\<close> stands for a
  null pointer access or for a loop that never ends, such as spinning on a lock that nobody releases.
  Reading the clock is an argument, and the registers of the processor that the code writes are fields of
  the core.
\<close>

section \<open>Types (types.h, scheduler.h, mutex.h)\<close>

datatype state_t = READY | RUNNING | SLEEPING | BLOCKING | TERMINATED

datatype priority_t = TPR_IDLE | TPR_LOW | TPR_MID | TPR_HIGH | TPR_SRT

primrec prio_num :: "priority_t \<Rightarrow> nat" where
  "prio_num TPR_IDLE = 0"
| "prio_num TPR_LOW = 1"
| "prio_num TPR_MID = 2"
| "prio_num TPR_HIGH = 3"
| "prio_num TPR_SRT = 4"

definition SIGEXIT :: u64 where "SIGEXIT = 1"
definition SIGTERM :: u64 where "SIGTERM = 2"
definition SIGINTR :: u64 where "SIGINTR = 4"

record stack_t =
  r15 :: u64
  r14 :: u64
  r13 :: u64
  r12 :: u64
  r11 :: u64
  r10 :: u64
  r9 :: u64
  r8 :: u64
  rbp :: u64
  rsi :: u64
  rdi :: u64
  rdx :: u64
  rcx :: u64
  rbx :: u64
  rax :: u64
  rip :: u64
  seg_cs :: u64
  rflags :: u64
  stk_rsp :: u64
  seg_ss :: u64

record wq_t =
  wq_spin :: bool
  wq_count :: nat
  wq_owner :: nat
  wq_list :: "nat list"

record thread_t =
  t_tid :: nat
  t_state :: state_t
  t_priority :: priority_t
  t_max_count :: nat
  t_time_used :: u64
  t_xstate :: u64
  t_rsp0 :: u64
  t_rsp :: u64
  t_parent :: nat
  t_wq :: nat
  t_lock :: nat
  t_yield :: bool
  t_signals :: u64
  sig_recv :: bool
  sig_wait :: bool
  gs_krsp :: u64
  gs_ursp :: u64

record mutex_t =
  mx_queue :: nat
  mx_free :: bool

record scheduler_t =
  s_rsp :: u64
  s_xstate :: u64
  s_apic_id :: nat
  s_frequency :: nat
  s_tsc0 :: u64
  s_tsc1 :: u64
  s_tsc2 :: u64
  s_load :: u32
  s_idle :: "nat list"
  s_srt :: "nat list"
  s_std :: "nat list list"
  s_index :: nat
  s_count :: nat
  thread_current :: nat
  thread_idle :: nat
  tss_rsp0 :: u64
  cpu_pml4 :: nat
  cpu_gs :: nat
  cpu_timer :: nat

text \<open>The stores, the cores, the list of dead threads, the address space of each process and the log of
  rescheduling interrupts sent to other cores.\<close>

record sched_state =
  thr :: "nat \<Rightarrow> thread_t"
  wqs :: "nat \<Rightarrow> wq_t"
  mutexes :: "nat \<Rightarrow> mutex_t"
  stacks :: "u64 \<Rightarrow> stack_t"
  sdata :: "scheduler_t list"
  dead :: "nat list"
  pml4_of :: "nat \<Rightarrow> nat"
  ipis :: "nat list"

abbreviation upd_thr :: "nat \<Rightarrow> (thread_t \<Rightarrow> thread_t) \<Rightarrow> sched_state \<Rightarrow> sched_state" where
  "upd_thr t f st \<equiv> st\<lparr>thr := (thr st)(t := f (thr st t))\<rparr>"

abbreviation upd_wq :: "nat \<Rightarrow> (wq_t \<Rightarrow> wq_t) \<Rightarrow> sched_state \<Rightarrow> sched_state" where
  "upd_wq q f st \<equiv> st\<lparr>wqs := (wqs st)(q := f (wqs st q))\<rparr>"

abbreviation upd_core :: "nat \<Rightarrow> (scheduler_t \<Rightarrow> scheduler_t) \<Rightarrow> sched_state \<Rightarrow> sched_state" where
  "upd_core k f st \<equiv> st\<lparr>sdata := (sdata st)[k := f (sdata st ! k)]\<rparr>"

section \<open>The scheduler (scheduler.c)\<close>

definition scheduler_set_thread :: "sched_state \<Rightarrow> scheduler_t \<Rightarrow> nat \<Rightarrow> scheduler_t" where
  "scheduler_set_thread st s t =
    s\<lparr>thread_current := t, tss_rsp0 := t_rsp0 (thr st t), s_xstate := t_xstate (thr st t), cpu_gs := t\<rparr>"

definition scheduler_get_thread :: "sched_state \<Rightarrow> nat \<Rightarrow> nat" where
  "scheduler_get_thread st k = thread_current (sdata st ! k)"

text \<open>The endless loop of \<open>scheduler_next\<close> that looks for the next queue with a thread in it.\<close>

partial_function (option) next_index :: "nat list list \<Rightarrow> nat \<Rightarrow> nat option" where
  "next_index qs i = (if qs ! i \<noteq> [] then Some i else next_index qs ((i + 1) mod 9))"

text \<open>The choice of \<open>scheduler_next\<close> on the queues of one core: the thread, the timer ticks and the core.\<close>

definition pick :: "scheduler_t \<Rightarrow> (nat \<times> nat \<times> scheduler_t) option" where
  "pick s =
    (if s_srt s \<noteq> [] then Some (hd (s_srt s), 0, s\<lparr>s_srt := tl (s_srt s)\<rparr>)
     else if s_count s \<noteq> 0 then do {
       i \<leftarrow> next_index (s_std s) (s_index s);
       let q = s_std s ! i;
       Some (hd q, s_frequency s div 100,
         s\<lparr>s_index := i, s_std := (s_std s)[i := tl q], s_count := s_count s - 1\<rparr>)
     }
     else if s_idle s \<noteq> [] then Some (hd (s_idle s), s_frequency s div 100, s\<lparr>s_idle := tl (s_idle s)\<rparr>)
     else Some (thread_idle s, 0, s))"

definition scheduler_next :: "sched_state \<Rightarrow> nat \<Rightarrow> (nat \<times> sched_state) option" where
  "scheduler_next st k = do {
     (t, ticks, s) \<leftarrow> pick (sdata st ! k);
     Some (ticks, st\<lparr>sdata := (sdata st)[k := scheduler_set_thread st s t]\<rparr>)
   }"

definition scheduler_elapsed_time :: "u64 \<Rightarrow> scheduler_t \<Rightarrow> u64 \<times> scheduler_t" where
  "scheduler_elapsed_time now s = (now - s_tsc0 s, s\<lparr>s_tsc0 := now\<rparr>)"

definition scheduler_update_load :: "sched_state \<Rightarrow> u64 \<Rightarrow> scheduler_t \<Rightarrow> scheduler_t" where
  "scheduler_update_load st now s =
    (let diff = now - s_tsc1 s
     in if diff > 100000000 then
          let new = t_time_used (thr st (thread_idle s));
              load = (new - s_tsc2 s) * 1000 div diff
          in s\<lparr>s_tsc1 := now, s_tsc2 := new, s_load := ucast (1000 - load)\<rparr>
        else s)"

fun select_loop :: "(nat \<Rightarrow> thread_t) \<Rightarrow> nat \<Rightarrow> scheduler_t list \<Rightarrow> nat \<Rightarrow> nat \<Rightarrow> nat \<Rightarrow> nat" where
  "select_loop ts t [] i core m = core"
| "select_loop ts t (s # ss) i core m =
    (let ct = thread_current s
     in if ct = 0 then select_loop ts t ss (i + 1) core m
        else if ct = t \<and> s_count s = 0 then i
        else if t_priority (ts ct) = TPR_IDLE then i
        else if s_count s < m then select_loop ts t ss (i + 1) i (s_count s)
        else select_loop ts t ss (i + 1) core m)"

definition scheduler_select :: "sched_state \<Rightarrow> nat \<Rightarrow> nat" where
  "scheduler_select st t = select_loop (thr st) t (sdata st) 0 0 (2 ^ 32 - 1)"

text \<open>The queue operations of \<open>scheduler_append\<close> on the chosen core.\<close>

definition enqueue :: "priority_t \<Rightarrow> nat \<Rightarrow> nat \<Rightarrow> scheduler_t \<Rightarrow> scheduler_t" where
  "enqueue pn mc t s =
    (if pn = TPR_SRT then s\<lparr>s_srt := s_srt s @ [t]\<rparr>
     else if pn = TPR_IDLE then s\<lparr>s_idle := s_idle s @ [t]\<rparr>
     else let index = (s_index s + mc) mod 9
          in s\<lparr>s_std := (s_std s)[index := s_std s ! index @ [t]], s_count := s_count s + 1\<rparr>)"

definition scheduler_append :: "sched_state \<Rightarrow> nat \<Rightarrow> sched_state option" where
  "scheduler_append st t =
    (let k = scheduler_select st t; s = sdata st ! k; ct = thread_current s
     in if k \<ge> length (sdata st) \<or> ct = 0 then None
        else let pc = t_priority (thr st ct);
                 pn = t_priority (thr st t);
                 preempt = (if pn = TPR_SRT then prio_num pc < prio_num pn
                            else if pn = TPR_IDLE then False else pc = TPR_IDLE);
                 st = st\<lparr>sdata := (sdata st)[k := enqueue pn (t_max_count (thr st t)) t s]\<rparr>
             in Some (if preempt then st\<lparr>ipis := ipis st @ [s_apic_id s]\<rparr> else st))"

text \<open>The part of \<open>schedule_handler\<close> that puts the interrupted thread away.\<close>

definition retire :: "u64 \<Rightarrow> u64 \<Rightarrow> nat \<Rightarrow> sched_state \<Rightarrow> sched_state option" where
  "retire rsp elapsed k st =
    (let t = thread_current (sdata st ! k);
         st = upd_thr t (\<lambda>x. x\<lparr>t_rsp := rsp, t_time_used := t_time_used x + elapsed\<rparr>) st
     in do {
       st \<leftarrow> (if t = thread_idle (sdata st ! k) then Some (upd_thr t (\<lambda>x. x\<lparr>t_state := SLEEPING\<rparr>) st)
              else if t_state (thr st t) = RUNNING
              then scheduler_append (upd_thr t (\<lambda>x. x\<lparr>t_state := READY\<rparr>) st) t
              else Some st);
       let st = (if t_lock (thr st t) \<noteq> 0
                 then upd_thr t (\<lambda>x. x\<lparr>t_lock := 0\<rparr>) (upd_wq (t_lock (thr st t)) (\<lambda>q. q\<lparr>wq_spin := False\<rparr>) st)
                 else st);
       Some (upd_thr t (\<lambda>x. x\<lparr>t_yield := False\<rparr>) st)
     })"

text \<open>Pending signals redirect a thread that was interrupted in user mode; \<open>exit_proc\<close> and \<open>exit_thr\<close> are the
  addresses of \<open>process_exit\<close> and \<open>thread_exit\<close>.\<close>

definition deliver :: "u64 \<Rightarrow> u64 \<Rightarrow> thread_t \<Rightarrow> stack_t \<Rightarrow> stack_t" where
  "deliver exit_proc exit_thr x stk =
    (if t_signals x \<noteq> 0 \<and> seg_cs stk = 0x23 then
       if t_signals x AND SIGEXIT \<noteq> 0
       then stk\<lparr>stk_rsp := t_rsp0 x, rip := exit_proc, rdi := 137, seg_ss := 0x08, seg_cs := 0x10\<rparr>
       else if t_signals x AND SIGTERM \<noteq> 0
       then stk\<lparr>stk_rsp := t_rsp0 x, rip := exit_thr, seg_ss := 0x08, seg_cs := 0x10\<rparr>
       else stk
     else stk)"

definition schedule_handler ::
  "u64 \<Rightarrow> u64 \<Rightarrow> nat \<Rightarrow> u64 \<Rightarrow> u64 \<Rightarrow> u64 \<Rightarrow> sched_state \<Rightarrow> (u64 \<times> sched_state) option" where
  "schedule_handler exit_proc exit_thr k now1 now2 rsp st =
    (let (elapsed, s) = scheduler_elapsed_time now1 (sdata st ! k);
         st = st\<lparr>sdata := (sdata st)[k := s]\<rparr>;
         t = thread_current s;
         old_pml4 = (if t \<noteq> 0 then pml4_of st (t_parent (thr st t)) else 0)
     in do {
       st \<leftarrow> (if t \<noteq> 0 then retire rsp elapsed k st else Some st);
       let st = upd_core k (scheduler_update_load st now2) st;
       (ticks, st) \<leftarrow> scheduler_next st k;
       let t = thread_current (sdata st ! k);
       let st = upd_thr t (\<lambda>x. x\<lparr>t_state := RUNNING\<rparr>) st;
       let rsp = t_rsp (thr st t);
       let new_pml4 = pml4_of st (t_parent (thr st t));
       let st = st\<lparr>stacks := (stacks st)(rsp := deliver exit_proc exit_thr (thr st t) (stacks st rsp))\<rparr>;
       let st = (if old_pml4 \<noteq> new_pml4 then upd_core k (\<lambda>s. s\<lparr>cpu_pml4 := new_pml4\<rparr>) st else st);
       let st = (if ticks \<noteq> 0 then upd_core k (\<lambda>s. s\<lparr>cpu_timer := ticks\<rparr>) st else st);
       Some (rsp, st)
     })"

text \<open>The fields of one core; \<open>rsp\<close> is the stack page of the core, \<open>frequency\<close> the calibrated timer.\<close>

definition scheduler_init_core :: "nat \<Rightarrow> nat \<Rightarrow> nat \<Rightarrow> u64 \<Rightarrow> scheduler_t \<Rightarrow> scheduler_t" where
  "scheduler_init_core apic_id frequency idle_thread rsp s =
    s\<lparr>s_rsp := rsp + 4096, s_xstate := rsp, s_apic_id := apic_id, s_frequency := frequency, thread_idle := idle_thread,
      s_idle := [], s_srt := [], s_std := replicate 9 []\<rparr>"

section \<open>Wait queues (wq.c)\<close>

definition wq_init :: wq_t where
  "wq_init = \<lparr>wq_spin = False, wq_count = 0, wq_owner = 0, wq_list = []\<rparr>"

text \<open>The lock of a queue is recursive: its owner only counts.  Another thread spins while the lock is held.\<close>

definition wq_lock :: "nat \<Rightarrow> nat \<Rightarrow> sched_state \<Rightarrow> sched_state option" where
  "wq_lock self q st =
    (if wq_owner (wqs st q) = self then Some (upd_wq q (\<lambda>w. w\<lparr>wq_count := wq_count w + 1\<rparr>) st)
     else if wq_spin (wqs st q) then None
     else Some (upd_wq q (\<lambda>w. w\<lparr>wq_spin := True, wq_owner := self, wq_count := 1\<rparr>) st))"

definition wq_unlock :: "nat \<Rightarrow> sched_state \<Rightarrow> sched_state" where
  "wq_unlock q st =
    (let st = upd_wq q (\<lambda>w. w\<lparr>wq_count := wq_count w - 1\<rparr>) st
     in if wq_count (wqs st q) = 0 then upd_wq q (\<lambda>w. w\<lparr>wq_owner := 0, wq_spin := False\<rparr>) st else st)"


text \<open>The rest of \<open>wq_wait\<close>, once the thread runs again: its status.\<close>

definition wq_resume :: "nat \<Rightarrow> sched_state \<Rightarrow> bool \<times> sched_state" where
  "wq_resume self st =
    (if t_signals (thr st self) AND SIGINTR \<noteq> 0
     then (True, upd_thr self (\<lambda>x. x\<lparr>t_signals := t_signals x AND NOT SIGINTR\<rparr>) st)
     else (False, st))"

definition make_ready :: "nat \<Rightarrow> sched_state \<Rightarrow> sched_state option" where
  "make_ready t st = scheduler_append (upd_thr t (\<lambda>x. x\<lparr>t_state := READY, t_wq := 0\<rparr>) st) t"

fun wake_loop :: "nat list \<Rightarrow> sched_state \<Rightarrow> sched_state option" where
  "wake_loop [] st = Some st"
| "wake_loop (t # ts) st = do { st \<leftarrow> make_ready t st; wake_loop ts st }"

definition wq_wake :: "nat \<Rightarrow> nat \<Rightarrow> sched_state \<Rightarrow> (nat \<times> sched_state) option" where
  "wq_wake self q st = do {
     st \<leftarrow> wq_lock self q st;
     let ts = wq_list (wqs st q);
     st \<leftarrow> wake_loop ts (upd_wq q (\<lambda>w. w\<lparr>wq_list := []\<rparr>) st);
     Some (length ts, wq_unlock q st)
   }"


definition wq_size :: "wq_t \<Rightarrow> nat" where
  "wq_size w = length (wq_list w)"


section \<open>Mutexes (mutex.c)\<close>






section \<open>Threads (threads.c, kthreads.c)\<close>

abbreviation "STACK_SIZE \<equiv> 4096 :: u64"


definition thread_priority :: "priority_t \<Rightarrow> thread_t \<Rightarrow> thread_t" where
  "thread_priority p x =
    x\<lparr>t_priority := p,
      t_max_count := (if p = TPR_LOW then 8 else if p = TPR_MID then 4 else if p = TPR_HIGH then 2 else 0)\<rparr>"

text \<open>\<open>thread_exit\<close> before it yields for the last time.\<close>

definition thread_exit :: "nat \<Rightarrow> sched_state \<Rightarrow> sched_state" where
  "thread_exit self st =
    upd_thr self (\<lambda>x. x\<lparr>t_state := TERMINATED, t_yield := True\<rparr>) (st\<lparr>dead := dead st @ [self]\<rparr>)"

text \<open>A thread that is still leaving the processor makes \<open>thread_signal\<close> spin.\<close>

definition thread_signal :: "nat \<Rightarrow> sched_state \<Rightarrow> sched_state option" where
  "thread_signal t st =
    (if sig_wait (thr st t) then
       if t_yield (thr st t) then None
       else scheduler_append
         (upd_thr t (\<lambda>x. x\<lparr>sig_wait := False, sig_recv := False, t_state := READY\<rparr>) st) t
     else Some (upd_thr t (\<lambda>x. x\<lparr>sig_recv := True\<rparr>) st))"

text \<open>\<open>thread_wait\<close> up to the yield; the flag tells whether it yields.\<close>

definition thread_wait :: "nat \<Rightarrow> sched_state \<Rightarrow> bool \<times> sched_state" where
  "thread_wait self st =
    (let st = (if sig_recv (thr st self)
               then upd_thr self (\<lambda>x. x\<lparr>sig_recv := False, sig_wait := False\<rparr>) st
               else upd_thr self (\<lambda>x. x\<lparr>t_yield := True, sig_wait := True, t_state := BLOCKING\<rparr>) st)
     in (t_yield (thr st self), st))"

definition thread_wake :: "nat \<Rightarrow> sched_state \<Rightarrow> sched_state option" where
  "thread_wake t st = scheduler_append (upd_thr t (\<lambda>x. x\<lparr>t_state := READY\<rparr>) st) t"

text \<open>The threads that \<open>thread_idle_cleaning\<close> frees and those it keeps.\<close>

fun thread_idle_cleaning :: "(nat \<Rightarrow> thread_t) \<Rightarrow> nat list \<Rightarrow> nat list \<times> nat list" where
  "thread_idle_cleaning ts [] = ([], [])"
| "thread_idle_cleaning ts (t # d) =
    (if t_yield (ts t) then ([], t # d)
     else case thread_idle_cleaning ts d of (f, k) \<Rightarrow> (t # f, k))"

section \<open>The queues of a core\<close>

text \<open>Nine round-robin queues, an index into them and the number of threads they hold.\<close>

definition core_ok :: "scheduler_t \<Rightarrow> bool" where
  "core_ok s \<longleftrightarrow> length (s_std s) = 9 \<and> s_index s < 9 \<and> s_count s = sum_list (map length (s_std s))"

lemma next_index_steps:
  assumes "i < 9" "qs ! ((i + d) mod 9) \<noteq> []" "\<And>e. e < d \<Longrightarrow> qs ! ((i + e) mod 9) = []"
  shows "next_index qs i = Some ((i + d) mod 9)"
  using assms
proof (induction d arbitrary: i)
  case 0
  then show ?case by (subst next_index.simps) simp
next
  case (Suc d)
  have "qs ! i = []"
    using Suc.prems(3) [of 0] Suc.prems(1) by simp
  moreover have "next_index qs ((i + 1) mod 9) = Some (((i + 1) mod 9 + d) mod 9)"
  proof (rule Suc.IH)
    show "qs ! (((i + 1) mod 9 + d) mod 9) \<noteq> []"
      using Suc.prems(2) by (simp add: mod_add_left_eq)
    show "qs ! (((i + 1) mod 9 + e) mod 9) = []" if "e < d" for e
      using Suc.prems(3) [of "Suc e"] that by (simp add: mod_add_left_eq)
  qed simp
  ultimately show ?case
    by (subst next_index.simps) (simp add: mod_add_left_eq)
qed

lemma ring_reach: "i < 9 \<Longrightarrow> j < 9 \<Longrightarrow> \<exists>d < 9. (i + d) mod 9 = (j :: nat)"
  by (rule exI [of _ "(9 + j - i) mod 9"]) (simp add: mod_add_right_eq)

text \<open>The loop ends as soon as one queue holds a thread, at the first such queue in ring order.\<close>

lemma next_index_first:
  assumes "i < 9" "j < 9" "qs ! j \<noteq> []"
  obtains d where "next_index qs i = Some ((i + d) mod 9)" "qs ! ((i + d) mod 9) \<noteq> []" "d < 9"
    "\<And>e. e < d \<Longrightarrow> qs ! ((i + e) mod 9) = []"
proof -
  define d where "d = (LEAST d. qs ! ((i + d) mod 9) \<noteq> [])"
  obtain d0 where d0: "d0 < 9" "(i + d0) mod 9 = j"
    using ring_reach assms(1,2) by blast
  have ne: "qs ! ((i + d) mod 9) \<noteq> []"
    unfolding d_def by (rule LeastI [of _ d0]) (simp add: d0 assms(3))
  have le: "d \<le> d0"
    unfolding d_def by (rule Least_le) (simp add: d0 assms(3))
  have before: "\<And>e. e < d \<Longrightarrow> qs ! ((i + e) mod 9) = []"
    unfolding d_def using not_less_Least by blast
  show thesis
    using next_index_steps [OF assms(1) ne before] ne before le d0(1) by (intro that [of d]) auto
qed

lemma sum_length_nonempty: "sum_list (map length xs) \<noteq> 0 \<Longrightarrow> \<exists>j < length xs. xs ! j \<noteq> []"
  by (auto simp: in_set_conv_nth)

lemma sum_length_update:
  "i < length xs \<Longrightarrow> sum_list (map length (xs[i := ys])) + length (xs ! i) = sum_list (map length xs) + length ys"
  by (induction xs arbitrary: i) (auto simp: nth_Cons split: nat.splits)

lemma enqueue_ok:
  assumes "core_ok s"
  shows "core_ok (enqueue p mc t s)"
proof -
  have i: "(s_index s + mc) mod 9 < length (s_std s)"
    using assms by (simp add: core_ok_def)
  show ?thesis
    using assms sum_length_update [OF i, of "s_std s ! ((s_index s + mc) mod 9) @ [t]"]
    by (auto simp: core_ok_def enqueue_def Let_def)
qed

text \<open>What the choice of the next thread is, on every branch.\<close>

lemma pick_cases:
  assumes "core_ok s"
  obtains (srt) t ts where "s_srt s = t # ts" "pick s = Some (t, 0, s\<lparr>s_srt := ts\<rparr>)"
  | (std) i t ts where "s_srt s = []" "next_index (s_std s) (s_index s) = Some i" "i < 9" "s_std s ! i = t # ts"
      "pick s = Some (t, s_frequency s div 100, s\<lparr>s_index := i, s_std := (s_std s)[i := ts], s_count := s_count s - 1\<rparr>)"
  | (idle) t ts where "s_srt s = []" "s_count s = 0" "s_idle s = t # ts"
      "pick s = Some (t, s_frequency s div 100, s\<lparr>s_idle := ts\<rparr>)"
  | (none) "s_srt s = []" "s_count s = 0" "s_idle s = []" "pick s = Some (thread_idle s, 0, s)"
proof (cases "s_srt s")
  case Nil
  show thesis
  proof (cases "s_count s = 0")
    case True
    show thesis
    proof (cases "s_idle s")
      case Nil
      show thesis
        by (rule none) (simp_all add: pick_def \<open>s_srt s = []\<close> True Nil)
    next
      case (Cons t ts)
      show thesis
        by (rule idle) (simp_all add: pick_def \<open>s_srt s = []\<close> True Cons)
    qed
  next
    case False
    have "sum_list (map length (s_std s)) \<noteq> 0" and len: "length (s_std s) = 9"
      using assms False unfolding core_ok_def by metis+
    from sum_length_nonempty [OF this(1)] obtain j where "j < 9" "s_std s ! j \<noteq> []"
      unfolding len by blast
    moreover have "s_index s < 9"
      using assms by (simp add: core_ok_def)
    ultimately obtain d where d: "next_index (s_std s) (s_index s) = Some ((s_index s + d) mod 9)"
        "s_std s ! ((s_index s + d) mod 9) \<noteq> []"
      using next_index_first [of "s_index s" j "s_std s"] by metis
    obtain t ts where q: "s_std s ! ((s_index s + d) mod 9) = t # ts"
      using d(2) by (cases "s_std s ! ((s_index s + d) mod 9)") auto
    show thesis
      by (rule std [of "(s_index s + d) mod 9" t ts]) (simp_all add: pick_def Nil False d(1) q)
  qed
next
  case (Cons t ts)
  show thesis
    by (rule srt) (simp_all add: pick_def Cons)
qed

lemma pick_ok:
  assumes "core_ok s" "pick s = Some (t, ticks, s')"
  shows "core_ok s'"
  using assms(1)
proof (cases rule: pick_cases)
  case (std i t ts)
  then show ?thesis
    using assms sum_length_update [of i "s_std s" ts] by (auto simp: core_ok_def)
qed (use assms in \<open>auto simp: core_ok_def\<close>)

text \<open>The threads that wait on a core, each as often as it is queued.\<close>

definition queued :: "scheduler_t \<Rightarrow> nat multiset" where
  "queued s = mset (s_srt s) + mset (s_idle s) + mset (concat (s_std s))"

lemma mset_concat_update:
  "i < length xs \<Longrightarrow> mset (concat (xs[i := ys])) + mset (xs ! i) = mset (concat xs) + mset ys"
  by (induction xs arbitrary: i) (auto simp: nth_Cons split: nat.splits)

lemma enqueue_queued:
  assumes "core_ok s"
  shows "queued (enqueue p mc t s) = add_mset t (queued s)"
proof -
  have i: "(s_index s + mc) mod 9 < length (s_std s)"
    using assms by (simp add: core_ok_def)
  show ?thesis
    using mset_concat_update [OF i, of "s_std s ! ((s_index s + mc) mod 9) @ [t]"]
    by (simp add: enqueue_def queued_def Let_def)
qed

lemma pick_queued:
  assumes "core_ok s" "pick s = Some (t, ticks, s')"
  shows "queued s = add_mset t (queued s') \<or> t = thread_idle s \<and> s' = s \<and> queued s = {#}"
  using assms(1)
proof (cases rule: pick_cases)
  case (srt u ts)
  then have "t = u" "s' = s\<lparr>s_srt := ts\<rparr>"
    using assms(2) by simp_all
  then show ?thesis
    using srt(1) by (simp add: queued_def)
next
  case (std i u ts)
  then have eq: "t = u" "s' = s\<lparr>s_index := i, s_std := (s_std s)[i := ts], s_count := s_count s - 1\<rparr>"
    using assms(2) by simp_all
  have "i < length (s_std s)"
    using assms(1) std(3) by (simp add: core_ok_def)
  then have "mset (concat (s_std s)) = add_mset u (mset (concat ((s_std s)[i := ts])))"
    using mset_concat_update [of i "s_std s" ts] std(4) by simp
  then show ?thesis
    by (simp add: queued_def eq del: mset_concat)
next
  case (idle u ts)
  then have "t = u" "s' = s\<lparr>s_idle := ts\<rparr>"
    using assms(2) by simp_all
  then show ?thesis
    using idle(3) by (simp add: queued_def)
next
  case none
  then have "concat (s_std s) = []"
    using assms(1) by (simp add: core_ok_def)
  then show ?thesis
    using assms(2) none by (auto simp: queued_def simp del: mset_concat concat_eq_Nil_conv)
qed

section \<open>No thread starves\<close>

text \<open>What happens to a core over time: a thread is made ready and queued by its priority, or the core chooses
  the next thread, which labels the step.\<close>

inductive core_step :: "scheduler_t \<Rightarrow> nat option \<Rightarrow> scheduler_t \<Rightarrow> bool" where
  ready: "core_step s None (enqueue (t_priority x) (t_max_count x) t s)"
    if "x = thread_priority p y"
| choose: "core_step s (Some t) s'"
    if "pick s = Some (t, ticks, s')"

inductive_cases core_stepE: "core_step s l s'"

lemma core_step_ok: "core_step s l s' \<Longrightarrow> core_ok s \<Longrightarrow> core_ok s'"
  by (erule core_step.cases) (simp_all add: enqueue_ok pick_ok)

text \<open>The number of queues between the index and the queue \<open>j\<close>, and the length of the current queue.\<close>

definition ahead :: "nat \<Rightarrow> scheduler_t \<Rightarrow> nat \<times> nat" where
  "ahead j s = ((9 + j - s_index s) mod 9, length (s_std s ! s_index s))"

lemma ring_mod: "a < 18 \<Longrightarrow> a mod 9 = (if a < 9 then a else a - 9 :: nat)"
  by (simp add: le_mod_geq)

lemma ready_ahead:
  assumes "core_step s None s'" "core_ok s" "j < 9" "t \<in> set (s_std s ! j)"
  shows "ahead j s' = ahead j s \<and> t \<in> set (s_std s' ! j)"
  using assms(1)
proof cases
  case (ready x p y u)
  have "(s_index s + t_max_count x) mod 9 \<noteq> s_index s" if "t_priority x \<notin> {TPR_SRT, TPR_IDLE}"
  proof -
    have "t_max_count x \<in> {2, 4, 8}"
      using ready that by (cases p) (auto simp: thread_priority_def)
    then show ?thesis
      using assms(2) by (auto simp: core_ok_def ring_mod split: if_splits)
  qed
  then show ?thesis
    using ready assms by (auto simp: ahead_def enqueue_def Let_def core_ok_def nth_list_update)
qed

lemma ring_dist: "i < 9 \<Longrightarrow> j < (9 :: nat) \<Longrightarrow> (9 + j - i) mod 9 = (if i \<le> j then j - i else 9 + j - i)"
  by (auto simp: ring_mod)

lemma ring_closer:
  assumes "i < 9" "j < (9 :: nat)" "0 < d" "d \<le> (9 + j - i) mod 9"
  shows "(9 + j - (i + d) mod 9) mod 9 < (9 + j - i) mod 9"
proof -
  define e where "e = (i + d) mod 9"
  note le = assms(4) [unfolded ring_dist [OF assms(1,2)]]
  have e: "e = (if i + d < 9 then i + d else i + d - 9)" "e < 9"
    unfolding e_def using assms mod_less_divisor [of 9 "9 + j - i"] by (intro ring_mod) linarith+
  show ?thesis
    unfolding e_def [symmetric] ring_dist [OF assms(1,2)] ring_dist [OF e(2) assms(2)]
    using e le assms(1-3) by (auto split: if_splits)
qed

lemma choose_ahead:
  assumes "core_step s (Some u) s'" "core_ok s" "s_srt s = []" "j < 9" "t \<in> set (s_std s ! j)" "u \<noteq> t"
  shows "(ahead j s', ahead j s) \<in> less_than <*lex*> less_than \<and> t \<in> set (s_std s' ! j)"
proof -
  have pk: "\<exists>ticks. pick s = Some (u, ticks, s')"
    using assms(1) by (auto elim: core_stepE)
  have ij: "s_index s < 9" "length (s_std s) = 9"
    using assms(2) by (auto simp: core_ok_def)
  have ne: "s_std s ! j \<noteq> []"
    using assms(5) by auto
  have cnt: "s_count s \<noteq> 0"
    using assms(2,4) ne nth_mem [of j "s_std s"] by (auto simp: core_ok_def)
  obtain d where d: "next_index (s_std s) (s_index s) = Some ((s_index s + d) mod 9)" "d < 9"
      "s_std s ! ((s_index s + d) mod 9) \<noteq> []" "\<And>e. e < d \<Longrightarrow> s_std s ! ((s_index s + e) mod 9) = []"
    using next_index_first [OF ij(1) assms(4) ne] by metis
  have le: "d \<le> (9 + j - s_index s) mod 9"
  proof (rule ccontr)
    assume "\<not> d \<le> (9 + j - s_index s) mod 9"
    then have "s_std s ! ((s_index s + (9 + j - s_index s) mod 9) mod 9) = []"
      by (intro d(4)) simp
    then show False
      using ne ij(1) assms(4) by (simp add: mod_add_right_eq)
  qed
  define i where "i = (s_index s + d) mod 9"
  obtain v q where q: "s_std s ! i = v # q"
    using d(3) unfolding i_def by (cases "s_std s ! ((s_index s + d) mod 9)") auto
  have s': "u = v" "s' = s\<lparr>s_index := i, s_std := (s_std s)[i := q], s_count := s_count s - 1\<rparr>"
    using pk assms(3) cnt d(1) q by (auto simp: pick_def i_def)
  have "i < 9" by (simp add: i_def)
  have "t \<in> set (s_std s' ! j)"
    using assms(5,6) q s' ij \<open>i < 9\<close> by (cases "i = j") auto
  moreover have "(ahead j s', ahead j s) \<in> less_than <*lex*> less_than"
  proof (cases "d = 0")
    case True
    then show ?thesis
      using q s' ij by (simp add: ahead_def i_def)
  next
    case False
    then show ?thesis
      using ring_closer [OF ij(1) assms(4) _ le] s' by (simp add: ahead_def i_def)
  qed
  ultimately show ?thesis by blast
qed

text \<open>Until the next choice only threads are made ready, which leaves everything ahead of the queue as it is.\<close>

lemma ready_run:
  assumes "\<And>n. core_step (f n) (l n) (f (Suc n))" "\<And>n. core_ok (f n)" "j < 9"
  shows "n \<le> m \<Longrightarrow> (\<And>k. n \<le> k \<Longrightarrow> k < m \<Longrightarrow> l k = None) \<Longrightarrow> t \<in> set (s_std (f n) ! j) \<Longrightarrow>
    ahead j (f m) = ahead j (f n) \<and> t \<in> set (s_std (f m) ! j)"
proof (induction m rule: dec_induct)
  case (step m)
  then have "core_step (f m) None (f (Suc m))"
    using assms(1) [of m] step.prems(1) [of m] by simp
  then show ?case
    using step ready_ahead [OF _ assms(2,3)] by (metis less_Suc_eq)
qed simp

text \<open>C13. A thread that waits in one of the nine round-robin queues of a core is chosen eventually, however many
  threads of whatever priority below real time are made ready meanwhile, as long as the core keeps choosing and
  no real-time thread waits.\<close>

theorem std_thread_not_starved:
  assumes "\<And>n. core_step (f n) (l n) (f (Suc n))" "core_ok (f 0)"
    and "\<And>n. \<exists>m \<ge> n. l m \<noteq> None" "\<And>n. s_srt (f n) = []"
    and "j < 9" "t \<in> set (s_std (f n) ! j)"
  shows "\<exists>m \<ge> n. l m = Some t"
proof -
  have ok: "core_ok (f n)" for n
    by (induction n) (use assms(1,2) core_step_ok in blast)+
  have "\<forall>n. t \<in> set (s_std (f n) ! j) \<longrightarrow> ahead j (f n) = a \<longrightarrow> (\<exists>m \<ge> n. l m = Some t)" for a
  proof (induction a rule: wf_induct [OF wf_lex_prod [OF wf_less_than wf_less_than]])
    case (1 a)
    show ?case
    proof (intro allI impI)
      fix n
      assume t: "t \<in> set (s_std (f n) ! j)" and a: "ahead j (f n) = a"
      define m where "m = (LEAST m. n \<le> m \<and> l m \<noteq> None)"
      have m: "n \<le> m \<and> l m \<noteq> None"
        unfolding m_def using assms(3) [of n] by (metis (mono_tags, lifting) LeastI_ex)
      have "l k = None" if "n \<le> k" "k < m" for k
        using not_less_Least [of k "\<lambda>m. n \<le> m \<and> l m \<noteq> None"] that unfolding m_def by blast
      then have am: "ahead j (f m) = a" "t \<in> set (s_std (f m) ! j)"
        using ready_run [of f l j n m t] assms(1,5) ok m t a by auto
      obtain u where u: "l m = Some u"
        using m by blast
      show "\<exists>m \<ge> n. l m = Some t"
      proof (cases "u = t")
        case False
        have "core_step (f m) (Some u) (f (Suc m))"
          using assms(1) [of m] u by simp
        from choose_ahead [OF this ok assms(4,5) am(2) False]
        have "\<exists>k \<ge> Suc m. l k = Some t"
          using "1.IH" am(1) by blast
        then show ?thesis
          using m by (meson Suc_leD le_trans)
      qed (use u m in blast)
    qed
  qed
  then show ?thesis
    using assms(6) by blast
qed

text \<open>A core that alternates between choosing a thread and making one thread ready again.\<close>

primrec alternate :: "scheduler_t \<Rightarrow> nat \<Rightarrow> nat \<Rightarrow> scheduler_t" where
  "alternate s t 0 = s"
| "alternate s t (Suc n) =
    (if even n then snd (snd (the (pick (alternate s t n)))) else enqueue TPR_HIGH 2 t (alternate s t n))"

lemma enqueue_srt: "s_srt (enqueue TPR_HIGH mc t s) = s_srt s"
  by (simp add: enqueue_def Let_def)

lemma alternate_inv: "core_ok s \<Longrightarrow> s_srt s = [] \<Longrightarrow> core_ok (alternate s t n) \<and> s_srt (alternate s t n) = []"
proof (induction n)
  case (Suc n)
  then have ih: "core_ok (alternate s t n)" "s_srt (alternate s t n) = []"
    by simp_all
  show ?case
  proof (cases "even n")
    case True
    from ih(1) show ?thesis
    proof (cases rule: pick_cases)
      case (std i u us)
      then show ?thesis
        using True ih pick_ok [OF ih(1) std(5)] by simp
    next
      case (idle u us)
      then show ?thesis
        using True ih pick_ok [OF ih(1) idle(4)] by simp
    qed (use True ih in simp_all)
  qed (use ih in \<open>simp_all add: enqueue_ok enqueue_srt\<close>)
qed simp

definition alternate_label :: "scheduler_t \<Rightarrow> nat \<Rightarrow> nat \<Rightarrow> nat option" where
  "alternate_label s t n = (if even n then Some (fst (the (pick (alternate s t n)))) else None)"

lemma alternate_step:
  assumes "core_ok s" "s_srt s = []"
  shows "core_step (alternate s t n) (alternate_label s t n) (alternate s t (Suc n))"
proof (cases "even n")
  case True
  have "core_ok (alternate s t n)"
    using alternate_inv [OF assms] by blast
  then have "\<exists>u ticks s'. pick (alternate s t n) = Some (u, ticks, s')"
    by (cases rule: pick_cases) blast+
  then show ?thesis
    using True by (auto simp: alternate_label_def intro: core_step.choose)
next
  case False
  have "core_step (alternate s t n) None (enqueue TPR_HIGH 2 t (alternate s t n))"
    using core_step.ready [OF refl, where p = TPR_HIGH] by (simp add: thread_priority_def)
  then show ?thesis
    using False by (simp add: alternate_label_def)
qed

definition core0 :: scheduler_t where
  "core0 = \<lparr>s_rsp = 0, s_xstate = 0, s_apic_id = 0, s_frequency = 1000, s_tsc0 = 0, s_tsc1 = 0, s_tsc2 = 0, s_load = 0,
    s_idle = [], s_srt = [], s_std = [[], [], [], [7], [], [], [], [], []], s_index = 0, s_count = 1,
    thread_current = 1, thread_idle = 1, tss_rsp0 = 0, cpu_pml4 = 0, cpu_gs = 0, cpu_timer = 0\<rparr>"

lemma core0_ok: "core_ok core0" "s_srt core0 = []"
  by (simp_all add: core_ok_def core0_def)

theorem std_thread_not_starved_witness: "\<exists>m. alternate_label core0 9 m = Some 7"
proof -
  have "\<exists>m \<ge> 0. alternate_label core0 9 m = Some 7"
  proof (rule std_thread_not_starved [where f = "alternate core0 9" and j = 3])
    show "\<exists>m \<ge> n. alternate_label core0 9 m \<noteq> None" for n
      by (rule exI [of _ "2 * n"]) (simp add: alternate_label_def)
    show "7 \<in> set (s_std (alternate core0 9 0) ! 3)"
      by (simp add: core0_def)
  qed (use core0_ok alternate_inv [OF core0_ok] alternate_step [OF core0_ok] in simp_all)
  then show ?thesis by blast
qed

section \<open>The processor runs the chosen thread in its own context\<close>

text \<open>The kernel stack, the floating point area, the thread area and the address space of the processor are those
  of the thread it runs.\<close>

definition context_ok :: "sched_state \<Rightarrow> scheduler_t \<Rightarrow> bool" where
  "context_ok st s \<longleftrightarrow> (let t = thread_current s; x = thr st t in
     t \<noteq> 0 \<and> tss_rsp0 s = t_rsp0 x \<and> s_xstate s = t_xstate x \<and> cpu_gs s = t \<and> cpu_pml4 s = pml4_of st (t_parent x))"

definition sched_inv :: "sched_state \<Rightarrow> bool" where
  "sched_inv st \<longleftrightarrow> sdata st \<noteq> [] \<and>
    (\<forall>s \<in> set (sdata st). core_ok s \<and> thread_idle s \<noteq> 0 \<and> 0 \<notin># queued s \<and> context_ok st s)"

lemma sched_invD:
  assumes "sched_inv st" "k < length (sdata st)"
  shows "core_ok (sdata st ! k)" "thread_idle (sdata st ! k) \<noteq> 0" "0 \<notin># queued (sdata st ! k)"
    "context_ok st (sdata st ! k)" "thread_current (sdata st ! k) \<noteq> 0"
  using assms nth_mem [OF assms(2)] by (auto simp: sched_inv_def context_ok_def Let_def)

text \<open>An update of one core keeps the invariant if the new core satisfies its part.\<close>

lemma sched_inv_core:
  assumes "sched_inv st" "core_ok s" "thread_idle s \<noteq> 0" "0 \<notin># queued s" "context_ok st s"
  shows "sched_inv (st\<lparr>sdata := (sdata st)[k := s]\<rparr>)"
  using assms set_update_subset_insert [of "sdata st" k s]
  by (auto simp: sched_inv_def context_ok_def Let_def)

text \<open>Updates of threads that keep what a context refers to keep the invariant.\<close>

definition keeps_context :: "(thread_t \<Rightarrow> thread_t) \<Rightarrow> bool" where
  "keeps_context f \<longleftrightarrow> (\<forall>x. t_rsp0 (f x) = t_rsp0 x \<and> t_xstate (f x) = t_xstate x \<and> t_parent (f x) = t_parent x)"

lemma sched_inv_thr: "sched_inv st \<Longrightarrow> keeps_context f \<Longrightarrow> sched_inv (upd_thr t f st)"
  by (auto simp: sched_inv_def context_ok_def Let_def keeps_context_def)

lemma sched_inv_wq: "sched_inv (upd_wq q f st) = sched_inv st"
  by (simp add: sched_inv_def context_ok_def)

lemma select_loop_bound:
  "core < i + length ss \<Longrightarrow> select_loop ts t ss i core m < i + length ss"
proof (induction ss arbitrary: i core m)
  case (Cons s ss)
  then show ?case
    using Cons.IH [of _ "i + 1"] by (auto simp: Let_def)
qed simp

lemma scheduler_select_bound: "sdata st \<noteq> [] \<Longrightarrow> scheduler_select st t < length (sdata st)"
  unfolding scheduler_select_def using select_loop_bound [of 0 0 "sdata st"] by simp

lemma enqueue_context: "context_ok st (enqueue p mc t s) = context_ok st s"
  "thread_idle (enqueue p mc t s) = thread_idle s" "thread_current (enqueue p mc t s) = thread_current s"
  by (simp_all add: context_ok_def enqueue_def Let_def)

text \<open>Making a thread ready never fails; it only changes queues and the log of interrupts.\<close>

lemma scheduler_append_ok:
  assumes "sched_inv st" "t \<noteq> 0"
  obtains st' where "scheduler_append st t = Some st'" "sched_inv st'" "thr st' = thr st" "wqs st' = wqs st"
    "mutexes st' = mutexes st" "pml4_of st' = pml4_of st" "length (sdata st') = length (sdata st)"
    "map thread_current (sdata st') = map thread_current (sdata st)" "map thread_idle (sdata st') = map thread_idle (sdata st)"
proof -
  define k where "k = scheduler_select st t"
  define s where "s = enqueue (t_priority (thr st t)) (t_max_count (thr st t)) t (sdata st ! k)"
  have k: "k < length (sdata st)"
    using assms(1) by (simp add: k_def scheduler_select_bound sched_inv_def)
  have inv: "sched_inv (st\<lparr>sdata := (sdata st)[k := s]\<rparr>)"
    using sched_invD [OF assms(1) k] assms
    by (intro sched_inv_core) (simp_all add: s_def enqueue_ok enqueue_queued enqueue_context)
  have maps: "map thread_current ((sdata st)[k := s]) = map thread_current (sdata st)"
    "map thread_idle ((sdata st)[k := s]) = map thread_idle (sdata st)"
    using k by (simp_all add: map_update s_def enqueue_context list_update_same_conv)
  define pre where "pre = (if t_priority (thr st t) = TPR_SRT
     then prio_num (t_priority (thr st (thread_current (sdata st ! k)))) < prio_num (t_priority (thr st t))
     else if t_priority (thr st t) = TPR_IDLE then False
     else t_priority (thr st (thread_current (sdata st ! k))) = TPR_IDLE)"
  define st' where "st' = (if pre then st\<lparr>sdata := (sdata st)[k := s], ipis := ipis st @ [s_apic_id (sdata st ! k)]\<rparr>
    else st\<lparr>sdata := (sdata st)[k := s]\<rparr>)"
  have "scheduler_append st t = Some st'"
    unfolding scheduler_append_def Let_def k_def [symmetric] using k sched_invD(5) [OF assms(1) k]
    by (simp add: st'_def pre_def s_def)
  moreover have "sched_inv st'"
    using inv by (simp add: st'_def sched_inv_def context_ok_def)
  ultimately show thesis
    by (rule that) (simp_all add: st'_def maps)
qed


lemma retire_ok:
  assumes "sched_inv st" "k < length (sdata st)"
  obtains st' where "retire rsp elapsed k st = Some st'" "sched_inv st'" "length (sdata st') = length (sdata st)"
    "pml4_of st' = pml4_of st" "thread_current (sdata st' ! k) = thread_current (sdata st ! k)"
    "\<And>t. t_parent (thr st' t) = t_parent (thr st t)"
proof -
  define t where "t = thread_current (sdata st ! k)"
  define st1 where "st1 = upd_thr t (\<lambda>x. x\<lparr>t_rsp := rsp, t_time_used := t_time_used x + elapsed\<rparr>) st"
  have t: "t \<noteq> 0"
    unfolding t_def by (rule sched_invD(5) [OF assms])
  have inv1: "sched_inv st1"
    unfolding st1_def by (rule sched_inv_thr [OF assms(1)]) (simp add: keeps_context_def)
  define put where "put = (if t = thread_idle (sdata st1 ! k) then Some (upd_thr t (\<lambda>x. x\<lparr>t_state := SLEEPING\<rparr>) st1)
      else if t_state (thr st1 t) = RUNNING then scheduler_append (upd_thr t (\<lambda>x. x\<lparr>t_state := READY\<rparr>) st1) t
      else Some st1)"
  have inv': "sched_inv (upd_thr t (\<lambda>x. x\<lparr>t_state := v\<rparr>) st1)" for v
    by (rule sched_inv_thr [OF inv1]) (simp add: keeps_context_def)
  obtain sta where a: "scheduler_append (upd_thr t (\<lambda>x. x\<lparr>t_state := READY\<rparr>) st1) t = Some sta" "sched_inv sta"
      "thr sta = thr (upd_thr t (\<lambda>x. x\<lparr>t_state := READY\<rparr>) st1)" "pml4_of sta = pml4_of st1"
      "length (sdata sta) = length (sdata st1)" "map thread_current (sdata sta) = map thread_current (sdata st1)"
    using scheduler_append_ok [OF inv' [of READY] t] by auto
  have cur: "thread_current (sdata sta ! k) = thread_current (sdata st ! k)"
    using a(5,6) assms(2) by (metis nth_map st1_def sched_state.select_convs(5) sched_state.surjective sched_state.update_convs(1))
  have "\<exists>st2. put = Some st2 \<and> sched_inv st2 \<and> length (sdata st2) = length (sdata st) \<and> pml4_of st2 = pml4_of st \<and>
      thread_current (sdata st2 ! k) = thread_current (sdata st ! k) \<and> (\<forall>u. t_parent (thr st2 u) = t_parent (thr st u))"
    using inv' [of SLEEPING] inv1 a cur by (auto simp: put_def st1_def)
  then obtain st2 where st2: "put = Some st2" "sched_inv st2" "length (sdata st2) = length (sdata st)"
      "pml4_of st2 = pml4_of st" "thread_current (sdata st2 ! k) = thread_current (sdata st ! k)"
      "\<And>u. t_parent (thr st2 u) = t_parent (thr st u)"
    by blast
  define st3 where "st3 = (if t_lock (thr st2 t) \<noteq> 0
    then upd_thr t (\<lambda>x. x\<lparr>t_lock := 0\<rparr>) (upd_wq (t_lock (thr st2 t)) (\<lambda>q. q\<lparr>wq_spin := False\<rparr>) st2) else st2)"
  have "sched_inv (upd_wq q (\<lambda>q. q\<lparr>wq_spin := False\<rparr>) st2)" for q
    using st2(2) by (simp add: sched_inv_wq)
  then have "sched_inv (upd_thr t (\<lambda>x. x\<lparr>t_lock := 0\<rparr>) (upd_wq q (\<lambda>q. q\<lparr>wq_spin := False\<rparr>) st2))" for q
    by (rule sched_inv_thr) (simp add: keeps_context_def)
  then have "sched_inv st3"
    using st2(2) by (simp add: st3_def)
  then have inv3: "sched_inv (upd_thr t (\<lambda>x. x\<lparr>t_yield := False\<rparr>) st3)"
    by (rule sched_inv_thr) (simp add: keeps_context_def)
  have "retire rsp elapsed k st = Some (upd_thr t (\<lambda>x. x\<lparr>t_yield := False\<rparr>) st3)"
    unfolding retire_def Let_def t_def [symmetric] st1_def [symmetric] put_def [symmetric]
    by (simp add: st2(1) st3_def)
  then show thesis
    using inv3 by (rule that) (simp_all add: st3_def st2)
qed

text \<open>The choice of the next thread never fails and puts the processor into its context, except for the address
  space, which the handler loads afterwards.\<close>

lemma scheduler_next_ok:
  assumes "sched_inv st" "k < length (sdata st)"
  obtains t ticks s where "scheduler_next st k = Some (ticks, st\<lparr>sdata := (sdata st)[k := scheduler_set_thread st s t]\<rparr>)"
    "t \<noteq> 0" "core_ok s" "thread_idle s \<noteq> 0" "0 \<notin># queued s" "cpu_pml4 s = cpu_pml4 (sdata st ! k)"
proof -
  note inv = sched_invD [OF assms]
  have "\<exists>t ticks s. pick (sdata st ! k) = Some (t, ticks, s) \<and> thread_idle s = thread_idle (sdata st ! k) \<and>
      cpu_pml4 s = cpu_pml4 (sdata st ! k)"
    using inv(1) by (cases rule: pick_cases) auto
  then obtain t ticks s where p: "pick (sdata st ! k) = Some (t, ticks, s)" "thread_idle s = thread_idle (sdata st ! k)"
      "cpu_pml4 s = cpu_pml4 (sdata st ! k)"
    by blast
  have q: "t \<noteq> 0 \<and> 0 \<notin># queued s"
    using pick_queued [OF inv(1) p(1)] inv(2,3) by auto
  show thesis
    using q p inv(2) pick_ok [OF inv(1) p(1)] by (intro that [of ticks s t]) (simp_all add: scheduler_next_def)
qed

lemma set_thread_frame [simp]:
  "core_ok (scheduler_set_thread st s t) = core_ok s" "thread_idle (scheduler_set_thread st s t) = thread_idle s"
  "queued (scheduler_set_thread st s t) = queued s" "cpu_pml4 (scheduler_set_thread st s t) = cpu_pml4 s"
  "thread_current (scheduler_set_thread st s t) = t" "cpu_timer (scheduler_set_thread st s t) = cpu_timer s"
  by (simp_all add: scheduler_set_thread_def core_ok_def queued_def)

lemma scheduler_update_load_frame:
  "core_ok (scheduler_update_load st now s) = core_ok s" "queued (scheduler_update_load st now s) = queued s"
  "thread_idle (scheduler_update_load st now s) = thread_idle s" "context_ok st' (scheduler_update_load st now s) = context_ok st' s"
  by (simp_all add: scheduler_update_load_def Let_def core_ok_def queued_def context_ok_def)

lemma elapsed_frame: "context_ok st' (s\<lparr>s_tsc0 := now\<rparr>) = context_ok st' s" "core_ok (s\<lparr>s_tsc0 := now\<rparr>) = core_ok s"
  "queued (s\<lparr>s_tsc0 := now\<rparr>) = queued s"
  by (simp_all add: core_ok_def queued_def context_ok_def)

text \<open>The processor after the handler: the chosen thread with its address space, whether it had to be loaded or
  was that of the previous thread.\<close>

lemma switch_inv:
  assumes "sched_inv st" "k < length (sdata st)" "t \<noteq> 0" "core_ok s" "thread_idle s \<noteq> 0" "0 \<notin># queued s"
    and "cpu_pml4 s = old"
  shows "sched_inv (st\<lparr>sdata := (sdata st)[k := (scheduler_set_thread st s t)
    \<lparr>cpu_pml4 := pml4_of st (t_parent (thr st t)), cpu_timer := v\<rparr>]\<rparr>)"
  using assms by (intro sched_inv_core) (simp_all add: core_ok_def queued_def context_ok_def scheduler_set_thread_def)

lemma set_pml4_same: "cpu_pml4 s = v \<Longrightarrow> s\<lparr>cpu_pml4 := v\<rparr> = s" "cpu_pml4 s = v \<Longrightarrow> s\<lparr>cpu_pml4 := v, cpu_timer := n\<rparr> = s\<lparr>cpu_timer := n\<rparr>"
  by simp_all

lemma set_timer_same: "cpu_timer s = n \<Longrightarrow> s\<lparr>cpu_timer := n\<rparr> = s" "cpu_timer s = n \<Longrightarrow> s\<lparr>cpu_pml4 := v, cpu_timer := n\<rparr> = s\<lparr>cpu_pml4 := v\<rparr>"
  by simp_all

text \<open>C3. The scheduling interrupt always returns: it puts the interrupted thread away, chooses the next one, marks
  it running and leaves the processor with the kernel stack, thread area and address space of this thread; the
  queues of all cores stay consistent and no core ever runs the null thread.\<close>

theorem schedule_handler_switches:
  assumes "sched_inv st" "k < length (sdata st)"
  shows "\<exists>rsp' st'. schedule_handler exit_proc exit_thr k now1 now2 rsp st = Some (rsp', st') \<and> sched_inv st' \<and>
    t_state (thr st' (thread_current (sdata st' ! k))) = RUNNING \<and>
    rsp' = t_rsp (thr st' (thread_current (sdata st' ! k)))"
proof -
  define s0 where "s0 = sdata st ! k"
  define st0 where "st0 = st\<lparr>sdata := (sdata st)[k := s0\<lparr>s_tsc0 := now1\<rparr>]\<rparr>"
  note inv = sched_invD [OF assms, folded s0_def]
  have k0: "k < length (sdata st0)" and cur0: "sdata st0 ! k = s0\<lparr>s_tsc0 := now1\<rparr>"
    using assms(2) by (simp_all add: st0_def)
  have inv0: "sched_inv st0"
    unfolding st0_def by (rule sched_inv_core [OF assms(1)]) (use inv in \<open>simp_all add: elapsed_frame\<close>)
  obtain st1 where r: "retire rsp (now1 - s_tsc0 s0) k st0 = Some st1" "sched_inv st1" "length (sdata st1) = length (sdata st0)"
    "pml4_of st1 = pml4_of st0" "thread_current (sdata st1 ! k) = thread_current s0" "\<And>t. t_parent (thr st1 t) = t_parent (thr st0 t)"
    using retire_ok [OF inv0 k0, of rsp "now1 - s_tsc0 s0"] cur0 by auto
  define st2 where "st2 = upd_core k (scheduler_update_load st1 now2) st1"
  have k1: "k < length (sdata st1)"
    using r(3) k0 by simp
  have inv2: "sched_inv st2"
    unfolding st2_def using sched_invD [OF r(2) k1]
    by (intro sched_inv_core [OF r(2)]) (simp_all add: scheduler_update_load_frame)
  have k2: "k < length (sdata st2)"
    using k1 by (simp add: st2_def)
  have ctx: "cpu_pml4 (sdata st2 ! k) = pml4_of st (t_parent (thr st (thread_current s0)))"
    using sched_invD(4) [OF r(2) k1] r(4-6) k1
    by (simp add: st2_def context_ok_def Let_def scheduler_update_load_def st0_def)
  obtain t ticks s where n: "scheduler_next st2 k = Some (ticks, st2\<lparr>sdata := (sdata st2)[k := scheduler_set_thread st2 s t]\<rparr>)"
    "t \<noteq> 0" "core_ok s" "thread_idle s \<noteq> 0" "0 \<notin># queued s" "cpu_pml4 s = cpu_pml4 (sdata st2 ! k)"
    using inv2 k2 by (rule scheduler_next_ok)
  have old: "pml4_of st0 (t_parent (thr st0 (thread_current s0))) = cpu_pml4 s"
    using n(6) ctx by (simp add: st0_def)
  define new where "new = pml4_of st2 (t_parent (thr st2 t))"
  define v where "v = (if ticks \<noteq> 0 then ticks else cpu_timer s)"
  define st3 where "st3 = st2\<lparr>sdata := (sdata st2)[k := (scheduler_set_thread st2 s t)\<lparr>cpu_pml4 := new, cpu_timer := v\<rparr>]\<rparr>"
  have inv3: "sched_inv st3"
    unfolding st3_def new_def by (rule switch_inv [OF inv2 k2 n(2-5) refl])
  have "sched_inv (upd_thr t (\<lambda>x. x\<lparr>t_state := RUNNING\<rparr>) st3)"
    by (rule sched_inv_thr [OF inv3]) (simp add: keeps_context_def)
  then have inv4: "sched_inv (st3\<lparr>thr := (thr st3)(t := (thr st3 t)\<lparr>t_state := RUNNING\<rparr>), stacks := u\<rparr>)" for u
    by (simp add: sched_inv_def context_ok_def)
  define x where "x = (thr st2 t)\<lparr>t_state := RUNNING\<rparr>"
  define st4 where "st4 = st2\<lparr>sdata := (sdata st2)[k := (scheduler_set_thread st2 s t)\<lparr>cpu_pml4 := new, cpu_timer := v\<rparr>],
    thr := (thr st2)(t := x), stacks := (stacks st2)(t_rsp x := deliver exit_proc exit_thr x (stacks st2 (t_rsp x)))\<rparr>"
  have "schedule_handler exit_proc exit_thr k now1 now2 rsp st = Some (t_rsp x, st4)"
    unfolding schedule_handler_def scheduler_elapsed_time_def s0_def [symmetric] Let_def prod.case st0_def [symmetric]
    using r(1) n(1) inv(5) old
    by (simp add: st2_def [symmetric] k2 st4_def x_def v_def new_def set_pml4_same set_timer_same)
  moreover have "sched_inv st4"
    using inv4 by (simp add: st4_def st3_def x_def)
  ultimately show ?thesis
    using k2 by (simp add: st4_def x_def)
qed

text \<open>A machine with one core that runs its idle thread 1 while thread 7 waits.\<close>

definition thread0 :: thread_t where
  "thread0 = \<lparr>t_tid = 0, t_state = RUNNING, t_priority = TPR_IDLE, t_max_count = 0, t_time_used = 0, t_xstate = 0,
    t_rsp0 = 0, t_rsp = 0, t_parent = 0, t_wq = 0, t_lock = 0, t_yield = False, t_signals = 0, sig_recv = False,
    sig_wait = False, gs_krsp = 0, gs_ursp = 0\<rparr>"

definition stack0 :: stack_t where
  "stack0 = \<lparr>r15 = 0, r14 = 0, r13 = 0, r12 = 0, r11 = 0, r10 = 0, r9 = 0, r8 = 0, rbp = 0, rsi = 0, rdi = 0, rdx = 0,
    rcx = 0, rbx = 0, rax = 0, rip = 0, seg_cs = 0x23, rflags = 0, stk_rsp = 0, seg_ss = 0x1B\<rparr>"

definition machine0 :: sched_state where
  "machine0 = \<lparr>thr = (\<lambda>t. if t = 7 then thread0\<lparr>t_state := READY, t_priority := TPR_HIGH, t_max_count := 2, t_rsp := 77\<rparr> else thread0),
    wqs = (\<lambda>q. wq_init), mutexes = (\<lambda>m. \<lparr>mx_queue = 0, mx_free = False\<rparr>), stacks = (\<lambda>p. stack0),
    sdata = [core0\<lparr>cpu_gs := 1\<rparr>], dead = [], pml4_of = (\<lambda>p. 0), ipis = []\<rparr>"

lemma machine0_inv: "sched_inv machine0"
  by (simp add: sched_inv_def machine0_def core0_def core_ok_def queued_def context_ok_def thread0_def)

theorem schedule_handler_switches_witness:
  "\<exists>rsp' st'. schedule_handler 0 0 0 5 6 99 machine0 = Some (rsp', st') \<and> sched_inv st' \<and>
    t_state (thr st' (thread_current (sdata st' ! 0))) = RUNNING \<and> rsp' = t_rsp (thr st' (thread_current (sdata st' ! 0)))"
  by (rule schedule_handler_switches [OF machine0_inv]) (simp add: machine0_def)

section \<open>Signals\<close>



section \<open>Mutual exclusion\<close>


lemma wq_unlock_frame [simp]:
  "mutexes (wq_unlock q st) = mutexes st" "thr (wq_unlock q st) = thr st"
  "wq_list (wqs (wq_unlock q st) p) = wq_list (wqs st p)"
  by (simp_all add: wq_unlock_def Let_def)













end
