(* ===== verification/LibcTime.thy ===== *)
theory LibcTime
  imports Cint "HOL-Library.Monad_Syntax" "HOL-Library.Signed_Division"
begin

text \<open>
  Calendar arithmetic of \<^verbatim>\<open>src/libc/time\<close>: broken-down time from seconds since 1970 (\<open>gmtime\<close>) and back
  (\<open>mktime\<close>, which also normalises its argument).  The division of C truncates towards zero: \<open>sdiv\<close>, \<open>smod\<close>.
  The fields of a date are of type \<open>int\<close>: what \<open>gmtime\<close> stores into them is cut to 32 bits, and an overflow in
  the arithmetic of \<open>mktime\<close> on them, or of \<open>gmtime\<close> within a day of the least \<open>long\<close>, which C leaves undefined,
  makes the result \<open>None\<close>, as does a month outside the tables, an access out of bounds.
\<close>

record tm =
  tm_sec :: int
  tm_min :: int
  tm_hour :: int
  tm_mday :: int
  tm_mon :: int
  tm_year :: int
  tm_wday :: int
  tm_yday :: int
  tm_isdst :: int

definition days_per_month :: "int list list" where
  "days_per_month =
    [[31, 28, 31, 30, 31, 30, 31, 31, 30, 31, 30, 31],
     [31, 29, 31, 30, 31, 30, 31, 31, 30, 31, 30, 31]]"

definition days_by_month :: "int list list" where
  "days_by_month =
    [[0, 31, 59, 90, 120, 151, 181, 212, 243, 273, 304, 334],
     [0, 31, 60, 91, 121, 152, 182, 213, 244, 274, 305, 335]]"

definition LEAP_YEAR :: "int \<Rightarrow> bool" where
  "LEAP_YEAR y \<longleftrightarrow> y mod 4 = 0 \<and> y mod 100 \<noteq> 0 \<or> y mod 400 = 0"

definition DAYS_IN_YEAR :: "int \<Rightarrow> int" where
  "DAYS_IN_YEAR y = (if LEAP_YEAR (y + 1900) then 366 else 365)"

definition DAYS_PER_MONTH :: "int \<Rightarrow> int \<Rightarrow> int option" where
  "DAYS_PER_MONTH y m =
    (if 0 \<le> m \<and> m < 12 then Some (days_per_month ! (if LEAP_YEAR (y + 1900) then 1 else 0) ! nat m) else None)"

definition DAYS_BY_MONTH :: "int \<Rightarrow> int \<Rightarrow> int option" where
  "DAYS_BY_MONTH y m =
    (if 0 \<le> m \<and> m < 12 then Some (days_by_month ! (if LEAP_YEAR (y + 1900) then 1 else 0) ! nat m) else None)"

abbreviation "SECONDS_PER_DAY \<equiv> 86400 :: int"
abbreviation "SECONDS_PER_HOUR \<equiv> 3600 :: int"
abbreviation "SECONDS_PER_MINUTE \<equiv> 60 :: int"

lemma DAYS_IN_YEAR_pos [simp]: "0 < DAYS_IN_YEAR y"
  by (simp add: DAYS_IN_YEAR_def)

lemma DAYS_IN_YEAR_ge: "365 \<le> DAYS_IN_YEAR y"
  by (simp add: DAYS_IN_YEAR_def)

text \<open>A month number names one of twelve months.\<close>

lemma month_cases:
  assumes "0 \<le> (m :: int)" "m < 12"
  obtains "m = 0" | "m = 1" | "m = 2" | "m = 3" | "m = 4" | "m = 5" | "m = 6" | "m = 7" | "m = 8" | "m = 9" | "m = 10" | "m = 11"
  using assms by atomize_elim presburger

lemma DAYS_PER_MONTH_pos: "DAYS_PER_MONTH y m = Some d \<Longrightarrow> 28 \<le> d"
  unfolding DAYS_PER_MONTH_def days_per_month_def
  by (auto split: if_splits elim!: month_cases [of m])

section \<open>gmtime\<close>

function years_up :: "int \<Rightarrow> int \<Rightarrow> int \<times> int" where
  "years_up days year =
    (if days > 0 \<and> \<not> days < DAYS_IN_YEAR year then years_up (days - DAYS_IN_YEAR year) (year + 1) else (days, year))"
  by pat_completeness auto
termination
  by (relation "measure (\<lambda>(days, year). nat days)") auto

function years_down :: "int \<Rightarrow> int \<Rightarrow> int \<times> int" where
  "years_down days year = (if days < 0 then years_down (days + DAYS_IN_YEAR year) (year - 1) else (days, year))"
  by pat_completeness auto
termination
  by (relation "measure (\<lambda>(days, year). nat (- days))") auto

function months_up :: "int \<Rightarrow> int \<Rightarrow> int \<Rightarrow> (int \<times> int) option" where
  "months_up days year month =
    (case DAYS_PER_MONTH year month of
       None \<Rightarrow> None
     | Some tmp \<Rightarrow> if days < tmp then Some (days, month) else months_up (days - tmp) year (month + 1))"
  by pat_completeness auto
termination
  by (relation "measure (\<lambda>(days, year, month). nat (12 - month))") (auto simp: DAYS_PER_MONTH_def split: if_splits)

declare years_up.simps [simp del] years_down.simps [simp del] months_up.simps [simp del]

definition day_count :: "int \<Rightarrow> int" where
  "day_count ts = (let days = ts sdiv SECONDS_PER_DAY in if ts < 0 then days - 1 else days)"

definition weekday :: "int \<Rightarrow> int" where
  "weekday days = (let w = (days + 4) smod 7 in if w < 0 then w + 7 else w)"

definition gmtime :: "int \<Rightarrow> tm option" where
  "gmtime time =
    (let days = day_count time;
         ts = time - days * SECONDS_PER_DAY;
         wday = weekday days;
         (days', year) = years_up days 70;
         (days', year) = years_down days' year;
         yday = days'
     in if days * SECONDS_PER_DAY < - (2 ^ 63) then None else do {
       (days, month) \<leftarrow> months_up days' year 0;
       let ts = ts smod SECONDS_PER_DAY;
       let hour = ts sdiv SECONDS_PER_HOUR;
       let ts = ts smod SECONDS_PER_HOUR;
       let min = ts sdiv SECONDS_PER_MINUTE;
       let ts = ts smod SECONDS_PER_MINUTE;
       Some \<lparr>tm_sec = c_int ts, tm_min = c_int min, tm_hour = c_int hour, tm_mday = c_int (days + 1), tm_mon = c_int month,
             tm_year = c_int year, tm_wday = c_int wday, tm_yday = c_int yday, tm_isdst = 0\<rparr>
     })"

section \<open>mktime\<close>

definition normalize :: "int \<Rightarrow> int \<Rightarrow> int \<Rightarrow> (int \<times> int) option" where
  "normalize lo hi base =
    (if lo < 0 then do {
       v \<leftarrow> int_ok (- lo);
       if v smod base \<noteq> 0 then do { hi \<leftarrow> int_ok (hi - 1); hi \<leftarrow> int_ok (hi - v sdiv base); Some (base - v smod base, hi) }
       else do { hi \<leftarrow> int_ok (hi - v sdiv base); Some (0, hi) }
     }
     else if lo \<ge> base then do { hi \<leftarrow> int_ok (hi + lo sdiv base); Some (lo smod base, hi) }
     else Some (lo, hi))"

text \<open>The length of a month where the year is an \<open>int\<close>: \<open>y + 1900\<close> may overflow.\<close>

definition month_days :: "int \<Rightarrow> int \<Rightarrow> int option" where
  "month_days y m = do { _ \<leftarrow> int_ok (y + 1900); DAYS_PER_MONTH y m }"

lemma month_days_pos: "month_days y m = Some d \<Longrightarrow> 28 \<le> d"
  by (auto simp: month_days_def split: bind_splits dest: DAYS_PER_MONTH_pos)

function mday_up :: "int \<Rightarrow> int \<Rightarrow> int \<Rightarrow> (int \<times> int \<times> int) option" where
  "mday_up mday mon year =
    (if mday \<le> 0 then
       let (mon, year) = (if mon - 1 = -1 then (11, year - 1) else (mon - 1, year))
       in case int_ok year of None \<Rightarrow> None | Some year \<Rightarrow>
          case month_days year mon of None \<Rightarrow> None | Some d \<Rightarrow> mday_up (mday + d) mon year
     else Some (mday, mon, year))"
  by pat_completeness auto
termination
  by (relation "measure (\<lambda>(mday, mon, year). nat (1 - mday))") (auto dest: month_days_pos)

function mday_down :: "int \<Rightarrow> int \<Rightarrow> int \<Rightarrow> (int \<times> int \<times> int) option" where
  "mday_down mday mon year =
    (case month_days year mon of
       None \<Rightarrow> None
     | Some tmp \<Rightarrow>
         if mday \<le> tmp then Some (mday, mon, year)
         else let (mon, year) = (if mon + 1 \<ge> 12 then (0, year + 1) else (mon + 1, year))
              in case int_ok year of None \<Rightarrow> None | Some year \<Rightarrow> mday_down (mday - tmp) mon year)"
  by pat_completeness auto
termination
  by (relation "measure (\<lambda>(mday, mon, year). nat mday)") (auto dest: month_days_pos)

declare mday_up.simps [simp del] mday_down.simps [simp del]

text \<open>The two loops over the years from \<open>i\<close> up to \<open>n\<close>: the sum of their lengths.\<close>

definition year_days :: "int \<Rightarrow> int \<Rightarrow> int" where
  "year_days i n = sum_list (map DAYS_IN_YEAR [i..n - 1])"

text \<open>The timestamp and the normalised structure.\<close>

definition mktime :: "tm \<Rightarrow> (int \<times> tm) option" where
  "mktime t =
    do {
       (sec, min) \<leftarrow> normalize (tm_sec t) (tm_min t) 60;
       (min, hour) \<leftarrow> normalize min (tm_hour t) 60;
       (hour, mday) \<leftarrow> normalize hour (tm_mday t) 24;
       (mon, year) \<leftarrow> normalize (tm_mon t) (tm_year t) 12;
       (mday, mon, year) \<leftarrow> mday_up mday mon year;
       (mday, mon, year) \<leftarrow> mday_down mday mon year;
       by_month \<leftarrow> DAYS_BY_MONTH year mon;
       let days = mday - 1 + by_month;
       let yday = days;
       let days = (if year > 70 then days + year_days 70 year
                   else if year < 70 then days - year_days year 70 else days);
       let timestamp = days * SECONDS_PER_DAY + hour * SECONDS_PER_HOUR + min * SECONDS_PER_MINUTE + sec;
       Some (timestamp, t\<lparr>tm_sec := sec, tm_min := min, tm_hour := hour, tm_mday := mday, tm_mon := mon,
         tm_year := year, tm_wday := weekday days, tm_yday := yday\<rparr>)
     }"

section \<open>Ranges and the round trip\<close>

lemma sdiv_nonneg: "0 \<le> a \<Longrightarrow> 0 < b \<Longrightarrow> a sdiv b = a div (b :: int)"
  by (cases "a = 0") (simp_all add: signed_divide_int_def sgn_if)

lemma smod_nonneg: "0 \<le> a \<Longrightarrow> 0 < b \<Longrightarrow> a smod b = a mod (b :: int)"
  by (cases "a = 0") (simp_all add: signed_modulo_int_def sgn_if)

lemma above_long_min: "0 \<le> x \<Longrightarrow> \<not> 675 * x < - (72057594037927936 :: int)"
  by linarith

lemma div_less_bound: "a < c * b \<Longrightarrow> 0 < b \<Longrightarrow> a div b < (c :: int)"
  using mult_right_mono [of c "a div b" b] div_mult_mod_eq [of a b] pos_mod_sign [of b a] by linarith

lemma time_split: "ts div 86400 * 86400 + ts mod 86400 div 3600 * 3600 + ts mod 3600 div 60 * 60 + ts mod 60 = (ts :: int)"
proof -
  have "ts mod 86400 mod 3600 = ts mod 3600" "ts mod 3600 mod 60 = ts mod 60"
    by (simp_all add: mod_mod_cancel)
  then show ?thesis
    using div_mult_mod_eq [of ts 86400] div_mult_mod_eq [of "ts mod 86400" 3600] div_mult_mod_eq [of "ts mod 3600" 60]
    by linarith
qed

lemma year_days_self [simp]: "year_days i i = 0"
  by (simp add: year_days_def)

lemma year_days_first: "i < n \<Longrightarrow> year_days i n = DAYS_IN_YEAR i + year_days (i + 1) n"
  unfolding year_days_def by (subst upto_rec1) auto

lemma years_up_spec:
  assumes "0 \<le> days" "years_up days year = (d, y)"
  shows "year \<le> y \<and> 0 \<le> d \<and> d < DAYS_IN_YEAR y \<and> days = d + year_days year y"
  using assms
proof (induction days year rule: years_up.induct)
  case (1 days year)
  define P where "P \<longleftrightarrow> days > 0 \<and> \<not> days < DAYS_IN_YEAR year"
  show ?case
  proof (cases P)
    case True
    then have "years_up (days - DAYS_IN_YEAR year) (year + 1) = (d, y)"
      using "1.prems" by (simp add: P_def years_up.simps [of days year])
    then show ?thesis
      using 1 True year_days_first [of year y] by (auto simp: P_def)
  qed (use "1.prems" DAYS_IN_YEAR_pos [of year] in \<open>auto simp: P_def years_up.simps [of days year]\<close>)
qed

text \<open>The tables agree: the days before a month are those before the previous month plus its length.\<close>

lemma month_tables:
  assumes "0 \<le> m" "m < 12"
  obtains a b where "DAYS_PER_MONTH y m = Some a" "DAYS_BY_MONTH y m = Some b"
    "m < 11 \<longrightarrow> DAYS_BY_MONTH y (m + 1) = Some (b + a)" "m = 11 \<longrightarrow> a + b = DAYS_IN_YEAR y" "28 \<le> a"
  using assms
  by (cases rule: month_cases)
    (auto simp: DAYS_PER_MONTH_def DAYS_BY_MONTH_def DAYS_IN_YEAR_def days_per_month_def days_by_month_def)

lemma months_up_spec:
  assumes "0 \<le> m" "m < 12" "0 \<le> days" "DAYS_BY_MONTH y m = Some b" "b + days < DAYS_IN_YEAR y"
  shows "\<exists>d m' l b'. months_up days y m = Some (d, m') \<and> 0 \<le> m' \<and> m' < 12 \<and> 0 \<le> d \<and>
    DAYS_PER_MONTH y m' = Some l \<and> d < l \<and> DAYS_BY_MONTH y m' = Some b' \<and> b + days = b' + d"
  using assms
proof (induction days y m arbitrary: b rule: months_up.induct)
  case (1 days y m)
  obtain a where a: "DAYS_PER_MONTH y m = Some a" "28 \<le> a"
    "m < 11 \<longrightarrow> DAYS_BY_MONTH y (m + 1) = Some (b + a)" "m = 11 \<longrightarrow> a + b = DAYS_IN_YEAR y"
    using month_tables [of m y] "1.prems" by auto
  show ?case
  proof (cases "days < a")
    case True
    then show ?thesis
      using a "1.prems" by (subst months_up.simps) auto
  next
    case False
    then have "m < 11"
      using a "1.prems" by (cases "m = 11") auto
    then show ?thesis
      using a "1.prems" False "1.IH" [OF a(1) False, of "b + a"] by (subst months_up.simps) auto
  qed
qed

text \<open>Each year has at least 365 days, so the number of years is bounded by that of days.\<close>

lemma year_days_ge: "i \<le> n \<Longrightarrow> 365 * (n - i) \<le> year_days i n"
proof (induction "nat (n - i)" arbitrary: i)
  case (Suc k)
  then have "365 * (n - (i + 1)) \<le> year_days (i + 1) n" "i < n" using Suc.hyps(1) [of "i + 1"] by linarith+
  then show ?case using year_days_first [of i n] DAYS_IN_YEAR_ge [of i] by simp
qed simp

lemma weekday_range: "0 \<le> weekday d \<and> weekday d < 7"
proof -
  have "(d + 4) smod 7 = sgn (d + 4) * (\<bar>d + 4\<bar> mod 7)" by (simp add: signed_modulo_int_def)
  moreover have "0 \<le> \<bar>d + 4\<bar> mod 7" "\<bar>d + 4\<bar> mod 7 < 7" by simp_all
  ultimately show ?thesis by (auto simp: weekday_def Let_def sgn_if)
qed

lemma DAYS_BY_MONTH_0: "DAYS_BY_MONTH y 0 = Some 0"
  by (simp add: DAYS_BY_MONTH_def days_by_month_def)

lemma years_down_nonneg: "0 \<le> d \<Longrightarrow> years_down d y = (d, y)"
  by (simp add: years_down.simps)

text \<open>What \<open>gmtime\<close> computes for a time that is not negative and below 2^55 seconds: the year fits.\<close>

lemma gmtime_nonneg:
  assumes "0 \<le> ts" and lt: "ts < 2 ^ 55"
  obtains t l b where "gmtime ts = Some t"
    "70 \<le> tm_year t" "0 \<le> tm_mon t" "tm_mon t < 12" "1 \<le> tm_mday t" "tm_mday t \<le> l"
    "DAYS_PER_MONTH (tm_year t) (tm_mon t) = Some l" "DAYS_BY_MONTH (tm_year t) (tm_mon t) = Some b"
    "tm_yday t = tm_mday t - 1 + b" "tm_wday t = weekday (ts div 86400)" "tm_isdst t = 0"
    "ts div 86400 = tm_yday t + year_days 70 (tm_year t)"
    "tm_hour t = ts mod 86400 div 3600" "tm_min t = ts mod 3600 div 60" "tm_sec t = ts mod 60"
    "tm_year t < 2 ^ 31 - 1900"
proof -
  have dc: "day_count ts = ts div 86400"
    using assms by (simp add: day_count_def sdiv_nonneg)
  have r: "ts - ts div 86400 * 86400 = ts mod 86400"
    by (simp add: minus_div_mult_eq_mod)
  obtain d y where up: "years_up (ts div 86400) 70 = (d, y)"
    by fastforce
  with assms have dy: "70 \<le> y" "0 \<le> d" "d < DAYS_IN_YEAR y" "ts div 86400 = d + year_days 70 y"
    using years_up_spec [OF _ up] by auto
  obtain d' m l b where m: "months_up d y 0 = Some (d', m)" "0 \<le> m" "m < 12" "0 \<le> d'"
    "DAYS_PER_MONTH y m = Some l" "d' < l" "DAYS_BY_MONTH y m = Some b" "d = b + d'"
    using months_up_spec [of 0 d y 0] dy DAYS_BY_MONTH_0 by (simp add: that, elim exE conjE) (rule that)
  have secs: "ts mod 86400 mod 3600 = ts mod 3600" "ts mod 3600 mod 60 = ts mod 60"
    by (simp_all add: mod_mod_cancel)
  have "ts div 86400 < 417000000000" using lt by (intro div_less_bound) simp_all
  then have y0: "y < 2 ^ 31 - 1900" using year_days_ge [OF dy(1)] dy(2,4) by simp
  then have y: "y < 2147481748" by simp
  have yd: "d < 366" using dy(3) by (simp add: DAYS_IN_YEAR_def split: if_splits)
  have dl: "b + d' < 366" "0 \<le> b" using yd m by (auto simp: DAYS_BY_MONTH_def days_by_month_def elim!: month_cases [of m] split: if_splits)
  have hms: "0 \<le> ts mod 86400 div 3600" "ts mod 86400 div 3600 < 24" "0 \<le> ts mod 3600 div 60"
    "ts mod 3600 div 60 < 60" "0 \<le> ts mod 60" "ts mod 60 < 60"
    using div_less_bound [of "ts mod 86400" 24 3600] div_less_bound [of "ts mod 3600" 60 60]
    by (simp_all add: pos_imp_zdiv_nonneg_iff)
  have ci: "c_int (ts mod 60) = ts mod 60" "c_int (ts mod 3600 div 60) = ts mod 3600 div 60"
    "c_int (ts mod 86400 div 3600) = ts mod 86400 div 3600" "c_int (d' + 1) = d' + 1" "c_int m = m" "c_int y = y" "c_int d = d"
    "c_int (weekday (ts div 86400)) = weekday (ts div 86400)"
    by (rule c_int_nonneg; use hms dl m(2-4) y dy(1,2) yd weekday_range [of "ts div 86400"] in linarith)+
  have "0 \<le> ts div 86400" using assms by (simp add: pos_imp_zdiv_nonneg_iff)
  then have lo: "\<not> 675 * (ts div 86400) < - 72057594037927936" by (rule above_long_min)
  have "gmtime ts = Some \<lparr>tm_sec = ts mod 60, tm_min = ts mod 3600 div 60, tm_hour = ts mod 86400 div 3600,
    tm_mday = d' + 1, tm_mon = m, tm_year = y, tm_wday = weekday (ts div 86400), tm_yday = d, tm_isdst = 0\<rparr>"
    by (simp add: gmtime_def dc r up years_down_nonneg [OF dy(2)] m(1) Let_def smod_nonneg sdiv_nonneg secs ci lo)
  then show thesis
    by (rule that [of _ l b]) (use dy m y in simp_all)
qed

lemma normalize_id: "0 \<le> lo \<Longrightarrow> lo < base \<Longrightarrow> normalize lo hi base = Some (lo, hi)"
  by (simp add: normalize_def)

text \<open>C4. For a time from 1970 on, up to 2^55 seconds or about a thousand million years, \<open>gmtime\<close> returns a date,
  and \<open>mktime\<close> of this date returns the time, without overflow, and leaves the date as it is.\<close>

theorem gmtime_mktime_roundtrip:
  assumes "0 \<le> ts" and "ts < 2 ^ 55"
  shows "\<exists>t. gmtime ts = Some t \<and> mktime t = Some (ts, t)"
proof -
  obtain t l b where t: "gmtime ts = Some t"
    "70 \<le> tm_year t" "0 \<le> tm_mon t" "tm_mon t < 12" "1 \<le> tm_mday t" "tm_mday t \<le> l"
    "DAYS_PER_MONTH (tm_year t) (tm_mon t) = Some l" "DAYS_BY_MONTH (tm_year t) (tm_mon t) = Some b"
    "tm_yday t = tm_mday t - 1 + b" "tm_wday t = weekday (ts div 86400)"
    "ts div 86400 = tm_yday t + year_days 70 (tm_year t)"
    "tm_hour t = ts mod 86400 div 3600" "tm_min t = ts mod 3600 div 60" "tm_sec t = ts mod 60" "tm_year t < 2 ^ 31 - 1900"
    using assms by (rule gmtime_nonneg)
  have range: "0 \<le> ts mod 86400 div 3600" "ts mod 86400 div 3600 < 24" "0 \<le> ts mod 3600 div 60"
    "ts mod 3600 div 60 < 60" "0 \<le> ts mod 60" "ts mod 60 < 60"
    using div_less_bound [of "ts mod 86400" 24 3600] div_less_bound [of "ts mod 3600" 60 60]
    by (simp_all add: pos_imp_zdiv_nonneg_iff)
  have n: "normalize (tm_sec t) (tm_min t) 60 = Some (tm_sec t, tm_min t)"
    "normalize (tm_min t) (tm_hour t) 60 = Some (tm_min t, tm_hour t)"
    "normalize (tm_hour t) (tm_mday t) 24 = Some (tm_hour t, tm_mday t)"
    "normalize (tm_mon t) (tm_year t) 12 = Some (tm_mon t, tm_year t)"
    using t(3,4) by (simp_all only: t(12-14) normalize_id range)
  have u: "mday_up (tm_mday t) (tm_mon t) (tm_year t) = Some (tm_mday t, tm_mon t, tm_year t)"
    "mday_down (tm_mday t) (tm_mon t) (tm_year t) = Some (tm_mday t, tm_mon t, tm_year t)"
    using t by (simp_all add: mday_up.simps mday_down.simps month_days_def int_ok_def)
  have days: "(if 70 < tm_year t then tm_yday t + year_days 70 (tm_year t)
    else if tm_year t < 70 then tm_yday t - year_days (tm_year t) 70 else tm_yday t) = ts div 86400"
    using t by auto
  have ts: "ts div 86400 * 86400 + tm_hour t * 3600 + tm_min t * 60 + tm_sec t = ts"
    unfolding t(12-14) by (rule time_split)
  have "mktime t = Some (ts, t)"
    unfolding mktime_def n u t(8) Let_def prod.case Option.bind.simps t(9) [symmetric] days ts t(10) [symmetric]
    by simp
  then show ?thesis
    using t(1) by blast
qed

theorem gmtime_mktime_roundtrip_witness: "\<exists>t. gmtime 951782400 = Some t \<and> mktime t = Some (951782400, t)"
  by (rule gmtime_mktime_roundtrip) simp_all

section \<open>Before 1970\<close>







end
