(* ===== verification/Spec2Isabelle.thy ===== *)
theory Spec2Isabelle
  imports Pmm Lists Cint Environ LibcStdlib HeapPages HeapInv Mmap Timer Fd Pipes Sched LibcTime LibcString Heap
begin

text \<open>
  A verification library for novino, an operating system for 64-bit x86 machines: the memory management, the
  scheduler and the synchronisation primitives of the kernel (\<^verbatim>\<open>src/kernel\<close>) and the string and calendar
  functions of its C library (\<^verbatim>\<open>src/libc\<close>).

  \<^bold>\<open>How the parts interact.\<close>  At start-up the firmware memory map (e820) and the boot allocator (slmm) feed the
  page allocator (pmm).  The virtual memory manager (vmm) takes page tables and page frames from the page
  allocator, and the kernel heap (heap) grows by asking the virtual memory manager for pages.  The scheduler
  switches threads and address spaces; wait queues and mutexes put threads to sleep and make them ready again.
  Lists that run through their elements (lists) hold the queues of all of these.

  \<^bold>\<open>The theories.\<close>
  \<^item> \<open>Prelude\<close>: machine words, error numbers and the lemmas on lists, options and words that the other theories share.
  \<^item> \<open>Cint\<close>: the C type \<open>int\<close>, conversion to it and overflow.
  \<^item> \<open>Lists\<close> (kernel/main/lists.c): intrusive doubly linked lists over an explicit store of link nodes.  Every
    operation refines the operation on the sequence of elements; appending and popping is a queue; iteration
    visits every element.  This is why the other theories use HOL lists for intrusive lists.
  \<^item> \<open>Pmm\<close> (kernel/mem/pmm.c): the bitmap of physical pages in 64-bit words.  The counter and the search start are
    invariants; single pages are allocated lowest first, runs first fit; a request of 2^20 pages wraps around.
  \<^item> \<open>BootMem\<close> (kernel/mem/e820.c, slmm.c, pmm_init): which pages are free once the page allocator is set up.
  \<^item> \<open>Vmm\<close> (kernel/mem/vmm.c): four-level page tables seen through the recursive window, with the walk of the
    memory management unit.  Mapping, allocating and freeing a page change exactly the translation of that page.
  \<^item> \<open>Heap\<close> (kernel/mem/heap.c): chunk headers and the free list in two stores, with the layout they describe and
    the effect of splitting and joining chunks on this layout.  \<open>HeapInv\<close> shows that allocation, growing and
    release keep the layout, that blocks in use never overlap, that the search ends with the first fit, and that
    the rounding of the 15 largest sizes wraps around; the other theorems on allocation exclude sizes from 2^64 - 64 on.  \<open>HeapPages\<close> puts the heap on top of the page tables of \<open>Vmm\<close>;
    the properties at the end of this theory say that the heap is always backed by pages and that its operations
    never fault.
  \<^item> \<open>Sched\<close> (kernel/sched): run queues, the scheduling interrupt, wait queues, mutexes and threads.  The interrupt
    always returns and leaves the processor in the context of a queued thread; round-robin threads do not starve;
    mutexes exclude each other; the selectors stored by signal delivery are wrong.
  \<^item> \<open>LibcString\<close> (libc/string, libc/ctype): blocks and strings in a byte memory.
  \<^item> \<open>LibcTime\<close> (libc/time): conversion between seconds and calendar dates, exact for the \<open>2 ^ 55\<close>
    seconds from 1970 on, for which the year fits an \<open>int\<close>; dates at midnights before 1970 are wrong.
  \<^item> \<open>Pipes\<close> (kernel/vfs/pipes.c, pipefs.c): the ring buffer as a bounded queue, sleeping and resuming of both
    sides, and the bytes lost when a writer resumes on a full buffer.
  \<^item> \<open>Fd\<close> (kernel/vfs/fd.c): descriptor tables and the reference counts of open files.
  \<^item> \<open>Timer\<close> (kernel/time/timer.c): the list of one-shot timers stays in order and a tick fires the ones that are due;
    exact as long as times stay below 2^62 nanoseconds, about 146 years.
  \<^item> \<open>Mmap\<close> (kernel/mem/map.c, mmio.c): regions of memory maps over \<open>Vmm\<close>; they tile the range of the map, the
    best fit is chosen, and the flags of \<open>mm_map\<close> do not reach the page tables.
  \<^item> \<open>LibcStdlib\<close> (libc/stdlib): binary search on ordered arrays, the UTF-8 round trip, numbers and division;
    \<open>mbstowcs\<close> fails on every ASCII string when there is room for the terminator.
  \<^item> \<open>Environ\<close> (libc/stdlib/_stdlib.c, setenv.c, getenv.c, putenv.c, unsetenv.c): the environment array; setting and
    reading variables, and what a failed growth leaves behind.

  \<^bold>\<open>Conventions.\<close>  Pointers are addresses, 0 is the null pointer.  Integers are machine words where the code
  depends on their width and natural numbers or integers elsewhere.  Code that holds a spinlock is one atomic step.
  A page fault, an access through the null pointer, a table access out of bounds, an overflow of
  \<open>int\<close> arithmetic (where the model computes in \<open>int\<close>, see \<open>Cint\<close>) and a loop that never ends are the
  value \<open>None\<close>; theorems that say that a function returns state that its value is \<open>Some\<close>.  No definition uses fuel:
  loops are recursive functions with a termination proof, or partial functions whose divergence is \<open>None\<close>, and the
  lemmas on them show when they end.

  \<^bold>\<open>Not modelled.\<close>  The construction of the first page tables (vmm_init), memory type registers; the contents of heap blocks; process creation and program loading; the virtual
  file system and the file systems; terminals, input, storage, network, USB, PCI, ACPI and processor drivers, which
  mostly read and write device registers; the boot loader, the application programs, formatted input and output and
  floating point arithmetic.  Translation caches and memory ordering between cores are left out as well.
\<close>

section \<open>Heap, page tables and page allocator together\<close>

text \<open>C8. Setting up the heap: with a well-formed page table that maps nothing at the start of the heap area,
  and four free pages, \<open>heap_init\<close> returns; the heap it leaves is well formed, with one free chunk
  between the guards, all its addresses are mapped, and all other translations are unchanged.\<close>

theorem heap_init_backed:
  assumes "vmm_wf v" and "heap_small v" and "mmu_frame v KHEAP = None" and "4 \<le> avail (frames v)"
  shows "\<exists>v' h'. heap_init v h = Some (v', h') \<and> heap_ok v' h' \<and> heap_inv h' [unat KHEAP + 32] [unat KHEAP + 32] \<and>
    same_outside v v' (hp_start h') (hp_end h')"
  using heap_init_maps [OF assms, of h] heap_init_inv [of v h] by blast

theorem heap_init_backed_witness:
  "\<exists>v' h'. heap_init vmm0 heap0 = Some (v', h') \<and> heap_ok v' h' \<and> heap_inv h' [unat KHEAP + 32] [unat KHEAP + 32] \<and>
    same_outside vmm0 v' (hp_start h') (hp_end h')"
  by (rule heap_init_backed) (simp_all add: vmm0_wf heap_small_def vmm0_small vmm0_unmapped index_KHEAP vmm0_frames)

text \<open>C5. An allocation on a well-formed heap, of any size up to 64 bytes below the end of the address space,
  returns without a fault in the page tables, also when the
  heap has to grow and when pages run out half way.  Afterwards the heap is still backed by pages, other
  translations are unchanged, and every byte of the block is mapped.\<close>

theorem kmalloc_backed:
  assumes i: "heap_inv h cs fs" and ok: "heap_ok v h" and sz: "sz + 64 < 2 ^ 64"
  shows "\<exists>p v' h'. kmalloc v h sz = Some (p, v', h') \<and> heap_ok v' h' \<and> same_outside v v' (hp_end h) (hp_end h') \<and>
    (p \<noteq> 0 \<longrightarrow> (\<forall>a. p \<le> a \<and> a < p + sz \<longrightarrow> mmu_frame v' (of_nat a) \<noteq> None))"
proof -
  obtain p v' h' where k: "kmalloc v h sz = Some (p, v', h')" and s: "heap_step v h v' h'"
    using kmalloc_maps [OF i ok sz] by blast
  have "mmu_frame v' (of_nat a) \<noteq> None" if p: "p \<noteq> 0" and a: "p \<le> a" "a < p + sz" for a
  proof -
    have "hp_start h' \<le> p \<and> p + sz \<le> hp_end h'" using kmalloc_inside [OF i k p sz] .
    then have "hp_start h' \<le> a" "a < hp_end h'" using a by auto
    then show ?thesis using s by (simp add: heap_step_def heap_ok_def backed_def)
  qed
  then show ?thesis using k s by (auto simp: heap_step_def)
qed

theorem kmalloc_backed_witness:
  "\<exists>v h p v' h'. heap_init vmm0 heap0 = Some (v, h) \<and> kmalloc v h 100 = Some (p, v', h') \<and> heap_ok v' h'"
proof -
  obtain v h where i: "heap_init vmm0 heap0 = Some (v, h)" "heap_ok v h" "heap_get_size h \<noteq> 0"
    using heap_init_maps [of vmm0 heap0]
    by (auto simp: vmm0_wf heap_small_def vmm0_small vmm0_unmapped index_KHEAP vmm0_frames)
  have "heap_inv h [unat KHEAP + 32] [unat KHEAP + 32]" using heap_init_inv [OF i(1,3)] by simp
  from kmalloc_backed [OF this i(2), of 100] show ?thesis using i(1) by (simp, metis)
qed

end
